(* ===== verification/Prelude.thy ===== *)
theory Prelude
  imports Main "HOL-Library.Word" "HOL-Library.AList"
begin

text \<open>
  Shared vocabulary of the LauraDB development: bytes and Go strings, the little-endian
  integer encodings of \<^verbatim>\<open>encoding/binary\<close>, \<^verbatim>\<open>bytes.Compare\<close>, slices of a byte array with
  Go's bounds checks, Go maps as association lists, decimal printing (\<^verbatim>\<open>%d\<close>), and the
  interface of a self-delimiting byte codec.
\<close>

unbundle bit_operations_syntax

named_theorems codec_simps \<open>sizes and round trips of the byte encodings\<close>
named_theorems gomap_simps \<open>lookups and keys of Go maps\<close>
named_theorems slice_simps \<open>lengths and contents of slices\<close>

type_synonym byte = "8 word"
type_synonym bytes = "8 word list"
type_synonym u16 = "16 word"
type_synonym u32 = "32 word"
type_synonym u64 = "64 word"

subsection \<open>Go strings as bytes\<close>

text \<open>A Go string is a sequence of bytes; \<^typ>\<open>string\<close> is its reading as characters.\<close>

definition byte_of_char :: "char \<Rightarrow> byte" where
  "byte_of_char c = of_nat (of_char c)"

definition char_of_byte :: "byte \<Rightarrow> char" where
  "char_of_byte b = char_of (unat b)"

definition str_bytes :: "string \<Rightarrow> bytes" where
  "str_bytes s = map byte_of_char s"

definition bytes_str :: "bytes \<Rightarrow> string" where
  "bytes_str bs = map char_of_byte bs"

lemma unat_byte_of_char [simp]: "unat (byte_of_char c) = of_char c"
  by (simp add: byte_of_char_def unat_of_nat)

lemma char_of_byte_of_char [simp]: "char_of_byte (byte_of_char c) = c"
  by (simp add: char_of_byte_def)

lemma byte_of_char_of_byte [simp]: "byte_of_char (char_of_byte b) = b"
proof -
  have "unat b < 2 ^ LENGTH(8)" by (rule unsigned_less)
  then show ?thesis by (simp add: char_of_byte_def byte_of_char_def)
qed

lemma byte_of_char_inj [simp]: "byte_of_char c = byte_of_char d \<longleftrightarrow> c = d"
  by (metis char_of_byte_of_char)

lemma bytes_str_bytes [simp]: "bytes_str (str_bytes s) = s"
  by (simp add: bytes_str_def str_bytes_def o_def)

lemma str_bytes_str [simp]: "str_bytes (bytes_str b) = b"
  by (simp add: bytes_str_def str_bytes_def o_def)

lemma length_str_bytes [simp]: "length (str_bytes s) = length s"
  by (simp add: str_bytes_def)

lemma length_bytes_str [simp]: "length (bytes_str s) = length s"
  by (simp add: bytes_str_def)

lemma str_bytes_inj [simp]: "str_bytes s = str_bytes t \<longleftrightarrow> s = t"
  by (metis bytes_str_bytes)

subsection \<open>Little-endian integers\<close>

text \<open>
  \<^verbatim>\<open>binary.LittleEndian.PutUint16/32/64\<close> and \<^verbatim>\<open>Uint16/32/64\<close>: byte \<open>i\<close> holds bits
  \<open>8 * i\<close> to \<open>8 * i + 7\<close>.
\<close>

primrec le_bytes :: "nat \<Rightarrow> 'a::len word \<Rightarrow> bytes" where
  "le_bytes 0 w = []"
| "le_bytes (Suc n) w = ucast w # le_bytes n (drop_bit 8 w)"

primrec le_word :: "bytes \<Rightarrow> 'a::len word" where
  "le_word [] = 0"
| "le_word (b # bs) = ucast b OR push_bit 8 (le_word bs)"

lemma length_le_bytes [simp, codec_simps]: "length (le_bytes n w) = n"
  by (induction n arbitrary: w) auto

lemma le_bytes_neq_Nil [simp]: "le_bytes n w = [] \<longleftrightarrow> n = 0"
  by (cases n) auto

lemma le_word_le_bytes: "le_word (le_bytes n w) = take_bit (8 * n) w"
proof (induction n arbitrary: w)
  case 0
  then show ?case by simp
next
  case (Suc n)
  have "bit (ucast (ucast w :: byte) OR push_bit 8 (take_bit (8 * n) (drop_bit 8 w))) k
      = bit (take_bit (8 * Suc n) w) k" if k: "k < LENGTH('a)" for k
  proof (cases "k < 8")
    case True
    with k show ?thesis
      by (simp add: bit_or_iff bit_push_bit_iff bit_take_bit_iff bit_ucast_iff)
  next
    case False
    with k show ?thesis
      by (simp add: bit_or_iff bit_push_bit_iff bit_take_bit_iff bit_ucast_iff bit_drop_bit_eq)
        (auto simp: possible_bit_def)
  qed
  then have "ucast (ucast w :: byte) OR push_bit 8 (take_bit (8 * n) (drop_bit 8 w))
      = take_bit (8 * Suc n) w"
    by (rule bit_word_eqI)
  then show ?case by (simp add: Suc.IH)
qed

lemma le_word_u16 [simp, codec_simps]: "le_word (le_bytes 2 (w :: u16)) = w"
  by (simp add: le_word_le_bytes take_bit_word_eq_self)

lemma le_word_u32 [simp, codec_simps]: "le_word (le_bytes 4 (w :: u32)) = w"
  by (simp add: le_word_le_bytes take_bit_word_eq_self)

lemma le_word_u64 [simp, codec_simps]: "le_word (le_bytes 8 (w :: u64)) = w"
  by (simp add: le_word_le_bytes take_bit_word_eq_self)

subsection \<open>bytes.Compare\<close>

text \<open>
  \<^verbatim>\<open>bytes.Compare\<close> (and \<^verbatim>\<open>compareBytes\<close> of \<^verbatim>\<open>pkg/lsm\<close>): -1, 0 or 1 by the lexicographic order on
  unsigned bytes. Go's \<open><\<close> on strings is the same order on their bytes.
\<close>

fun bytes_compare :: "bytes \<Rightarrow> bytes \<Rightarrow> int" where
  "bytes_compare [] [] = 0"
| "bytes_compare [] (_ # _) = -1"
| "bytes_compare (_ # _) [] = 1"
| "bytes_compare (a # as) (b # bs) =
     (if a < b then -1 else if b < a then 1 else bytes_compare as bs)"

lemma bytes_compare_range: "bytes_compare a b \<in> {-1, 0, 1}"
  by (induction a b rule: bytes_compare.induct) auto

lemma bytes_compare_eq [simp]: "bytes_compare a b = 0 \<longleftrightarrow> a = b"
  by (induction a b rule: bytes_compare.induct) auto

lemma bytes_compare_flip: "bytes_compare b a = - bytes_compare a b"
  by (induction a b rule: bytes_compare.induct) auto

lemma bytes_compare_pos: "bytes_compare a b > 0 \<longleftrightarrow> bytes_compare b a < 0"
  using bytes_compare_flip[of a b] by auto

lemma bytes_compare_trans:
  "bytes_compare a b < 0 \<Longrightarrow> bytes_compare b c < 0 \<Longrightarrow> bytes_compare a c < 0"
proof (induction a b arbitrary: c rule: bytes_compare.induct)
  case (4 a as b bs)
  then show ?case by (cases c) (auto split: if_splits)
next
  case (2 b bs)
  then show ?case by (cases c) auto
qed auto

lemma bytes_compare_total: "a \<noteq> b \<Longrightarrow> bytes_compare a b < 0 \<or> bytes_compare b a < 0"
  using bytes_compare_range[of a b] bytes_compare_eq[of a b] bytes_compare_flip[of a b] by auto

lemma bytes_compare_irrefl [simp]: "\<not> bytes_compare a a < 0"
  by (induction a) auto

subsection \<open>Slices with bounds checks\<close>

text \<open>
  \<^verbatim>\<open>data[lo:hi]\<close> panics unless \<open>lo \<le> hi \<le> len\<close>: \<^term>\<open>None\<close>. Writing \<open>bs\<close> through
  \<^verbatim>\<open>copy(data[lo:hi], bs)\<close> or \<^verbatim>\<open>PutUintN(data[lo:hi], v)\<close> replaces the bytes from \<open>lo\<close> on.
\<close>

definition go_slice :: "'a list \<Rightarrow> nat \<Rightarrow> nat \<Rightarrow> 'a list option" where
  "go_slice xs lo hi = (if lo \<le> hi \<and> hi \<le> length xs then Some (take (hi - lo) (drop lo xs)) else None)"

definition write_at :: "nat \<Rightarrow> 'a list \<Rightarrow> 'a list \<Rightarrow> 'a list" where
  "write_at off bs xs = take off xs @ bs @ drop (off + length bs) xs"

definition read_at :: "nat \<Rightarrow> nat \<Rightarrow> 'a list \<Rightarrow> 'a list" where
  "read_at off n xs = take n (drop off xs)"

lemma length_write_at [simp, slice_simps]:
  "off + length bs \<le> length xs \<Longrightarrow> length (write_at off bs xs) = length xs"
  by (simp add: write_at_def)

lemma length_read_at [slice_simps]: "off + n \<le> length xs \<Longrightarrow> length (read_at off n xs) = n"
  by (simp add: read_at_def)

lemma write_at_nth:
  assumes "off + length bs \<le> length xs" "i < length xs"
  shows "write_at off bs xs ! i = (if off \<le> i \<and> i < off + length bs then bs ! (i - off) else xs ! i)"
  using assms by (auto simp: write_at_def nth_append min_def)

lemma read_write_same [slice_simps]:
  "off + length bs \<le> length xs \<Longrightarrow> read_at off (length bs) (write_at off bs xs) = bs"
  by (simp add: read_at_def write_at_def min_def)

lemma read_write_other:
  assumes "off + length bs \<le> length xs" "o2 + n \<le> length xs"
    and "o2 + n \<le> off \<or> off + length bs \<le> o2"
  shows "read_at o2 n (write_at off bs xs) = read_at o2 n xs"
  by (rule nth_equalityI)
    (use assms in \<open>auto simp: read_at_def write_at_nth\<close>)

lemma go_slice_read: "lo \<le> hi \<Longrightarrow> hi \<le> length xs \<Longrightarrow> go_slice xs lo hi = Some (read_at lo (hi - lo) xs)"
  by (simp add: go_slice_def read_at_def)

subsection \<open>Go maps as association lists\<close>

text \<open>
  A Go map that the code iterates over is an association list with distinct keys, so that
  the list order stands for the unspecified iteration order: \<^term>\<open>map_of\<close> looks a key up,
  \<^const>\<open>AList.update\<close> stores, \<^const>\<open>AList.delete\<close> removes.
\<close>

abbreviation map_keys :: "('k \<times> 'v) list \<Rightarrow> 'k list" where
  "map_keys m \<equiv> map fst m"

definition wf_map :: "('k \<times> 'v) list \<Rightarrow> bool" where
  "wf_map m = distinct (map fst m)"

lemma wf_map_Nil [simp]: "wf_map []"
  by (simp add: wf_map_def)

lemma wf_map_update [simp, intro]: "wf_map m \<Longrightarrow> wf_map (AList.update k v m)"
  unfolding wf_map_def by (rule distinct_update)

lemma wf_map_delete [simp, intro]: "wf_map m \<Longrightarrow> wf_map (AList.delete k m)"
  unfolding wf_map_def by (rule distinct_delete)

lemma map_of_update [simp, gomap_simps]:
  "map_of (AList.update k v m) j = (if j = k then Some v else map_of m j)"
  by (simp add: update_conv')

lemma map_of_delete [simp, gomap_simps]:
  "map_of (AList.delete k m) j = (if j = k then None else map_of m j)"
  by (simp add: delete_conv')

lemma update_new_append: "k \<notin> set (map_keys m) \<Longrightarrow> AList.update k v m = m @ [(k, v)]"
  by (induction m) auto

lemma length_update_new: "map_of m k = None \<Longrightarrow> length (AList.update k v m) = Suc (length m)"
  by (simp add: update_new_append map_of_eq_None_iff)

lemma length_update_old: "map_of m k = Some w \<Longrightarrow> length (AList.update k v m) = length m"
  by (induction m) (auto split: if_splits)

lemma update_keys_old: "map_of m k = Some w \<Longrightarrow> map_keys (AList.update k v m) = map_keys m"
  by (induction m) (auto split: if_splits)

lemma delete_notin: "k \<notin> set (map_keys m) \<Longrightarrow> AList.delete k m = m"
  by (induction m) auto

lemma delete_Cons: "AList.delete k ((j, v) # m) = (if j = k then AList.delete k m else (j, v) # AList.delete k m)"
  by (simp add: AList.delete_eq)

lemma set_delete_subset: "set (AList.delete k m) \<subseteq> set m"
  by (auto simp: AList.delete_eq)

lemma keys_delete [simp]: "fst ` set (AList.delete k m) = fst ` set m - {k}"
  by (auto simp: AList.delete_eq)

lemma keys_update [simp]: "fst ` set (AList.update k v m) = insert k (fst ` set m)"
  by (induction m) auto

lemma set_update_insert: "set (AList.update k v m) \<subseteq> insert (k, v) (set m)"
  by (induction m) auto

lemma length_delete:
  "wf_map m \<Longrightarrow> map_of m k = Some v \<Longrightarrow> Suc (length (AList.delete k m)) = length m"
proof (induction m)
  case (Cons p m)
  then show ?case
    by (cases p) (auto simp: delete_Cons wf_map_def delete_notin split: if_splits)
qed simp

lemma map_of_wf_mem: "wf_map m \<Longrightarrow> (k, v) \<in> set m \<longleftrightarrow> map_of m k = Some v"
  by (auto simp: wf_map_def map_of_is_SomeI dest: map_of_SomeD)

lemma ran_map_of_wf: "wf_map m \<Longrightarrow> ran (map_of m) = snd ` set m"
  by (simp add: wf_map_def ran_distinct)

subsection \<open>Counters modulo a bound\<close>

lemma unat_of_nat_small:
  "n < 2 ^ 16 \<Longrightarrow> unat (of_nat n :: u16) = n"
  "n < 2 ^ 32 \<Longrightarrow> unat (of_nat n :: u32) = n"
  "n < 2 ^ 64 \<Longrightarrow> unat (of_nat n :: u64) = n"
  by (simp_all add: unsigned_of_nat take_bit_nat_eq_self)

lemma add_mod_less_absurd: "(a + i) mod m = (a + j) mod m \<Longrightarrow> i < j \<Longrightarrow> j < (m :: nat) \<Longrightarrow> False"
  using mod_eq_dvd_iff_nat[of "a + i" "a + j" m] dvd_imp_le[of m "j - i"] by simp

lemma add_mod_inj: "(a + i) mod m = (a + j) mod m \<Longrightarrow> i < m \<Longrightarrow> j < m \<Longrightarrow> i = (j :: nat)"
  using add_mod_less_absurd[of a i m j] add_mod_less_absurd[of a j m i]
  by (metis linorder_neqE_nat)

subsection \<open>Decimal printing\<close>

text \<open>\<^verbatim>\<open>fmt.Sprintf("%d", i)\<close> for a non-negative \<open>i\<close>.\<close>

definition digit_char :: "nat \<Rightarrow> char" where
  "digit_char d = char_of (48 + d)"

fun itoa :: "nat \<Rightarrow> string" where
  "itoa n = (if n < 10 then [digit_char n] else itoa (n div 10) @ [digit_char (n mod 10)])"

declare itoa.simps [simp del]

definition atoi :: "string \<Rightarrow> nat" where
  "atoi s = foldl (\<lambda>acc c. 10 * acc + (of_char c - 48)) 0 s"

lemma digit_char_value: "d < 10 \<Longrightarrow> (of_char (digit_char d) :: nat) = 48 + d"
  by (simp add: digit_char_def)

lemma atoi_itoa: "atoi (itoa n) = n"
proof (induction n rule: itoa.induct)
  case (1 n)
  show ?case
  proof (cases "n < 10")
    case True
    then show ?thesis by (simp add: itoa.simps[of n] atoi_def digit_char_value)
  next
    case False
    then have "atoi (itoa n) = 10 * atoi (itoa (n div 10)) + n mod 10"
      by (simp add: itoa.simps[of n] atoi_def digit_char_value)
    with "1"[OF False] show ?thesis by simp
  qed
qed

lemma itoa_inj [simp]: "itoa m = itoa n \<longleftrightarrow> m = n"
  by (metis atoi_itoa)

lemma itoa_digits: "c \<in> set (itoa n) \<Longrightarrow> \<exists>d<10. c = digit_char d"
proof (induction n rule: itoa.induct)
  case (1 n)
  then show ?case
    by (cases "n < 10") (auto simp: itoa.simps[of n] intro: exI[of _ "n mod 10"])
qed

lemma digit_char_nonzero: "d < 10 \<Longrightarrow> byte_of_char (digit_char d) \<noteq> 0"
proof
  assume d: "d < 10" and z: "byte_of_char (digit_char d) = 0"
  have "unat (byte_of_char (digit_char d)) = 48 + d"
    by (simp only: unat_byte_of_char digit_char_value[OF d])
  with z show False by simp
qed

subsection \<open>Interface: a self-delimiting byte codec\<close>

text \<open>
  An encoder with a decoder that reads one value off the front of its input and returns
  the rest. Write-ahead-log records and SSTable entries provide it; logs and table data
  sections, which concatenate such encodings, are its clients.
\<close>

locale byte_codec =
  fixes enc :: "'a \<Rightarrow> bytes"
    and dec :: "bytes \<Rightarrow> ('a \<times> bytes) option"
    and ok :: "'a \<Rightarrow> bool"
  assumes dec_enc: "ok x \<Longrightarrow> dec (enc x @ rest) = Some (x, rest)"
    and enc_nonempty: "ok x \<Longrightarrow> enc x \<noteq> []"
begin

lemma enc_prefix_free:
  assumes "ok x" "ok y" "enc x @ r = enc y @ s"
  shows "x = y \<and> r = s"
proof -
  from dec_enc[OF assms(1), of r] have "dec (enc y @ s) = Some (x, r)"
    by (simp only: assms(3))
  with dec_enc[OF assms(2), of s] show ?thesis by simp
qed

lemma enc_concat_inj:
  assumes "\<forall>x \<in> set xs. ok x" "\<forall>y \<in> set ys. ok y"
    and "concat (map enc xs) = concat (map enc ys)"
  shows "xs = ys"
  using assms
proof (induction xs arbitrary: ys)
  case Nil
  then show ?case by (cases ys) (simp_all add: enc_nonempty)
next
  case (Cons x xs)
  from Cons.prems obtain y ys' where ys: "ys = y # ys'"
    by (cases ys) (simp_all add: enc_nonempty)
  have e: "enc x @ concat (map enc xs) = enc y @ concat (map enc ys')"
    using Cons.prems(3) unfolding ys by (simp only: list.map concat.simps)
  have "ok x" "ok y" using Cons.prems(1,2) ys by simp_all
  from enc_prefix_free[OF this e] have "x = y \<and> concat (map enc xs) = concat (map enc ys')" .
  with Cons.IH[of ys'] Cons.prems(1,2) ys show ?case by simp
qed

end

subsection \<open>Interface: a log of encoded records\<close>

text \<open>A reader that consumes one encoding after the other, in terms of one decoding step.\<close>

locale byte_log = byte_codec enc dec ok
  for enc :: "'a \<Rightarrow> bytes" and dec :: "bytes \<Rightarrow> ('a \<times> bytes) option" and ok :: "'a \<Rightarrow> bool" +
  fixes read_all :: "bytes \<Rightarrow> 'e + 'a list"
  assumes read_all_Nil: "read_all [] = Inr []"
    and read_all_step: "dec bs = Some (x, rest) \<Longrightarrow>
      read_all bs = (case read_all rest of Inl e \<Rightarrow> Inl e | Inr xs \<Rightarrow> Inr (x # xs))"
begin

lemma read_all_append:
  assumes "\<forall>x \<in> set xs. ok x"
  shows "read_all (concat (map enc xs) @ rest)
    = (case read_all rest of Inl e \<Rightarrow> Inl e | Inr ys \<Rightarrow> Inr (xs @ ys))"
  using assms
proof (induction xs)
  case (Cons x xs)
  have "dec (enc x @ concat (map enc xs) @ rest) = Some (x, concat (map enc xs) @ rest)"
    using Cons.prems by (simp add: dec_enc)
  from read_all_step[OF this] Cons show ?case by (simp split: sum.splits)
qed (simp split: sum.splits)

lemma read_all_concat: "\<forall>x \<in> set xs. ok x \<Longrightarrow> read_all (concat (map enc xs)) = Inr xs"
  using read_all_append[of xs "[]"] by (simp add: read_all_Nil)

end

end
