(* ===== verification/Document.thy ===== *)
theory Document
  imports Prelude
begin

text \<open>
  Package \<^verbatim>\<open>document\<close> (\<^verbatim>\<open>types.go\<close>, \<^verbatim>\<open>document.go\<close>, \<^verbatim>\<open>objectid.go\<close>): the dynamic values a document
  holds, the ordered document with its operations, and object identifiers. A Go
  \<^verbatim>\<open>interface{}\<close> is a value of \<open>gval\<close>, one constructor per dynamic type the code
  distinguishes; a \<^verbatim>\<open>float64\<close> is its 64-bit IEEE pattern. Documents are values here: the
  sharing of a pointer between two holders is not modelled.
\<close>

subsection \<open>Types and values\<close>

abbreviation (input) TypeFloat64 :: byte where "TypeFloat64 \<equiv> 0x01"
abbreviation (input) TypeString :: byte where "TypeString \<equiv> 0x02"
abbreviation (input) TypeDocument :: byte where "TypeDocument \<equiv> 0x03"
abbreviation (input) TypeArray :: byte where "TypeArray \<equiv> 0x04"
abbreviation (input) TypeBinary :: byte where "TypeBinary \<equiv> 0x05"
abbreviation (input) TypeObjectID :: byte where "TypeObjectID \<equiv> 0x07"
abbreviation (input) TypeBoolean :: byte where "TypeBoolean \<equiv> 0x08"
abbreviation (input) TypeNull :: byte where "TypeNull \<equiv> 0x0A"
abbreviation (input) TypeInt32 :: byte where "TypeInt32 \<equiv> 0x10"
abbreviation (input) TypeTimestamp :: byte where "TypeTimestamp \<equiv> 0x11"
abbreviation (input) TypeInt64 :: byte where "TypeInt64 \<equiv> 0x12"

definition type_String :: "byte \<Rightarrow> string" where
  "type_String t =
     (if t = TypeNull then ''null''
      else if t = TypeBoolean then ''boolean''
      else if t = TypeInt32 then ''int32''
      else if t = TypeInt64 then ''int64''
      else if t = TypeFloat64 then ''float64''
      else if t = TypeString then ''string''
      else if t = TypeBinary then ''binary''
      else if t = TypeObjectID then ''objectid''
      else if t = TypeArray then ''array''
      else if t = TypeDocument then ''document''
      else if t = TypeTimestamp then ''timestamp''
      else ''unknown'')"

text \<open>
  \<open>GObjectID\<close> carries the twelve bytes; \<open>GTime\<close> an instant; \<open>GArr\<close> is \<^verbatim>\<open>[]interface{}\<close>;
  \<open>GMap\<close> is \<^verbatim>\<open>map[string]interface{}\<close>; \<open>GDocPtr\<close> is \<^verbatim>\<open>*Document\<close>, \<open>GDoc\<close> is \<^verbatim>\<open>Document\<close> by
  value, \<open>GValuePtr\<close> is \<^verbatim>\<open>*Value\<close>, and \<open>GOther\<close> any type the code treats alike.
\<close>

datatype gval =
    GNil
  | GBool bool
  | GInt u64
  | GInt32 u32
  | GInt64 u64
  | GUint u64
  | GUint32 u32
  | GUint64 u64
  | GFloat32 u32
  | GFloat64 u64
  | GString string
  | GBytes bytes
  | GObjectID bytes
  | GTime int
  | GArr "gval list"
  | GMap "(string \<times> gval) list"
  | GDocPtr document
  | GDoc document
  | GValuePtr bvalue
  | GOther
and bvalue = Value (v_Type: byte) (v_Data: gval)
and document = Document (d_fields: "(string \<times> bvalue) list") (d_order: "string list")

fun NewValue :: "gval \<Rightarrow> bvalue" where
  "NewValue GNil = Value TypeNull GNil"
| "NewValue (GBool b) = Value TypeBoolean (GBool b)"
| "NewValue (GInt32 i) = Value TypeInt32 (GInt32 i)"
| "NewValue (GInt64 i) = Value TypeInt64 (GInt64 i)"
| "NewValue (GInt i) = Value TypeInt64 (GInt64 i)"
| "NewValue (GFloat64 f) = Value TypeFloat64 (GFloat64 f)"
| "NewValue (GString s) = Value TypeString (GString s)"
| "NewValue (GBytes b) = Value TypeBinary (GBytes b)"
| "NewValue (GObjectID i) = Value TypeObjectID (GObjectID i)"
| "NewValue (GTime t) = Value TypeTimestamp (GTime t)"
| "NewValue (GArr xs) = Value TypeArray (GArr xs)"
| "NewValue (GMap m) = Value TypeDocument (GMap m)"
| "NewValue (GDocPtr d) = Value TypeDocument (GDocPtr d)"
| "NewValue (GDoc d) = Value TypeDocument (GDoc d)"
| "NewValue _ = Value TypeNull GNil"

subsection \<open>The ordered document\<close>

definition NewDocument :: document where
  "NewDocument = Document [] []"

fun doc_Set :: "document \<Rightarrow> string \<Rightarrow> gval \<Rightarrow> document" where
  "doc_Set (Document fs ord) key v =
     Document (AList.update key (NewValue v) fs)
       (case map_of fs key of None \<Rightarrow> ord @ [key] | Some _ \<Rightarrow> ord)"

definition NewDocumentFromMap :: "(string \<times> gval) list \<Rightarrow> document" where
  "NewDocumentFromMap m = foldl (\<lambda>doc (k, v). doc_Set doc k v) NewDocument m"

text \<open>\<^verbatim>\<open>Get\<close> returns \<^verbatim>\<open>(value, true)\<close> or \<^verbatim>\<open>(nil, false)\<close>.\<close>

definition doc_Get :: "document \<Rightarrow> string \<Rightarrow> gval \<times> bool" where
  "doc_Get d key = (case map_of (d_fields d) key of Some v \<Rightarrow> (v_Data v, True) | None \<Rightarrow> (GNil, False))"

definition doc_GetValue :: "document \<Rightarrow> string \<Rightarrow> bvalue option" where
  "doc_GetValue d key = map_of (d_fields d) key"

definition doc_Has :: "document \<Rightarrow> string \<Rightarrow> bool" where
  "doc_Has d key = (map_of (d_fields d) key \<noteq> None)"

fun doc_Delete :: "document \<Rightarrow> string \<Rightarrow> document" where
  "doc_Delete (Document fs ord) key =
     (case map_of fs key of None \<Rightarrow> Document fs ord
      | Some _ \<Rightarrow> Document (AList.delete key fs) (remove1 key ord))"

definition doc_Keys :: "document \<Rightarrow> string list" where
  "doc_Keys d = d_order d"

definition doc_Len :: "document \<Rightarrow> nat" where
  "doc_Len d = length (d_fields d)"

definition doc_GetNested :: "document \<Rightarrow> string \<Rightarrow> gval \<times> bool" where
  "doc_GetNested d path = doc_Get d path"

lemma size_field_less: "(k, v) \<in> set fs \<Longrightarrow> size v < size (Document fs ord)"
  by (induction fs) auto

lemma size_lookup_less: "map_of fs k = Some v \<Longrightarrow> size v < size (Document fs ord)"
  by (blast dest: map_of_SomeD intro: size_field_less)

lemma size_item_less: "x \<in> set xs \<Longrightarrow> size x < size (GArr xs)"
  by (induction xs) auto

function ToMap :: "document \<Rightarrow> gval"
  and valueToInterface :: "bvalue \<Rightarrow> gval"
  where
  "ToMap (Document fs ord) = GMap (map (\<lambda>(k, v). (k, valueToInterface v)) fs)"
| "valueToInterface (Value t x) =
     (if t = TypeDocument then
        (case x of GDocPtr d \<Rightarrow> ToMap d | GMap m \<Rightarrow> GMap m | _ \<Rightarrow> x)
      else if t = TypeArray then
        (case x of
           GArr arr \<Rightarrow> GArr (map (\<lambda>item. case item of GValuePtr v \<Rightarrow> valueToInterface v | _ \<Rightarrow> item) arr)
         | _ \<Rightarrow> x)
      else x)"
  by pat_completeness auto
termination
  by (relation "measure (case_sum size size)")
    (auto dest!: size_field_less size_item_less)

text \<open>
  \<^verbatim>\<open>Clone\<close> walks the keys in order and stores a copy of each value; nested documents are
  cloned, maps, arrays and byte slices copied one level deep.
\<close>

function Clone :: "document \<Rightarrow> document"
  and clone_loop :: "(string \<times> bvalue) list \<Rightarrow> string list \<Rightarrow> document \<Rightarrow> document"
  and cloneValue :: "bvalue \<Rightarrow> gval"
  where
  "Clone (Document fs ord) = clone_loop fs ord NewDocument"
| "clone_loop fs [] clone = clone"
| "clone_loop fs (key # ks) clone =
     (case map_of fs key of
        Some v \<Rightarrow> clone_loop fs ks (doc_Set clone key (cloneValue v))
      | None \<Rightarrow> clone_loop fs ks clone)"
| "cloneValue (Value t x) =
     (if t = TypeDocument then
        (case x of GDocPtr d \<Rightarrow> GDocPtr (Clone d) | GMap m \<Rightarrow> GMap m | _ \<Rightarrow> x)
      else if t = TypeArray then (case x of GArr arr \<Rightarrow> GArr arr | _ \<Rightarrow> x)
      else if t = TypeBinary then (case x of GBytes b \<Rightarrow> GBytes b | _ \<Rightarrow> x)
      else x)"
  by pat_completeness auto
termination
  by (relation "measures
      [case_sum size (case_sum (\<lambda>(fs, ks, c). size (Document fs [])) size),
       case_sum (\<lambda>_. 1) (case_sum (\<lambda>(fs, ks, c). 0) (\<lambda>_. 0)),
       case_sum (\<lambda>_. 0) (case_sum (\<lambda>(fs, ks, c). length ks) (\<lambda>_. 0))]")
    (auto dest: size_lookup_less)


subsection \<open>Object identifiers\<close>

text \<open>
  \<^verbatim>\<open>NewObjectID\<close> takes the clock reading, the bytes drawn at start-up and the process-wide
  counter, and returns the identifier with the counter's new value. The three counter
  bytes are written most significant first.
\<close>

definition NewObjectID :: "u32 \<Rightarrow> bytes \<Rightarrow> u32 \<Rightarrow> bytes \<times> u32" where
  "NewObjectID timestamp processUnique objectIDCounter =
     (let counter = objectIDCounter + 1 in
      (rev (le_bytes 4 timestamp) @ processUnique @
         [ucast (drop_bit 16 counter), ucast (drop_bit 8 counter), ucast counter],
       counter))"

definition oid_Timestamp :: "bytes \<Rightarrow> u32" where
  "oid_Timestamp oid = le_word (rev (take 4 oid))"

definition oid_IsZero :: "bytes \<Rightarrow> bool" where
  "oid_IsZero oid = (oid = replicate 12 0)"

definition hex_char :: "nat \<Rightarrow> char" where
  "hex_char n = (if n < 10 then char_of (48 + n) else char_of (87 + n))"

definition unhex :: "char \<Rightarrow> nat option" where
  "unhex c = (let n = (of_char c :: nat) in
     if 48 \<le> n \<and> n \<le> 57 then Some (n - 48)
     else if 97 \<le> n \<and> n \<le> 102 then Some (n - 87)
     else if 65 \<le> n \<and> n \<le> 70 then Some (n - 55)
     else None)"

fun hex_EncodeToString :: "bytes \<Rightarrow> string" where
  "hex_EncodeToString [] = []"
| "hex_EncodeToString (b # bs) =
     hex_char (unat b div 16) # hex_char (unat b mod 16) # hex_EncodeToString bs"

fun hex_DecodeString :: "string \<Rightarrow> bytes option" where
  "hex_DecodeString [] = Some []"
| "hex_DecodeString [c] = None"
| "hex_DecodeString (a # b # cs) =
     (case unhex a of None \<Rightarrow> None
      | Some x \<Rightarrow> (case unhex b of None \<Rightarrow> None
         | Some y \<Rightarrow> (case hex_DecodeString cs of None \<Rightarrow> None
            | Some bs \<Rightarrow> Some (of_nat (16 * x + y) # bs))))"

datatype oid_error = OidBadLength nat | OidBadHex

definition ObjectIDFromHex :: "string \<Rightarrow> oid_error + bytes" where
  "ObjectIDFromHex s =
     (if length s \<noteq> 24 then Inl (OidBadLength (length s))
      else case hex_DecodeString s of None \<Rightarrow> Inl OidBadHex | Some b \<Rightarrow> Inr b)"

definition oid_Hex :: "bytes \<Rightarrow> string" where
  "oid_Hex oid = hex_EncodeToString oid"

text \<open>The identifiers a process draws one after the other, one clock reading each.\<close>

fun oid_run :: "u32 list \<Rightarrow> bytes \<Rightarrow> u32 \<Rightarrow> bytes list" where
  "oid_run [] u c = []"
| "oid_run (t # ts) u c = (case NewObjectID t u c of (oid, c') \<Rightarrow> oid # oid_run ts u c')"

subsection \<open>Well-formed documents\<close>

text \<open>
  The representation invariant: the field map and the order list hold the same keys, each
  once, in the order of first insertion, and every stored value is what \<^verbatim>\<open>NewValue\<close> makes of
  its data, in nested documents too.
\<close>

function doc_ok :: "document \<Rightarrow> bool"
  and val_ok :: "bvalue \<Rightarrow> bool"
  where
  "doc_ok (Document fs ord) =
     (map_keys fs = ord \<and> distinct ord \<and> list_all (\<lambda>(k, v). val_ok v) fs)"
| "val_ok (Value t x) =
     (Value t x = NewValue x \<and> (case x of GDocPtr d \<Rightarrow> doc_ok d | _ \<Rightarrow> True))"
  by pat_completeness auto
termination
  by (relation "measure (case_sum size size)") (auto dest!: size_field_less)

lemma NewValue_idem [simp]: "NewValue (v_Data (NewValue x)) = NewValue x"
  by (cases x) auto

lemma val_ok_NewValue:
  "val_ok (NewValue x) \<longleftrightarrow> (case x of GDocPtr d \<Rightarrow> doc_ok d | _ \<Rightarrow> True)"
  by (cases x) auto

lemma doc_ok_New [simp]: "doc_ok NewDocument"
  by (simp add: NewDocument_def)

lemma list_all_update:
  "list_all (\<lambda>(k, v). P v) fs \<Longrightarrow> P w \<Longrightarrow> list_all (\<lambda>(k, v). P v) (AList.update key w fs)"
  by (induction fs) auto

lemma doc_ok_Set:
  assumes "doc_ok d" "val_ok (NewValue x)"
  shows "doc_ok (doc_Set d key x)"
proof (cases d)
  case (Document fs ord)
  with assms(1) have ok: "map_keys fs = ord" "distinct ord" "list_all (\<lambda>(k, v). val_ok v) fs"
    by auto
  show ?thesis
  proof (cases "map_of fs key")
    case None
    then have "key \<notin> set ord" using ok(1) by (auto simp: map_of_eq_None_iff)
    with None ok assms(2) Document show ?thesis by (simp add: update_new_append)
  next
    case (Some w)
    with ok assms(2) Document show ?thesis by (simp add: update_keys_old[OF Some] list_all_update)
  qed
qed

lemma delete_keys_remove1: "distinct (map_keys fs) \<Longrightarrow> map_keys (AList.delete key fs) = remove1 key (map_keys fs)"
  by (simp add: delete_keys distinct_remove1_removeAll)

lemma doc_ok_Delete: "doc_ok d \<Longrightarrow> doc_ok (doc_Delete d key)"
  by (cases d)
    (auto simp: delete_keys_remove1 list_all_iff dest: set_delete_subset[THEN subsetD] split: option.splits)

text \<open>Lookups after an update, as the callers of a document use them.\<close>

lemma doc_Get_Set: "doc_Get (doc_Set d key x) j = (if j = key then (v_Data (NewValue x), True) else doc_Get d j)"
  by (cases d) (auto simp: doc_Get_def)

lemma doc_Get_Delete: "doc_Get (doc_Delete d key) j = (if j = key then (GNil, False) else doc_Get d j)"
  by (cases d) (auto simp: doc_Get_def split: option.splits)

lemma doc_Keys_Set: "doc_ok d \<Longrightarrow>
  doc_Keys (doc_Set d key x) = (if doc_Has d key then doc_Keys d else doc_Keys d @ [key])"
  by (cases d) (auto simp: doc_Keys_def doc_Has_def split: option.splits)

lemma doc_Keys_Delete: "doc_Keys (doc_Delete d key) = (if doc_Has d key then remove1 key (doc_Keys d) else doc_Keys d)"
  by (cases d) (auto simp: doc_Keys_def doc_Has_def split: option.splits)

lemma doc_Len_Keys: "doc_ok d \<Longrightarrow> doc_Len d = length (doc_Keys d)"
  by (cases d) (auto simp: doc_Len_def doc_Keys_def)

lemma doc_Has_Keys: "doc_ok d \<Longrightarrow> doc_Has d k \<longleftrightarrow> k \<in> set (doc_Keys d)"
  by (cases d) (auto simp: doc_Has_def doc_Keys_def map_of_eq_None_iff dest: weak_map_of_SomeI)

lemma doc_Set_append:
  "key \<notin> set (map_keys fs) \<Longrightarrow>
   doc_Set (Document fs (map_keys fs)) key x = Document (fs @ [(key, NewValue x)]) (map_keys fs @ [key])"
  by (simp add: update_new_append map_of_eq_None_iff[THEN iffD2])

text \<open>A sequence of edits of one document, as the update operators of a collection run them.\<close>

datatype doc_edit = EditSet string gval | EditDelete string

fun doc_edit_step :: "document \<Rightarrow> doc_edit \<Rightarrow> document" where
  "doc_edit_step d (EditSet k x) = doc_Set d k x"
| "doc_edit_step d (EditDelete k) = doc_Delete d k"

definition edit_ok :: "doc_edit \<Rightarrow> bool" where
  "edit_ok e = (case e of EditSet k x \<Rightarrow> val_ok (NewValue x) | EditDelete k \<Rightarrow> True)"

lemma doc_ok_edits: "doc_ok d \<Longrightarrow> \<forall>e \<in> set es. edit_ok e \<Longrightarrow> doc_ok (foldl doc_edit_step d es)"
proof (induction es arbitrary: d)
  case (Cons e es)
  then show ?case
    by (cases e) (auto simp: edit_ok_def intro: doc_ok_Set doc_ok_Delete)
qed simp

lemma Clone_ok_aux:
  shows "doc_ok d \<Longrightarrow> Clone d = d"
    and "fs = pre @ suf \<Longrightarrow> ks = map_keys suf \<Longrightarrow> c = Document pre (map_keys pre) \<Longrightarrow>
      distinct (map_keys fs) \<Longrightarrow> list_all (\<lambda>(k, v). val_ok v) fs \<Longrightarrow>
      clone_loop fs ks c = Document fs (map_keys fs)"
    and "val_ok v \<Longrightarrow> NewValue (cloneValue v) = v"
proof (induction d and fs ks c and v arbitrary: and pre suf and rule: Clone_clone_loop_cloneValue.induct)
  case (1 fs ord)
  then show ?case using "1.IH"[of "[]" fs] by (simp add: NewDocument_def)
next
  case (2 fs c)
  then show ?case by simp
next
  case (3 fs key ks c)
  from "3.prems" obtain v suf' where suf: "suf = (key, v) # suf'" "ks = map_keys suf'"
    by (cases suf) auto
  with "3.prems" have lk: "map_of fs key = Some v" and vok: "val_ok v"
    by (auto simp: map_of_eq_None_iff[THEN iffD2] map_add_def)
  have nv: "NewValue (cloneValue v) = v" using "3.IH"(2)[OF lk vok] .
  have "key \<notin> set (map_keys pre)" using "3.prems" suf by auto
  then have "doc_Set c key (cloneValue v) = Document (pre @ [(key, v)]) (map_keys (pre @ [(key, v)]))"
    using "3.prems"(3) doc_Set_append[of key pre "cloneValue v"] nv by simp
  then show ?case
    using "3.IH"(3)[OF lk, of "pre @ [(key, v)]" suf'] "3.prems" suf lk by simp
next
  case (4 t x)
  then show ?case by (cases x) auto
qed




subsection \<open>Properties of object identifiers\<close>

lemma unhex_hex: "n < 16 \<Longrightarrow> unhex (hex_char n) = Some n"
  by (auto simp: unhex_def hex_char_def Let_def)

lemma byte_nibbles: "of_nat (16 * (unat b div 16) + unat b mod 16) = (b :: byte)"
  by simp

lemma unat_byte_less: "unat (b :: byte) < 256"
  using unsigned_less[of b] by simp

lemma hex_roundtrip: "hex_DecodeString (hex_EncodeToString bs) = Some bs"
proof (induction bs)
  case (Cons b bs)
  have "unat b div 16 < 16" using unat_byte_less[of b] by simp
  then show ?case using Cons by (simp add: unhex_hex byte_nibbles del: of_nat_add of_nat_mult)
qed simp

lemma length_hex [simp]: "length (hex_EncodeToString bs) = 2 * length bs"
  by (induction bs) auto

lemma hex_Decode_length: "hex_DecodeString s = Some bs \<Longrightarrow> length s = 2 * length bs"
  by (induction s arbitrary: bs rule: hex_DecodeString.induct) (auto split: option.splits)

text \<open>
  The hexadecimal form of a 12-byte identifier has 24 characters and parses back to the
  identifier; and whatever string \<^verbatim>\<open>ObjectIDFromHex\<close> accepts has 24 characters and yields
  12 bytes.
\<close>

theorem objectid_hex_roundtrip:
  "(length oid = 12 \<longrightarrow> length (oid_Hex oid) = 24 \<and> ObjectIDFromHex (oid_Hex oid) = Inr oid) \<and>
   (ObjectIDFromHex s = Inr b \<longrightarrow> length s = 24 \<and> length b = 12)"
  by (auto simp: ObjectIDFromHex_def oid_Hex_def hex_roundtrip dest: hex_Decode_length
      split: if_splits option.splits)

theorem objectid_hex_roundtrip_witness:
  "ObjectIDFromHex (oid_Hex [1, 2, 3, 4, 5, 6, 7, 8, 9, 10, 171, 255])
     = Inr [1, 2, 3, 4, 5, 6, 7, 8, 9, 10, 171, 255] \<and>
   ObjectIDFromHex ''zz0000000000000000000000'' = Inl OidBadHex"
  using objectid_hex_roundtrip[of "[1, 2, 3, 4, 5, 6, 7, 8, 9, 10, 171, 255]" "[]" "[]"]
  by (simp add: ObjectIDFromHex_def unhex_def Let_def split: if_splits)

lemma be_counter_bytes:
  "[ucast (drop_bit 16 c), ucast (drop_bit 8 c), ucast c] = rev (le_bytes 3 (c :: u32))"
  by (simp add: numeral_3_eq_3 drop_bit_drop_bit)

lemma counter_bytes_eq:
  "rev (le_bytes 3 (c :: u32)) = rev (le_bytes 3 d) \<Longrightarrow> unat c mod 2 ^ 24 = unat (d :: u32) mod 2 ^ 24"
proof -
  assume "rev (le_bytes 3 c) = rev (le_bytes 3 d)"
  then have "le_word (le_bytes 3 c) = (le_word (le_bytes 3 d) :: u32)" by simp
  then have "take_bit 24 c = take_bit 24 d" by (simp add: le_word_le_bytes)
  then have "unat (take_bit 24 c) = unat (take_bit 24 d)" by simp
  then have "take_bit 24 (unat c) = take_bit 24 (unat d)" by (simp only: unsigned_take_bit_eq)
  then show ?thesis by (simp only: take_bit_eq_mod)
qed

lemma unat_counter: "unat ((c :: u32) + of_nat k) mod 2 ^ 24 = (unat c + k) mod 2 ^ 24"
proof -
  have "unat (c + of_nat k) = (unat c + k) mod 2 ^ 32"
    by (simp add: unat_word_ariths unat_of_nat mod_simps)
  then show ?thesis by (simp add: mod_mod_cancel)
qed

lemma oid_run_nth:
  "i < length ts \<Longrightarrow>
   oid_run ts u c ! i = rev (le_bytes 4 (ts ! i)) @ u @ rev (le_bytes 3 (c + of_nat (Suc i)))"
proof (induction ts arbitrary: c i)
  case (Cons t ts)
  then show ?case
    by (cases i) (simp_all add: NewObjectID_def Let_def be_counter_bytes ac_simps)
qed simp

lemma length_oid_run [simp]: "length (oid_run ts u c) = length ts"
  by (induction ts arbitrary: c) (auto simp: NewObjectID_def Let_def)

text \<open>
  C25. The identifiers one process draws are pairwise different as long as it draws at most
  \<open>2 ^ 24\<close> of them, whatever the clock does; each has 12 bytes and carries its clock reading.
  The three counter bytes alone tell the identifiers apart, also when the 32-bit counter
  wraps around.
\<close>

theorem objectid_run_distinct:
  assumes "length u = 5" and "length ts \<le> 2 ^ 24"
  shows "distinct (oid_run ts u c) \<and>
    (\<forall>i < length ts. length (oid_run ts u c ! i) = 12 \<and> oid_Timestamp (oid_run ts u c ! i) = ts ! i)"
proof
  show "distinct (oid_run ts u c)"
  proof (clarsimp simp: distinct_conv_nth)
    fix i j assume ij: "i < length ts" "j < length ts" "i \<noteq> j"
      and eq: "oid_run ts u c ! i = oid_run ts u c ! j"
    have "rev (le_bytes 3 (c + of_nat (Suc i))) = rev (le_bytes 3 (c + of_nat (Suc j)))"
      using eq ij by (simp add: oid_run_nth del: of_nat_Suc)
    from counter_bytes_eq[OF this]
    have "(unat c + Suc i) mod 2 ^ 24 = (unat c + Suc j) mod 2 ^ 24"
      by (simp only: unat_counter)
    then have "(Suc (unat c) + i) mod 2 ^ 24 = (Suc (unat c) + j) mod 2 ^ 24"
      by (simp only: add_Suc_right add_Suc)
    from add_mod_inj[OF this] have "i = j" using ij assms(2) by simp
    with ij show False by simp
  qed
  show "\<forall>i < length ts. length (oid_run ts u c ! i) = 12 \<and> oid_Timestamp (oid_run ts u c ! i) = ts ! i"
    using assms(1) by (simp add: oid_run_nth oid_Timestamp_def)
qed

theorem objectid_run_distinct_witness:
  "distinct (oid_run [7, 7, 6] [1, 2, 3, 4, 5] (-2))"
  using objectid_run_distinct[of "[1, 2, 3, 4, 5]" "[7, 7, 6]" "-2", THEN conjunct1]
  by (simp del: oid_run.simps)

end
