(* ===== verification/Bson.thy ===== *)
theory Bson
  imports Document
begin

text \<open>
  \<^verbatim>\<open>pkg/document/bson.go\<close>: the BSON encoder and decoder, byte for byte. An encoder call
  returns the bytes or an error; a failed Go type assertion and a \<^verbatim>\<open>make\<close> with a negative
  length are the errors \<open>EncPanic\<close> and \<open>DecPanic\<close>. A reader is the list of bytes not yet read.
\<close>

datatype bson_error =
    EncPanic
  | EncInvalidDocument
  | EncUnsupported byte
  | DecEOF
  | DecPanic
  | DecUnsupported byte

subsection \<open>A weight for the encoder's recursion\<close>

lemma size_v_Data: "size (v_Data v) < size v"
  by (cases v) simp

lemma size_map_item_less: "(k, v) \<in> set m \<Longrightarrow> size v < size (GMap m)"
  by (induction m) auto

function wdoc :: "document \<Rightarrow> nat" and wval :: "gval \<Rightarrow> nat" where
  "wdoc (Document fs ord) = sum_list (map (\<lambda>(k, v). wval (v_Data v)) fs)"
| "wval x =
     (case x of
        GArr xs \<Rightarrow> Suc (sum_list (map wval xs))
      | GMap m \<Rightarrow> Suc (sum_list (map (\<lambda>(k, v). wval v) m))
      | GDocPtr d \<Rightarrow> Suc (wdoc d)
      | _ \<Rightarrow> 0)"
  by pat_completeness auto

termination
proof (relation "measure (case_sum size size)", goal_cases)
  case (2 fs ord x k v)
  then have "size v < size (Document fs ord)" by (metis size_field_less)
  then show ?case using size_v_Data[of v] by simp
next
  case (4 x m z k v)
  then show ?case using size_map_item_less[of k v m] by simp
qed (auto dest: size_item_less)

declare wval.simps [simp del]

lemma wval_unfold:
  "wval (GArr xs) = Suc (sum_list (map wval xs))"
  "wval (GMap m) = Suc (sum_list (map (\<lambda>(k, v). wval v) m))"
  "wval (GDocPtr d) = Suc (wdoc d)"
  by (subst wval.simps, simp)+

lemma wval_NewValue: "wval (v_Data (NewValue x)) \<le> wval x"
  by (cases x) (auto simp: wval.simps)

lemma wdoc_update:
  "sum_list (map (\<lambda>(k, v). wval (v_Data v)) (AList.update key w fs))
   \<le> sum_list (map (\<lambda>(k, v). wval (v_Data v)) fs) + wval (v_Data w)"
  by (induction fs) auto

lemma wdoc_Set: "wdoc (doc_Set d key x) \<le> wdoc d + wval x"
  using wdoc_update[of key "NewValue x" "d_fields d"] wval_NewValue[of x] by (cases d) auto

lemma wdoc_foldl_Set:
  "wdoc (foldl (\<lambda>d p. doc_Set d (f p) (g p)) d ps) \<le> wdoc d + sum_list (map (\<lambda>p. wval (g p)) ps)"
proof (induction ps arbitrary: d)
  case (Cons p ps)
  have "wdoc (foldl (\<lambda>d p. doc_Set d (f p) (g p)) (doc_Set d (f p) (g p)) ps)
      \<le> wdoc (doc_Set d (f p) (g p)) + sum_list (map (\<lambda>p. wval (g p)) ps)" by (rule Cons.IH)
  also have "\<dots> \<le> wdoc d + wval (g p) + sum_list (map (\<lambda>p. wval (g p)) ps)"
    using wdoc_Set[of d "f p" "g p"] by simp
  finally show ?case by simp
qed simp

lemma wdoc_FromMap: "wdoc (NewDocumentFromMap m) < wval (GMap m)"
  using wdoc_foldl_Set[of fst snd NewDocument m]
  by (simp add: NewDocumentFromMap_def NewDocument_def case_prod_beta' wval_unfold)

lemma wdoc_lookup: "map_of fs k = Some v \<Longrightarrow> wval (v_Data v) \<le> wdoc (Document fs ord)"
  by (induction fs) (auto split: if_splits)

subsection \<open>Encoder\<close>

text \<open>An array is encoded as a document whose keys are the decimal indices.\<close>

definition arr_doc :: "gval list \<Rightarrow> document" where
  "arr_doc arr = foldl (\<lambda>d p. doc_Set d (itoa (fst p)) (snd p)) NewDocument (enumerate 0 arr)"

lemma sum_list_enumerate: "sum_list (map (\<lambda>p. f (snd p)) (enumerate n xs)) = sum_list (map f xs)"
  by (induction xs arbitrary: n) auto

lemma wdoc_arr: "wdoc (arr_doc arr) < wval (GArr arr)"
  using wdoc_foldl_Set[of "\<lambda>p. itoa (fst p)" snd NewDocument "enumerate 0 arr"]
  by (simp add: arr_doc_def NewDocument_def sum_list_enumerate wval_unfold)

text \<open>
  \<^verbatim>\<open>Encode\<close> reserves four bytes, writes the elements in key order and the terminator, and
  stores the total length in the reserved bytes.
\<close>

function (sequential) Encode :: "document \<Rightarrow> bson_error + bytes"
  and encode_fields :: "(string \<times> bvalue) list \<Rightarrow> string list \<Rightarrow> bson_error + bytes"
  and encodeElement :: "string \<Rightarrow> bvalue \<Rightarrow> bson_error + bytes"
  where
  "Encode (Document fs ord) =
     (case encode_fields fs ord of
        Inl e \<Rightarrow> Inl e
      | Inr elems \<Rightarrow> Inr (le_bytes 4 (of_nat (4 + length elems + 1) :: u32) @ elems @ [0x00]))"
| "encode_fields fs [] = Inr []"
| "encode_fields fs (key # keys) =
     (case map_of fs key of
        None \<Rightarrow> Inl EncPanic
      | Some v \<Rightarrow>
         (case encodeElement key v of
            Inl e \<Rightarrow> Inl e
          | Inr b \<Rightarrow>
             (case encode_fields fs keys of Inl e \<Rightarrow> Inl e | Inr bs \<Rightarrow> Inr (b @ bs))))"
| "encodeElement key (Value t x) =
     (let hdr = t # str_bytes key @ [0x00] in
      if t = TypeNull then Inr hdr
      else if t = TypeBoolean then
        (case x of GBool b \<Rightarrow> Inr (hdr @ [if b then 0x01 else 0x00]) | _ \<Rightarrow> Inl EncPanic)
      else if t = TypeInt32 then
        (case x of GInt32 i \<Rightarrow> Inr (hdr @ le_bytes 4 i) | _ \<Rightarrow> Inl EncPanic)
      else if t = TypeInt64 then
        (case x of GInt64 i \<Rightarrow> Inr (hdr @ le_bytes 8 i) | _ \<Rightarrow> Inl EncPanic)
      else if t = TypeFloat64 then
        (case x of GFloat64 f \<Rightarrow> Inr (hdr @ le_bytes 8 f) | _ \<Rightarrow> Inl EncPanic)
      else if t = TypeString then
        (case x of
           GString s \<Rightarrow> Inr (hdr @ le_bytes 4 (of_nat (length s + 1) :: u32) @ str_bytes s @ [0x00])
         | _ \<Rightarrow> Inl EncPanic)
      else if t = TypeBinary then
        (case x of
           GBytes b \<Rightarrow> Inr (hdr @ le_bytes 4 (of_nat (length b) :: u32) @ [0x00] @ b)
         | _ \<Rightarrow> Inl EncPanic)
      else if t = TypeObjectID then
        (case x of GObjectID i \<Rightarrow> Inr (hdr @ i) | _ \<Rightarrow> Inl EncPanic)
      else if t = TypeArray then
        (case x of
           GArr arr \<Rightarrow>
             (case Encode (arr_doc arr) of Inl e \<Rightarrow> Inl e | Inr b \<Rightarrow> Inr (hdr @ b))
         | _ \<Rightarrow> Inl EncPanic)
      else if t = TypeDocument then
        (case x of
           GDocPtr d \<Rightarrow> (case Encode d of Inl e \<Rightarrow> Inl e | Inr b \<Rightarrow> Inr (hdr @ b))
         | GMap m \<Rightarrow>
             (case Encode (NewDocumentFromMap m) of Inl e \<Rightarrow> Inl e | Inr b \<Rightarrow> Inr (hdr @ b))
         | _ \<Rightarrow> Inl EncInvalidDocument)
      else if t = TypeTimestamp then
        (case x of GInt64 i \<Rightarrow> Inr (hdr @ le_bytes 8 i) | _ \<Rightarrow> Inl EncPanic)
      else Inl (EncUnsupported t))"
  by pat_completeness auto
termination
  by (relation "measures
      [case_sum wdoc (case_sum (\<lambda>(fs, ks). wdoc (Document fs [])) (\<lambda>(k, v). wval (v_Data v))),
       case_sum (\<lambda>_. 2) (case_sum (\<lambda>(fs, ks). 1) (\<lambda>_. 0)),
       case_sum (\<lambda>_. 0) (case_sum (\<lambda>(fs, ks). length ks) (\<lambda>_. 0))]")
    (auto simp: wdoc_arr wdoc_FromMap wval_unfold(3) dest: wdoc_lookup[of _ _ _ "[]"])

subsection \<open>Decoder\<close>

text \<open>\<^verbatim>\<open>io.ReadFull\<close> and \<^verbatim>\<open>binary.Read\<close> on a byte reader: all \<open>n\<close> bytes or an error.\<close>

definition read_full :: "nat \<Rightarrow> bytes \<Rightarrow> (bytes \<times> bytes) option" where
  "read_full n bs = (if length bs < n then None else Some (take n bs, drop n bs))"

fun readCString :: "bytes \<Rightarrow> (string \<times> bytes) option" where
  "readCString [] = None"
| "readCString (b # bs) =
     (if b = 0x00 then Some ([], bs)
      else case readCString bs of None \<Rightarrow> None | Some (s, r) \<Rightarrow> Some (char_of_byte b # s, r))"

text \<open>
  One value: either decoded at once, or the bytes of a nested document or array, whose
  length is the little-endian integer at their start (zero when fewer than four bytes are left).
\<close>

datatype raw = RawVal gval | RawArr bytes | RawDoc bytes

definition nested_size :: "bytes \<Rightarrow> int" where
  "nested_size bs = (if length bs < 4 then 0 else sint (le_word (take 4 bs) :: u32))"

definition read_nested :: "(bytes \<Rightarrow> raw) \<Rightarrow> bytes \<Rightarrow> bson_error + raw \<times> bytes" where
  "read_nested mk bs =
     (if nested_size bs < 0 then Inl DecPanic
      else case read_full (nat (nested_size bs)) bs of
             None \<Rightarrow> Inl DecEOF | Some (sub, r) \<Rightarrow> Inr (mk sub, r))"

definition decodeValue :: "byte \<Rightarrow> bytes \<Rightarrow> bson_error + raw \<times> bytes" where
  "decodeValue t bs =
     (if t = TypeNull then Inr (RawVal GNil, bs)
      else if t = TypeBoolean then
        (case bs of [] \<Rightarrow> Inl DecEOF | b # r \<Rightarrow> Inr (RawVal (GBool (b \<noteq> 0x00)), r))
      else if t = TypeInt32 then
        (case read_full 4 bs of None \<Rightarrow> Inl DecEOF | Some (v, r) \<Rightarrow> Inr (RawVal (GInt32 (le_word v)), r))
      else if t = TypeInt64 then
        (case read_full 8 bs of None \<Rightarrow> Inl DecEOF | Some (v, r) \<Rightarrow> Inr (RawVal (GInt64 (le_word v)), r))
      else if t = TypeFloat64 then
        (case read_full 8 bs of None \<Rightarrow> Inl DecEOF | Some (v, r) \<Rightarrow> Inr (RawVal (GFloat64 (le_word v)), r))
      else if t = TypeString then
        (case read_full 4 bs of None \<Rightarrow> Inl DecEOF
         | Some (v, r) \<Rightarrow>
            (let n = sint (le_word v - 1 :: u32) in
             if n < 0 then Inl DecPanic
             else case read_full (nat n) r of None \<Rightarrow> Inl DecEOF
                  | Some (s, r') \<Rightarrow> Inr (RawVal (GString (bytes_str s)), drop 1 r')))
      else if t = TypeBinary then
        (case read_full 4 bs of None \<Rightarrow> Inl DecEOF
         | Some (v, r) \<Rightarrow>
            (let n = sint (le_word v :: u32) in
             if n < 0 then Inl DecPanic
             else case read_full (nat n) (drop 1 r) of None \<Rightarrow> Inl DecEOF
                  | Some (b, r') \<Rightarrow> Inr (RawVal (GBytes b), r')))
      else if t = TypeObjectID then
        (case read_full 12 bs of None \<Rightarrow> Inl DecEOF | Some (v, r) \<Rightarrow> Inr (RawVal (GObjectID v), r))
      else if t = TypeArray then read_nested RawArr bs
      else if t = TypeDocument then read_nested RawDoc bs
      else if t = TypeTimestamp then
        (case read_full 8 bs of None \<Rightarrow> Inl DecEOF | Some (v, r) \<Rightarrow> Inr (RawVal (GInt64 (le_word v)), r))
      else Inl (DecUnsupported t))"

text \<open>The elements of a decoded array document, by index; a missing index is nil.\<close>

definition doc_array :: "document \<Rightarrow> gval list" where
  "doc_array d = map (\<lambda>i. fst (doc_Get d (itoa i))) [0..<doc_Len d]"

lemma readCString_length: "readCString bs = Some (s, r) \<Longrightarrow> length r < length bs"
  by (induction bs arbitrary: s r) (auto split: if_splits option.splits)

lemma read_full_length: "read_full n bs = Some (a, r) \<Longrightarrow> length a \<le> length bs \<and> length r \<le> length bs"
  by (auto simp: read_full_def split: if_splits)

lemma decodeValue_length:
  assumes "decodeValue t bs = Inr (raw, r)"
  shows "length r \<le> length bs"
    and "raw = RawArr sub \<Longrightarrow> length sub \<le> length bs"
    and "raw = RawDoc sub \<Longrightarrow> length sub \<le> length bs"
  using assms
  by (auto simp: decodeValue_def read_nested_def read_full_def Let_def
      split: if_splits list.splits option.splits)

function (sequential) Decode :: "bytes \<Rightarrow> bson_error + document"
  and decode_elements :: "document \<Rightarrow> bytes \<Rightarrow> bson_error + document"
  where
  "Decode bs =
     (case read_full 4 bs of None \<Rightarrow> Inl DecEOF | Some (sz, r) \<Rightarrow> decode_elements NewDocument r)"
| "decode_elements doc [] = Inl DecEOF"
| "decode_elements doc (t # bs) =
     (if t = 0x00 then Inr doc
      else case readCString bs of
        None \<Rightarrow> Inl DecEOF
      | Some (key, r) \<Rightarrow>
         (case decodeValue t r of
            Inl e \<Rightarrow> Inl e
          | Inr (RawVal v, r') \<Rightarrow> decode_elements (doc_Set doc key v) r'
          | Inr (RawArr sub, r') \<Rightarrow>
             (case Decode sub of Inl e \<Rightarrow> Inl e
              | Inr d \<Rightarrow> decode_elements (doc_Set doc key (GArr (doc_array d))) r')
          | Inr (RawDoc sub, r') \<Rightarrow>
             (case Decode sub of Inl e \<Rightarrow> Inl e
              | Inr d \<Rightarrow> decode_elements (doc_Set doc key (GDocPtr d)) r')))"
  by pat_completeness auto
termination
  by (relation "measure (case_sum length (\<lambda>(d, bs). length bs))")
    (auto simp: read_full_def split: if_splits
      dest!: readCString_length dest: decodeValue_length)


subsection \<open>Documents that survive the encoding\<close>

text \<open>
  \<open>bdoc_ok\<close>: a well-formed document whose keys have no NUL byte and whose values are those the
  decoder produces: no \<^verbatim>\<open>time.Time\<close>, no plain Go map, no \<^verbatim>\<open>int\<close> inside an array, and identifiers
  of 12 bytes.
\<close>

definition nul_free :: "string \<Rightarrow> bool" where
  "nul_free k = (\<forall>c \<in> set k. byte_of_char c \<noteq> 0)"

function bdoc_ok :: "document \<Rightarrow> bool" and bval_ok :: "gval \<Rightarrow> bool" where
  "bdoc_ok (Document fs ord) =
     (map_keys fs = ord \<and> distinct ord \<and> list_all nul_free ord \<and>
      list_all (\<lambda>(k, v). v = NewValue (v_Data v) \<and> bval_ok (v_Data v)) fs)"
| "bval_ok x =
     (case x of
        GNil \<Rightarrow> True | GBool b \<Rightarrow> True | GInt32 i \<Rightarrow> True | GInt64 i \<Rightarrow> True | GFloat64 f \<Rightarrow> True
      | GString str \<Rightarrow> True | GBytes b \<Rightarrow> True | GObjectID i \<Rightarrow> length i = 12
      | GArr xs \<Rightarrow> list_all bval_ok xs
      | GDocPtr d \<Rightarrow> bdoc_ok d
      | _ \<Rightarrow> False)"
  by pat_completeness auto
termination
proof (relation "measure (case_sum size size)", goal_cases)
  case (2 fs ord x k v)
  then have "size v < size (Document fs ord)" by (metis size_field_less)
  then show ?case using size_v_Data[of v] by simp
qed (auto dest: size_item_less)

declare bval_ok.simps [simp del]

lemmas bval_ok_unfold = bval_ok.simps[of "GArr x" for x] bval_ok.simps[of "GDocPtr x" for x]
  bval_ok.simps[of "GObjectID x" for x]

lemma bval_ok_data: "bval_ok x \<Longrightarrow> v_Data (NewValue x) = x"
  by (cases x) (auto simp: bval_ok.simps)

lemma arr_fields:
  "foldl (\<lambda>d p. doc_Set d (itoa (fst p)) (snd p)) (Document fs (map_keys fs)) (enumerate n xs)
   = Document (fs @ map (\<lambda>(i, x). (itoa i, NewValue x)) (enumerate n xs))
       (map_keys fs @ map (\<lambda>(i, x). itoa i) (enumerate n xs))"
  if "\<forall>i \<ge> n. itoa i \<notin> set (map_keys fs)"
  using that
proof (induction xs arbitrary: n fs)
  case (Cons x xs)
  have "doc_Set (Document fs (map_keys fs)) (itoa n) x
      = Document (fs @ [(itoa n, NewValue x)]) (map_keys (fs @ [(itoa n, NewValue x)]))"
    using Cons.prems doc_Set_append[of "itoa n" fs x] by simp
  then show ?case using Cons.prems Cons.IH[of "Suc n" "fs @ [(itoa n, NewValue x)]"]
    by (simp del: doc_Set.simps)
qed simp

lemma arr_doc_eq:
  "arr_doc xs = Document (map (\<lambda>(i, x). (itoa i, NewValue x)) (enumerate 0 xs))
     (map (\<lambda>i. itoa i) [0..<length xs])"
  using arr_fields[of 0 "[]" xs]
  by (simp add: arr_doc_def NewDocument_def enumerate_eq_zip case_prod_beta')
    (simp add: map_zip_map zip_map1 flip: map_map[unfolded o_def] )

lemma nul_free_itoa: "nul_free (itoa n)"
  by (auto simp: nul_free_def dest!: itoa_digits digit_char_nonzero)

lemma arr_doc_get: "i < length xs \<Longrightarrow> doc_Get (arr_doc xs) (itoa i) = (v_Data (NewValue (xs ! i)), True)"
proof -
  assume i: "i < length xs"
  let ?m = "map (\<lambda>(i, x). (itoa i, NewValue x)) (enumerate 0 xs)"
  have "distinct (map fst ?m)"
    by (simp add: o_def case_prod_beta' distinct_map inj_on_def flip: map_map) 
      (auto simp: distinct_map inj_on_def in_set_enumerate_eq)
  moreover have "(itoa i, NewValue (xs ! i)) \<in> set ?m"
    using i by (force simp: in_set_enumerate_eq)
  ultimately have "map_of ?m (itoa i) = Some (NewValue (xs ! i))" by (rule map_of_is_SomeI)
  then show ?thesis by (simp add: arr_doc_eq doc_Get_def)
qed


lemma arr_doc_len: "doc_Len (arr_doc xs) = length xs"
  by (simp add: arr_doc_eq doc_Len_def)

lemma doc_array_arr_doc: "list_all bval_ok xs \<Longrightarrow> doc_array (arr_doc xs) = xs"
  by (rule nth_equalityI)
    (auto simp: doc_array_def arr_doc_len arr_doc_get list_all_iff bval_ok_data)

lemma bdoc_ok_arr_doc:
  assumes "list_all bval_ok xs"
  shows "bdoc_ok (arr_doc xs)"
proof -
  have "map_keys (map (\<lambda>(i, x). (itoa i, NewValue x)) (enumerate 0 xs)) = map itoa [0..<length xs]"
    by (rule nth_equalityI) (auto simp: nth_enumerate_eq)
  then show ?thesis
    using assms unfolding arr_doc_eq
    by (auto simp: list_all_iff distinct_map inj_on_def nul_free_itoa in_set_enumerate_eq
        bval_ok_data)
qed

lemma encodeElement_cases:
  "encodeElement k (NewValue GNil) = Inr (TypeNull # str_bytes k @ [0])"
  "encodeElement k (NewValue (GBool b)) = Inr (TypeBoolean # str_bytes k @ [0] @ [if b then 1 else 0])"
  "encodeElement k (NewValue (GInt32 i)) = Inr (TypeInt32 # str_bytes k @ [0] @ le_bytes 4 i)"
  "encodeElement k (NewValue (GInt64 j)) = Inr (TypeInt64 # str_bytes k @ [0] @ le_bytes 8 j)"
  "encodeElement k (NewValue (GFloat64 j)) = Inr (TypeFloat64 # str_bytes k @ [0] @ le_bytes 8 j)"
  "encodeElement k (NewValue (GString w)) = Inr (TypeString # str_bytes k @ [0] @
     le_bytes 4 (of_nat (length w + 1) :: u32) @ str_bytes w @ [0])"
  "encodeElement k (NewValue (GBytes u)) = Inr (TypeBinary # str_bytes k @ [0] @
     le_bytes 4 (of_nat (length u) :: u32) @ [0] @ u)"
  "encodeElement k (NewValue (GObjectID u)) = Inr (TypeObjectID # str_bytes k @ [0] @ u)"
  "encodeElement k (NewValue (GArr xs)) =
     (case Encode (arr_doc xs) of Inl e \<Rightarrow> Inl e | Inr u \<Rightarrow> Inr (TypeArray # str_bytes k @ [0] @ u))"
  "encodeElement k (NewValue (GDocPtr d)) =
     (case Encode d of Inl e \<Rightarrow> Inl e | Inr u \<Rightarrow> Inr (TypeDocument # str_bytes k @ [0] @ u))"
  "encodeElement k (NewValue (GTime tm)) = Inl EncPanic"
  by (simp_all add: Let_def split: sum.split)

declare encodeElement.simps [simp del]

text \<open>The encoder never fails on such a document.\<close>

lemma Encode_total_aux:
  shows "bdoc_ok d \<Longrightarrow> \<exists>bs. Encode d = Inr bs"
    and "set ks \<subseteq> fst ` set fs \<Longrightarrow>
      list_all (\<lambda>(k, v). v = NewValue (v_Data v) \<and> bval_ok (v_Data v)) fs \<Longrightarrow>
      \<exists>bs. encode_fields fs ks = Inr bs"
    and "v = NewValue (v_Data v) \<Longrightarrow> bval_ok (v_Data v) \<Longrightarrow> \<exists>bs. encodeElement k v = Inr bs"
proof (induction d and fs ks and k v rule: Encode_encode_fields_encodeElement.induct)
  case (1 fs ord)
  then obtain bs where "encode_fields fs ord = Inr bs" by auto
  then show ?case by simp
next
  case (2 fs)
  then show ?case by simp
next
  case (3 fs key keys)
  from "3.prems"(1) obtain v where lk: "map_of fs key = Some v"
    by (cases "map_of fs key") (auto simp: map_of_eq_None_iff)
  then have "(key, v) \<in> set fs" by (rule map_of_SomeD)
  with "3.prems"(2) have "v = NewValue (v_Data v)" "bval_ok (v_Data v)"
    by (auto simp: list_all_iff)
  from "3.IH"(1)[OF lk this] obtain b where b: "encodeElement key v = Inr b" by auto
  from "3.IH"(2)[OF lk b] "3.prems" obtain bs where "encode_fields fs keys = Inr bs" by auto
  with lk b show ?case by simp
next
  case (4 key t x)
  from "4.prems"(1) have nv: "Value t x = NewValue x" by (simp only: bvalue.sel)
  from "4.prems"(2) have ok: "bval_ok x" by (simp only: bvalue.sel)
  show ?case
  proof (cases x)
    case (GArr xs)
    with nv ok have "t = TypeArray" "bdoc_ok (arr_doc xs)"
      by (auto simp: bval_ok_unfold bdoc_ok_arr_doc)
    with "4.IH"(1) GArr obtain bs where "Encode (arr_doc xs) = Inr bs" by auto
    with GArr nv show ?thesis by (simp only: encodeElement_cases sum.case) simp
  next
    case (GDocPtr d)
    with nv ok have "t = TypeDocument" "bdoc_ok d" by (auto simp: bval_ok_unfold)
    with "4.IH"(3) GDocPtr obtain bs where "Encode d = Inr bs" by auto
    with GDocPtr nv show ?thesis by (simp only: encodeElement_cases sum.case) simp
  qed (use nv ok in \<open>simp_all only: encodeElement_cases, auto simp: bval_ok.simps\<close>)
qed

text \<open>Reading back what was written.\<close>

lemma readCString_str: "nul_free k \<Longrightarrow> readCString (str_bytes k @ 0 # r) = Some (k, r)"
  by (induction k) (auto simp: nul_free_def str_bytes_def)

lemma read_full_append: "length a = n \<Longrightarrow> read_full n (a @ r) = Some (a, r)"
  by (simp add: read_full_def)

lemma sint_u32: "n < 2 ^ 31 \<Longrightarrow> sint (of_nat n :: u32) = int n"
  by (simp add: signed_of_nat signed_take_bit_int_eq_self)

lemma Encode_shape:
  "Encode d = Inr bs \<Longrightarrow> \<exists>el. bs = le_bytes 4 (of_nat (length bs) :: u32) @ el @ [0] \<and> length bs = 5 + length el"
  by (cases d) (auto split: sum.splits)

lemma read_nested_doc:
  assumes "Encode d = Inr bs" "length bs < 2 ^ 31"
  shows "read_nested mk (bs @ r) = Inr (mk bs, r)"
proof -
  from Encode_shape[OF assms(1)] obtain el
    where bs: "bs = le_bytes 4 (of_nat (length bs) :: u32) @ el @ [0]" and l: "length bs = 5 + length el"
    by auto
  have "take 4 (bs @ r) = le_bytes 4 (of_nat (length bs) :: u32)"
    by (subst bs) simp
  moreover have "\<not> length (bs @ r) < 4" using l by simp
  ultimately have "nested_size (bs @ r) = int (length bs)"
    using sint_u32[OF assms(2)] by (simp only: nested_size_def if_False le_word_u32)
  then show ?thesis by (simp add: read_nested_def read_full_append)
qed


lemma decodeValue_scalars:
  "decodeValue TypeNull r = Inr (RawVal GNil, r)"
  "decodeValue TypeBoolean ((if b then 1 else 0) # r) = Inr (RawVal (GBool b), r)"
  "decodeValue TypeInt32 (le_bytes 4 i @ r) = Inr (RawVal (GInt32 i), r)"
  "decodeValue TypeInt64 (le_bytes 8 j @ r) = Inr (RawVal (GInt64 j), r)"
  "decodeValue TypeFloat64 (le_bytes 8 j @ r) = Inr (RawVal (GFloat64 j), r)"
  "length u = 12 \<Longrightarrow> decodeValue TypeObjectID (u @ r) = Inr (RawVal (GObjectID u), r)"
  by (simp_all add: decodeValue_def read_full_append)

lemma decodeValue_string:
  "length w + 1 < 2 ^ 31 \<Longrightarrow>
   decodeValue TypeString (le_bytes 4 (of_nat (length w + 1) :: u32) @ str_bytes w @ 0 # r)
   = Inr (RawVal (GString w), r)"
  using sint_u32[of "length w"] by (simp add: decodeValue_def read_full_append Let_def)

lemma decodeValue_binary:
  "length u < 2 ^ 31 \<Longrightarrow>
   decodeValue TypeBinary (le_bytes 4 (of_nat (length u) :: u32) @ 0 # u @ r)
   = Inr (RawVal (GBytes u), r)"
  using sint_u32[of "length u"] by (simp add: decodeValue_def read_full_append Let_def)

lemma decodeValue_nested:
  assumes "Encode d = Inr bs" "length bs < 2 ^ 31"
  shows "decodeValue TypeArray (bs @ r) = Inr (RawArr bs, r)"
    and "decodeValue TypeDocument (bs @ r) = Inr (RawDoc bs, r)"
  by (simp_all add: decodeValue_def read_nested_doc[OF assms])

lemma decode_scalar_element:
  assumes "encodeElement k (NewValue x) = Inr bs" "length bs < 2 ^ 31" "nul_free k" "bval_ok x"
    and "\<And>xs. x \<noteq> GArr xs" "\<And>d. x \<noteq> GDocPtr d"
  shows "decode_elements doc (bs @ rest) = decode_elements (doc_Set doc k x) rest"
proof (cases x)
  case GNil
  with assms show ?thesis
    by (auto simp only: encodeElement_cases) (simp add: readCString_str decodeValue_scalars)
next
  case (GBool b)
  with assms show ?thesis
    by (auto simp only: encodeElement_cases) (simp add: readCString_str decodeValue_scalars)
next
  case (GInt32 i)
  with assms show ?thesis
    by (auto simp only: encodeElement_cases) (simp add: readCString_str decodeValue_scalars)
next
  case (GInt64 i)
  with assms show ?thesis
    by (auto simp only: encodeElement_cases) (simp add: readCString_str decodeValue_scalars)
next
  case (GFloat64 i)
  with assms show ?thesis
    by (auto simp only: encodeElement_cases) (simp add: readCString_str decodeValue_scalars)
next
  case (GObjectID i)
  with assms show ?thesis
    by (auto simp only: encodeElement_cases bval_ok_unfold gval.case)
      (simp add: readCString_str decodeValue_scalars)
next
  case (GString w)
  with assms have bs: "bs = TypeString # str_bytes k @ [0] @
      (le_bytes 4 (of_nat (length w + 1) :: u32) @ str_bytes w @ [0])" and "length w + 1 < 2 ^ 31"
    by (auto simp only: encodeElement_cases) auto
  with decodeValue_string[of w rest] show ?thesis
    using GString assms(3) by (simp add: readCString_str)
next
  case (GBytes u)
  with assms have bs: "bs = TypeBinary # str_bytes k @ [0] @
      (le_bytes 4 (of_nat (length u) :: u32) @ [0] @ u)" and "length u < 2 ^ 31"
    by (auto simp only: encodeElement_cases) auto
  with decodeValue_binary[of u rest] show ?thesis
    using GBytes assms(3) by (simp add: readCString_str)
qed (use assms in \<open>auto simp: bval_ok.simps\<close>)


lemma decode_nested_element:
  assumes "nul_free k" "Encode d = Inr bs" "length bs < 2 ^ 31" "Decode bs = Inr d"
  shows "decode_elements doc (TypeArray # str_bytes k @ [0] @ bs @ rest)
      = decode_elements (doc_Set doc k (GArr (doc_array d))) rest"
    and "decode_elements doc (TypeDocument # str_bytes k @ [0] @ bs @ rest)
      = decode_elements (doc_Set doc k (GDocPtr d)) rest"
  using assms by (simp_all add: readCString_str decodeValue_nested del: Decode.simps)

lemma decode_encode_aux:
  shows "bdoc_ok d \<Longrightarrow> Encode d = Inr bs \<Longrightarrow> length bs < 2 ^ 31 \<Longrightarrow> Decode (bs @ junk) = Inr d"
    and "encode_fields fs ks = Inr bs \<Longrightarrow> length bs < 2 ^ 31 \<Longrightarrow> fs = pre @ suf \<Longrightarrow>
      ks = map_keys suf \<Longrightarrow> distinct (map_keys fs) \<Longrightarrow> list_all nul_free (map_keys fs) \<Longrightarrow>
      list_all (\<lambda>(k, v). v = NewValue (v_Data v) \<and> bval_ok (v_Data v)) fs \<Longrightarrow>
      decode_elements (Document pre (map_keys pre)) (bs @ 0 # junk) = Inr (Document fs (map_keys fs))"
    and "encodeElement k v = Inr bs \<Longrightarrow> length bs < 2 ^ 31 \<Longrightarrow> nul_free k \<Longrightarrow>
      v = NewValue (v_Data v) \<Longrightarrow> bval_ok (v_Data v) \<Longrightarrow>
      decode_elements doc (bs @ rest) = decode_elements (doc_Set doc k (v_Data v)) rest"
proof (induction d and fs ks and k v arbitrary: bs junk and bs junk pre suf and bs doc rest
    rule: Encode_encode_fields_encodeElement.induct)
  case (1 fs ord)
  from "1.prems"(2) obtain el where el: "encode_fields fs ord = Inr el"
    and bs: "bs = le_bytes 4 (of_nat (4 + length el + 1) :: u32) @ el @ [0]"
    by (auto split: sum.splits)
  have "decode_elements (Document [] (map_keys ([] :: (string \<times> bvalue) list))) (el @ 0 # junk)
      = Inr (Document fs (map_keys fs))"
    by (rule "1.IH"[where suf = fs, OF el]) (use "1.prems" bs in auto)
  with "1.prems"(1) bs show ?case
    by (simp add: read_full_append NewDocument_def del: decode_elements.simps)
next
  case (2 fs)
  then show ?case by simp
next
  case (3 fs key keys)
  from "3.prems"(3,4) obtain v suf' where suf: "suf = (key, v) # suf'" "keys = map_keys suf'"
    by (cases suf) auto
  with "3.prems"(3,5) have lk: "map_of fs key = Some v"
    by (auto simp: map_of_eq_None_iff[THEN iffD2] map_add_def)
  from "3.prems"(1) lk obtain b r where b: "encodeElement key v = Inr b"
    and r: "encode_fields fs keys = Inr r" and bs: "bs = b @ r"
    by (auto split: sum.splits)
  have v: "v = NewValue (v_Data v)" "bval_ok (v_Data v)" "nul_free key" "key \<notin> set (map_keys pre)"
    using "3.prems"(3,5,6,7) suf by auto
  have "decode_elements (Document pre (map_keys pre)) (b @ r @ 0 # junk)
      = decode_elements (doc_Set (Document pre (map_keys pre)) key (v_Data v)) (r @ 0 # junk)"
    using "3.IH"(1)[OF lk b _ v(3,1,2)] "3.prems"(2) bs by simp
  also have "doc_Set (Document pre (map_keys pre)) key (v_Data v)
      = Document (pre @ [(key, v)]) (map_keys (pre @ [(key, v)]))"
    using doc_Set_append[OF v(4), of "v_Data v"] v(1) by simp
  also have "decode_elements \<dots> (r @ 0 # junk) = Inr (Document fs (map_keys fs))"
    using "3.prems" suf bs
    by (intro "3.IH"(2)[OF lk b r, of "pre @ [(key, v)]" suf']) auto
  finally show ?case using bs by simp
next
  case (4 key t x)
  from "4.prems"(4) have nv: "Value t x = NewValue x" by (simp only: bvalue.sel)
  from "4.prems"(5) have ok: "bval_ok x" by (simp only: bvalue.sel)
  from "4.prems"(1) nv have enc: "encodeElement key (NewValue x) = Inr bs" by simp
  show ?case
  proof (cases x)
    case (GArr xs)
    with nv ok have t: "t = TypeArray" and xs: "list_all bval_ok xs" by (auto simp: bval_ok_unfold)
    from enc GArr obtain u where u: "Encode (arr_doc xs) = Inr u"
      and bs: "bs = TypeArray # str_bytes key @ [0] @ u"
      by (auto simp only: encodeElement_cases split: sum.splits)
    have "length u < 2 ^ 31" using "4.prems"(2) bs by simp
    moreover from "4.IH"(1)[OF refl _ _ _ _ _ _ _ _ t GArr bdoc_ok_arr_doc[OF xs] u this, of "[]"] t
    have "Decode u = Inr (arr_doc xs)" by simp
    ultimately show ?thesis
      using decode_nested_element(1)[OF "4.prems"(3) u] bs GArr doc_array_arr_doc[OF xs] by simp
  next
    case (GDocPtr d)
    with nv ok have t: "t = TypeDocument" and d: "bdoc_ok d" by (auto simp: bval_ok_unfold)
    from enc GDocPtr obtain u where u: "Encode d = Inr u"
      and bs: "bs = TypeDocument # str_bytes key @ [0] @ u"
      by (auto simp only: encodeElement_cases split: sum.splits)
    have "length u < 2 ^ 31" using "4.prems"(2) bs by simp
    moreover from "4.IH"(3)[OF refl _ _ _ _ _ _ _ _ _ t GDocPtr d u this, of "[]"] t
    have "Decode u = Inr d" by simp
    ultimately show ?thesis
      using decode_nested_element(2)[OF "4.prems"(3) u] bs GDocPtr by simp
  qed (use decode_scalar_element[OF enc "4.prems"(2,3) ok] in \<open>auto simp del: decode_elements.simps\<close>)
qed


text \<open>
  C16. BSON round trip. Every storable document encodes without an error, and, as long as the
  encoding stays below the 2 GiB that its 32-bit length fields can express, decoding the
  bytes gives back exactly the document: field order, nested documents, arrays and every
  scalar bit for bit. Bytes after the document's terminator are ignored.
\<close>

theorem bson_roundtrip:
  assumes "bdoc_ok d"
  shows "\<exists>bs. Encode d = Inr bs \<and> (length bs < 2 ^ 31 \<longrightarrow> Decode (bs @ junk) = Inr d)"
  using Encode_total_aux(1)[OF assms] decode_encode_aux(1)[OF assms] by blast

definition sample_doc :: document where
  "sample_doc = doc_Set (doc_Set (doc_Set NewDocument ''n'' (GInt32 7))
     ''tags'' (GArr [GString ''x'', GBool True])) ''sub'' (GDocPtr (doc_Set NewDocument ''f'' GNil))"

theorem bson_roundtrip_witness:
  "\<exists>bs. Encode sample_doc = Inr bs \<and> (length bs < 2 ^ 31 \<longrightarrow> Decode (bs @ [7]) = Inr sample_doc)"
proof (rule bson_roundtrip)
  show "bdoc_ok sample_doc"
    by (simp add: sample_doc_def NewDocument_def bval_ok.simps nul_free_def byte_of_char_def)
qed

text \<open>
  C33. A document with a \<^verbatim>\<open>time.Time\<close> field cannot be encoded: \<^verbatim>\<open>NewValue\<close> tags the field as a
  timestamp and keeps the \<^verbatim>\<open>time.Time\<close>, while the encoder asserts an \<^verbatim>\<open>int64\<close> for that tag, so
  \<^verbatim>\<open>Encode\<close> panics on the field, wherever it stands after fields that do encode.
\<close>

theorem bson_time_field_panics:
  assumes "bdoc_ok d" and "\<not> doc_Has d k"
  shows "Encode (doc_Set d k (GTime tm)) = Inl EncPanic"
proof (cases d)
  case (Document fs ord)
  with assms have k: "k \<notin> set (map_keys fs)" and ord: "ord = map_keys fs"
    by (auto simp: doc_Has_def map_of_eq_None_iff)
  have *: "encode_fields (fs @ [(k, NewValue (GTime tm))]) (ks @ [k]) = Inl EncPanic"
    if "set ks \<subseteq> set ord" for ks
    using that
  proof (induction ks)
    case Nil
    show ?case using k
      by (simp add: map_add_def map_of_eq_None_iff[THEN iffD2] encodeElement_cases(11)[simplified])
  next
    case (Cons j ks)
    then obtain v where lk: "map_of fs j = Some v"
      using ord by (cases "map_of fs j") (auto simp: map_of_eq_None_iff)
    then have "(j, v) \<in> set fs" by (rule map_of_SomeD)
    with assms(1) Document have "v = NewValue (v_Data v)" "bval_ok (v_Data v)"
      by (auto simp: list_all_iff)
    from Encode_total_aux(3)[OF this, of j] obtain b where "encodeElement j v = Inr b" by auto
    with Cons lk show ?case by (simp add: map_add_def)
  qed
  from *[of ord] show ?thesis
    using Document ord k doc_Set_append[OF k, of "GTime tm"] by simp
qed

theorem bson_time_field_panics_witness:
  "Encode (doc_Set (doc_Set NewDocument ''a'' (GBool True)) ''when'' (GTime 1700000000)) = Inl EncPanic"
proof (rule bson_time_field_panics)
  show "bdoc_ok (doc_Set NewDocument ''a'' (GBool True))"
    by (simp add: NewDocument_def bval_ok.simps nul_free_def byte_of_char_def)
  show "\<not> doc_Has (doc_Set NewDocument ''a'' (GBool True)) ''when''"
    by (simp add: NewDocument_def doc_Has_def)
qed

end
