(* ===== verification/VersionStore.thy ===== *)
theory VersionStore
  imports Document
begin

text \<open>
  \<^verbatim>\<open>pkg/mvcc/version_store.go\<close>: the version store. A chain, linked from the most recent
  version on, is the list of its versions, head first; the store maps a key to its chain.
  The locale \<open>version_store\<close> is what the transaction manager relies on: the visible version
  and the latest version after a \<^verbatim>\<open>Put\<close>.
\<close>

subsection \<open>Versions and the store's operations\<close>

record VersionedValue =
  vv_Value :: gval
  vv_Version :: u64
  vv_CreatedBy :: u64
  vv_DeletedBy :: u64
  vv_CommitTime :: int

type_synonym version_chain = "VersionedValue list"
type_synonym version_store = "(string \<times> version_chain) list"

definition NewVersionStore :: version_store where
  "NewVersionStore = []"

definition vs_Put :: "string \<Rightarrow> VersionedValue \<Rightarrow> version_store \<Rightarrow> version_store" where
  "vs_Put key v vs =
     (let chain = (case map_of vs key of None \<Rightarrow> [] | Some c \<Rightarrow> c)
      in AList.update key (v # chain) vs)"

text \<open>\<^verbatim>\<open>GetVersion\<close>: \<^term>\<open>None\<close> is the result \<^verbatim>\<open>(nil, false, nil)\<close>; the error is always nil.\<close>

fun visible_version :: "version_chain \<Rightarrow> u64 \<Rightarrow> gval option" where
  "visible_version [] snap = None"
| "visible_version (v # rest) snap =
     (if vv_Version v \<le> snap
      then (if vv_DeletedBy v \<noteq> 0 then None else Some (vv_Value v))
      else visible_version rest snap)"

definition GetVersion :: "version_store \<Rightarrow> string \<Rightarrow> u64 \<Rightarrow> gval option" where
  "GetVersion vs key snap =
     (case map_of vs key of None \<Rightarrow> None | Some chain \<Rightarrow> visible_version chain snap)"

definition GetLatest :: "version_store \<Rightarrow> string \<Rightarrow> gval option" where
  "GetLatest vs key =
     (case map_of vs key of
        None \<Rightarrow> None
      | Some [] \<Rightarrow> None
      | Some (v # _) \<Rightarrow> if vv_DeletedBy v \<noteq> 0 then None else Some (vv_Value v))"

definition GetLatestVersion :: "version_store \<Rightarrow> string \<Rightarrow> u64" where
  "GetLatestVersion vs key =
     (case map_of vs key of None \<Rightarrow> 0 | Some [] \<Rightarrow> 0 | Some (v # _) \<Rightarrow> vv_Version v)"

definition GetAllKeys :: "version_store \<Rightarrow> string list" where
  "GetAllKeys vs = map_keys vs"

definition GetVersionCount :: "version_store \<Rightarrow> string \<Rightarrow> nat" where
  "GetVersionCount vs key = (case map_of vs key of None \<Rightarrow> 0 | Some chain \<Rightarrow> length chain)"

text \<open>
  Garbage collection: the loop unlinks, behind the head, every version below the bound. A
  chain of fewer than two versions is left as it is.
\<close>

fun gc_loop :: "u64 \<Rightarrow> version_chain \<Rightarrow> version_chain" where
  "gc_loop minv [] = []"
| "gc_loop minv (current # rest) =
     (if vv_Version current < minv then gc_loop minv rest else current # gc_loop minv rest)"

fun gc_chain :: "u64 \<Rightarrow> version_chain \<Rightarrow> version_chain" where
  "gc_chain minv [] = []"
| "gc_chain minv [v] = [v]"
| "gc_chain minv (head # rest) = head # gc_loop minv rest"

definition GarbageCollect :: "u64 \<Rightarrow> version_store \<Rightarrow> version_store" where
  "GarbageCollect minv vs =
     concat (map (\<lambda>(key, chain).
       if length chain < 2 then [(key, chain)]
       else if gc_chain minv chain = [] then []
       else [(key, gc_chain minv chain)]) vs)"

subsection \<open>Interface of the store\<close>

locale version_store =
  fixes put :: "string \<Rightarrow> VersionedValue \<Rightarrow> 's \<Rightarrow> 's"
    and get :: "'s \<Rightarrow> string \<Rightarrow> u64 \<Rightarrow> gval option"
    and latest_version :: "'s \<Rightarrow> string \<Rightarrow> u64"
  assumes latest_put: "latest_version (put k v s) j = (if j = k then vv_Version v else latest_version s j)"
    and get_put: "get (put k v s) j snap =
      (if j = k \<and> vv_Version v \<le> snap
       then (if vv_DeletedBy v \<noteq> 0 then None else Some (vv_Value v)) else get s j snap)"
begin

text \<open>Storing a whole write set, in whatever order its keys come.\<close>

lemma latest_fold_put:
  "distinct (map fst ws) \<Longrightarrow>
   latest_version (fold (\<lambda>(k, v). put k v) ws s) j =
     (case map_of ws j of None \<Rightarrow> latest_version s j | Some v \<Rightarrow> vv_Version v)"
  by (induction ws arbitrary: s)
    (auto simp: latest_put map_of_eq_None_iff[THEN iffD2] split: option.splits dest: map_of_SomeD)

lemma get_fold_put:
  "distinct (map fst ws) \<Longrightarrow>
   get (fold (\<lambda>(k, v). put k v) ws s) j snap =
     (case map_of ws j of
        Some v \<Rightarrow> if vv_Version v \<le> snap
                  then (if vv_DeletedBy v \<noteq> 0 then None else Some (vv_Value v)) else get s j snap
      | None \<Rightarrow> get s j snap)"
  by (induction ws arbitrary: s)
    (auto simp: get_put map_of_eq_None_iff[THEN iffD2] split: option.splits)

lemma get_fold_put_old:
  assumes "distinct (map fst ws)" and "\<forall>(k, v) \<in> set ws. snap < vv_Version v"
  shows "get (fold (\<lambda>(k, v). put k v) ws s) j snap = get s j snap"
proof (cases "map_of ws j")
  case (Some v)
  then have "(j, v) \<in> set ws" by (rule map_of_SomeD)
  with assms(2) have "\<not> vv_Version v \<le> snap" by (auto simp: not_le)
  with Some assms(1) show ?thesis by (simp add: get_fold_put)
qed (simp add: get_fold_put[OF assms(1)])

end

interpretation mvs: version_store vs_Put GetVersion GetLatestVersion
  by unfold_locales
    (auto simp: vs_Put_def GetVersion_def GetLatestVersion_def Let_def split: option.splits)

subsection \<open>The store's invariant and garbage collection\<close>

text \<open>
  \<open>store_ok\<close>: every key occurs once, no chain is empty, and the versions of a chain are
  strictly decreasing and at most \<open>maxv\<close>.
\<close>

definition chain_ok :: "u64 \<Rightarrow> version_chain \<Rightarrow> bool" where
  "chain_ok maxv c \<longleftrightarrow> c \<noteq> [] \<and> sorted_wrt (\<lambda>a b. vv_Version b < vv_Version a) c \<and>
     (\<forall>v \<in> set c. vv_Version v \<le> maxv)"

definition store_ok :: "u64 \<Rightarrow> version_store \<Rightarrow> bool" where
  "store_ok maxv vs \<longleftrightarrow> wf_map vs \<and> list_all (\<lambda>(k, c). chain_ok maxv c) vs"

lemma store_ok_New [simp]: "store_ok maxv NewVersionStore"
  by (simp add: store_ok_def NewVersionStore_def)

lemma store_ok_chain: "store_ok maxv vs \<Longrightarrow> map_of vs k = Some c \<Longrightarrow> chain_ok maxv c"
  by (auto simp: store_ok_def list_all_iff dest: map_of_SomeD)

lemma store_ok_mono: "store_ok m vs \<Longrightarrow> m \<le> m' \<Longrightarrow> store_ok m' vs"
  unfolding store_ok_def chain_ok_def list_all_iff by fastforce

lemma store_ok_iff:
  assumes "wf_map vs"
  shows "store_ok maxv vs \<longleftrightarrow> (\<forall>k c. map_of vs k = Some c \<longrightarrow> chain_ok maxv c)"
  using assms by (auto simp: store_ok_def list_all_iff map_of_wf_mem)

lemma store_ok_Put:
  assumes "store_ok m vs" "GetLatestVersion vs k < vv_Version v" "vv_Version v \<le> m"
  shows "store_ok m (vs_Put k v vs)"
proof -
  have "chain_ok m (v # (case map_of vs k of None \<Rightarrow> [] | Some c \<Rightarrow> c))"
  proof (cases "map_of vs k")
    case (Some c)
    from store_ok_chain[OF assms(1) Some] obtain h t where c: "c = h # t" and ok: "chain_ok m c"
      by (cases c) (auto simp: chain_ok_def)
    with assms(2) Some have "vv_Version h < vv_Version v" by (simp add: GetLatestVersion_def)
    with ok c assms(3) Some show ?thesis by (auto simp: chain_ok_def)
  qed (simp add: chain_ok_def assms(3))
  moreover have "wf_map vs" using assms(1) by (simp add: store_ok_def)
  ultimately show ?thesis
    using assms(1) by (simp add: vs_Put_def Let_def store_ok_iff)
qed

lemma store_ok_fold_Put:
  assumes "store_ok m vs" "distinct (map fst ws)"
    and "\<forall>(k, v) \<in> set ws. GetLatestVersion vs k < vv_Version v \<and> vv_Version v \<le> m"
  shows "store_ok m (fold (\<lambda>(k, v). vs_Put k v) ws vs)"
  using assms
proof (induction ws arbitrary: vs)
  case (Cons p ws)
  obtain k v where p: "p = (k, v)" by (cases p)
  have "store_ok m (vs_Put k v vs)" using Cons.prems p by (intro store_ok_Put) auto
  moreover have "\<forall>(j, w) \<in> set ws. GetLatestVersion (vs_Put k v vs) j < vv_Version w \<and> vv_Version w \<le> m"
    using Cons.prems(2,3) p by (force simp: mvs.latest_put)
  ultimately show ?case using Cons.IH Cons.prems(2) p by simp
qed simp

lemma GetLatestVersion_le: "store_ok m vs \<Longrightarrow> GetLatestVersion vs k \<le> m"
  by (auto simp: GetLatestVersion_def chain_ok_def split: option.splits list.splits
      dest!: store_ok_chain)

lemma GetVersion_latest:
  assumes "store_ok m vs" "GetLatestVersion vs k \<le> snap"
  shows "GetVersion vs k snap = GetLatest vs k"
  using assms by (auto simp: GetVersion_def GetLatest_def GetLatestVersion_def
      split: option.splits list.splits)

lemma GetLatest_def2: "store_ok m vs \<Longrightarrow> GetLatest vs k = GetVersion vs k m"
  using GetVersion_latest[OF _ GetLatestVersion_le] by metis

lemma gc_loop_filter: "gc_loop minv c = filter (\<lambda>v. minv \<le> vv_Version v) c"
  by (induction c) (auto simp: not_less)

lemma gc_chain_eq: "gc_chain minv c = (case c of [] \<Rightarrow> [] | h # t \<Rightarrow> h # gc_loop minv t)"
  by (cases "(minv, c)" rule: gc_chain.cases) auto

lemma GarbageCollect_map: "GarbageCollect minv vs = map (\<lambda>(k, c). (k, gc_chain minv c)) vs"
proof -
  have *: "(if length c < 2 then [(k, c)] else if gc_chain minv c = [] then []
      else [(k, gc_chain minv c)]) = [(k, gc_chain minv c)]" for k :: string and c
    by (cases "(minv, c)" rule: gc_chain.cases) auto
  show ?thesis
    unfolding GarbageCollect_def * by (induction vs) auto
qed

lemma map_of_GarbageCollect:
  "map_of (GarbageCollect minv vs) k = map_option (gc_chain minv) (map_of vs k)"
  by (simp add: GarbageCollect_map map_of_map)

lemma wf_map_GarbageCollect: "wf_map vs \<Longrightarrow> wf_map (GarbageCollect minv vs)"
  by (simp add: GarbageCollect_map wf_map_def comp_def case_prod_beta)

lemma store_ok_GarbageCollect: "store_ok m vs \<Longrightarrow> store_ok m (GarbageCollect minv vs)"
proof -
  assume ok: "store_ok m vs"
  have "chain_ok m (gc_chain minv c)" if "chain_ok m c" for c
    using that by (cases c) (auto simp: chain_ok_def gc_chain_eq gc_loop_filter sorted_wrt_filter)
  with ok show ?thesis
    by (auto simp: store_ok_iff wf_map_GarbageCollect map_of_GarbageCollect store_ok_def[of m vs]
        dest!: store_ok_chain[OF ok])
qed

lemma latest_GarbageCollect [simp]:
  "GetLatestVersion (GarbageCollect minv vs) k = GetLatestVersion vs k"
  "GetLatest (GarbageCollect minv vs) k = GetLatest vs k"
  by (auto simp: GetLatestVersion_def GetLatest_def map_of_GarbageCollect gc_chain_eq
      split: option.splits list.splits)

text \<open>
  What a snapshot sees after garbage collection. Nothing changes for a snapshot that sees the
  head; a snapshot below the head keeps its version exactly when that version reaches the bound.
\<close>

lemma visible_filter_none:
  "sorted_wrt (\<lambda>a b. vv_Version b < vv_Version a) c \<Longrightarrow>
   visible_version (filter (\<lambda>v. minv \<le> vv_Version v) c) snap \<in> {visible_version c snap, None}"
proof (induction c)
  case (Cons v c)
  have "filter (\<lambda>v. minv \<le> vv_Version v) c = []" if "vv_Version v < minv"
    using that Cons.prems by (auto simp: filter_empty_conv)
  with Cons show ?case by auto
qed simp

lemma GetVersion_GarbageCollect:
  assumes "store_ok m vs"
  shows "GetVersion (GarbageCollect minv vs) k snap = GetVersion vs k snap \<or>
     (snap < GetLatestVersion vs k \<and> GetVersion (GarbageCollect minv vs) k snap = None)"
proof (cases "map_of vs k")
  case (Some c)
  from store_ok_chain[OF assms Some] obtain h t where c: "c = h # t"
    and s: "sorted_wrt (\<lambda>a b. vv_Version b < vv_Version a) t"
    by (cases c) (auto simp: chain_ok_def)
  from visible_filter_none[OF s, of minv snap] show ?thesis
    using Some c by (auto simp: GetVersion_def map_of_GarbageCollect gc_chain_eq gc_loop_filter
        GetLatestVersion_def not_le)
qed (simp add: GetVersion_def map_of_GarbageCollect)

end
