(* ===== verification/Transaction.thy ===== *)
theory Transaction
  imports VersionStore
begin

text \<open>
  \<^verbatim>\<open>pkg/mvcc/transaction.go\<close>: transactions under snapshot isolation. The transaction objects
  live in a heap; a \<^verbatim>\<open>*Transaction\<close> is its address there, so the manager's maps and the
  clients share the object. \<open>mvcc_exec\<close> runs one operation of some client (or the collector
  that \<^verbatim>\<open>Commit\<close> starts in the background), and a list of operations is one interleaving of
  any number of clients. The clock is an argument.
\<close>

subsection \<open>State\<close>

datatype TxnState = TxnStateActive | TxnStateCommitted | TxnStateAborted

datatype mvcc_error = ErrTransactionNotActive | ErrConflict

type_synonym write_set = "(string \<times> VersionedValue) list"
type_synonym read_set = "(string \<times> u64) list"

record Transaction =
  txn_ID :: u64
  txn_StartTime :: int
  txn_CommitTime :: int
  txn_State :: TxnState
  txn_ReadVersion :: u64
  txn_WriteSet :: write_set
  txn_ReadSet :: read_set

record TransactionManager =
  nextTxnID :: u64
  nextVersion :: u64
  activeTxns :: "(u64 \<times> nat) list"
  committedTxns :: "(u64 \<times> nat) list"
  versionStore :: version_store
  txn_heap :: "Transaction list"

definition NewTransactionManager :: TransactionManager where
  "NewTransactionManager = \<lparr>nextTxnID = 1, nextVersion = 1, activeTxns = [], committedTxns = [],
     versionStore = NewVersionStore, txn_heap = []\<rparr>"

abbreviation set_txn :: "nat \<Rightarrow> Transaction \<Rightarrow> TransactionManager \<Rightarrow> TransactionManager" where
  "set_txn p txn tm \<equiv> tm\<lparr>txn_heap := (txn_heap tm)[p := txn]\<rparr>"

subsection \<open>Operations\<close>

definition Begin :: "int \<Rightarrow> TransactionManager \<Rightarrow> nat \<times> TransactionManager" where
  "Begin now tm =
     (let txnID = nextTxnID tm + 1;
          txn = \<lparr>txn_ID = txnID, txn_StartTime = now, txn_CommitTime = 0, txn_State = TxnStateActive,
                 txn_ReadVersion = nextVersion tm, txn_WriteSet = [], txn_ReadSet = []\<rparr>;
          p = length (txn_heap tm)
      in (p, tm\<lparr>nextTxnID := txnID, txn_heap := txn_heap tm @ [txn],
                activeTxns := AList.update txnID p (activeTxns tm)\<rparr>))"

text \<open>The two conflict checks of \<^verbatim>\<open>Commit\<close>, over the read set and over the keys not read.\<close>

definition read_conflict :: "version_store \<Rightarrow> Transaction \<Rightarrow> bool" where
  "read_conflict vs txn =
     list_ex (\<lambda>(key, readVersion).
       map_of (txn_WriteSet txn) key \<noteq> None \<and>
       GetLatestVersion vs key > readVersion \<and> GetLatestVersion vs key > txn_ReadVersion txn)
     (txn_ReadSet txn)"

definition write_conflict :: "version_store \<Rightarrow> Transaction \<Rightarrow> bool" where
  "write_conflict vs txn =
     list_ex (\<lambda>(key, v). map_of (txn_ReadSet txn) key = None \<and>
       GetLatestVersion vs key > txn_ReadVersion txn) (txn_WriteSet txn)"

definition stamp :: "u64 \<Rightarrow> int \<Rightarrow> write_set \<Rightarrow> write_set" where
  "stamp cv now ws = map (\<lambda>(k, v). (k, v\<lparr>vv_Version := cv, vv_CommitTime := now\<rparr>)) ws"

definition Commit :: "int \<Rightarrow> nat \<Rightarrow> TransactionManager \<Rightarrow> mvcc_error option \<times> TransactionManager" where
  "Commit now p tm =
     (let txn = txn_heap tm ! p; vs = versionStore tm in
      if txn_State txn \<noteq> TxnStateActive then (Some ErrTransactionNotActive, tm)
      else if read_conflict vs txn then (Some ErrConflict, tm)
      else if write_conflict vs txn then (Some ErrConflict, tm)
      else
        let commitVersion = nextVersion tm + 1;
            ws = stamp commitVersion now (txn_WriteSet txn);
            txn' = txn\<lparr>txn_CommitTime := now, txn_WriteSet := ws, txn_State := TxnStateCommitted\<rparr>
        in (None, (set_txn p txn' tm)\<lparr>nextVersion := commitVersion,
              versionStore := fold (\<lambda>(k, v). vs_Put k v) ws vs,
              activeTxns := AList.delete (txn_ID txn) (activeTxns tm),
              committedTxns := AList.update (txn_ID txn) p (committedTxns tm)\<rparr>))"

text \<open>\<^verbatim>\<open>Abort\<close> leaves a nil write set, which reads as the empty map.\<close>

definition Abort :: "nat \<Rightarrow> TransactionManager \<Rightarrow> mvcc_error option \<times> TransactionManager" where
  "Abort p tm =
     (let txn = txn_heap tm ! p in
      if txn_State txn \<noteq> TxnStateActive then (Some ErrTransactionNotActive, tm)
      else (None, (set_txn p (txn\<lparr>txn_WriteSet := [], txn_State := TxnStateAborted\<rparr>) tm)
                    \<lparr>activeTxns := AList.delete (txn_ID txn) (activeTxns tm)\<rparr>))"

definition txn_Read :: "nat \<Rightarrow> string \<Rightarrow> TransactionManager
    \<Rightarrow> (mvcc_error + gval option) \<times> TransactionManager" where
  "txn_Read p key tm =
     (let txn = txn_heap tm ! p; vs = versionStore tm in
      if txn_State txn \<noteq> TxnStateActive then (Inl ErrTransactionNotActive, tm)
      else case map_of (txn_WriteSet txn) key of
        Some v \<Rightarrow> (Inr (if vv_DeletedBy v \<noteq> 0 then None else Some (vv_Value v)), tm)
      | None \<Rightarrow>
          let r = GetVersion vs key (txn_ReadVersion txn);
              latest = GetLatestVersion vs key;
              rv = (if r \<noteq> None
                    then (if latest \<le> txn_ReadVersion txn then latest else txn_ReadVersion txn)
                    else 0)
          in (Inr r, set_txn p (txn\<lparr>txn_ReadSet := AList.update key rv (txn_ReadSet txn)\<rparr>) tm))"

definition txn_Write :: "nat \<Rightarrow> string \<Rightarrow> gval \<Rightarrow> TransactionManager
    \<Rightarrow> mvcc_error option \<times> TransactionManager" where
  "txn_Write p key v tm =
     (let txn = txn_heap tm ! p in
      if txn_State txn \<noteq> TxnStateActive then (Some ErrTransactionNotActive, tm)
      else (None, set_txn p (txn\<lparr>txn_WriteSet := AList.update key
             \<lparr>vv_Value = v, vv_Version = 0, vv_CreatedBy = txn_ID txn, vv_DeletedBy = 0,
              vv_CommitTime = 0\<rparr> (txn_WriteSet txn)\<rparr>) tm))"

definition txn_Delete :: "nat \<Rightarrow> string \<Rightarrow> TransactionManager
    \<Rightarrow> mvcc_error option \<times> TransactionManager" where
  "txn_Delete p key tm =
     (let txn = txn_heap tm ! p in
      if txn_State txn \<noteq> TxnStateActive then (Some ErrTransactionNotActive, tm)
      else (None, set_txn p (txn\<lparr>txn_WriteSet := AList.update key
             \<lparr>vv_Value = GNil, vv_Version = 0, vv_CreatedBy = txn_ID txn,
              vv_DeletedBy = txn_ID txn, vv_CommitTime = 0\<rparr> (txn_WriteSet txn)\<rparr>) tm))"

definition min_read_version :: "TransactionManager \<Rightarrow> u64" where
  "min_read_version tm =
     foldl (\<lambda>m (i, p). if txn_ReadVersion (txn_heap tm ! p) < m
                       then txn_ReadVersion (txn_heap tm ! p) else m)
       (nextVersion tm) (activeTxns tm)"

definition maybeGarbageCollect :: "TransactionManager \<Rightarrow> TransactionManager" where
  "maybeGarbageCollect tm =
     tm\<lparr>versionStore := GarbageCollect (min_read_version tm) (versionStore tm)\<rparr>"

definition GetActiveTransactions :: "TransactionManager \<Rightarrow> nat" where
  "GetActiveTransactions tm = length (activeTxns tm)"

text \<open>The copies a savepoint takes and restores; copying a map of values is the value itself.\<close>

definition GetWriteSet :: "nat \<Rightarrow> TransactionManager \<Rightarrow> write_set" where
  "GetWriteSet p tm = txn_WriteSet (txn_heap tm ! p)"

definition GetReadSet :: "nat \<Rightarrow> TransactionManager \<Rightarrow> read_set" where
  "GetReadSet p tm = txn_ReadSet (txn_heap tm ! p)"

definition SetWriteSet :: "nat \<Rightarrow> write_set \<Rightarrow> TransactionManager \<Rightarrow> TransactionManager" where
  "SetWriteSet p ws tm = set_txn p ((txn_heap tm ! p)\<lparr>txn_WriteSet := ws\<rparr>) tm"

definition SetReadSet :: "nat \<Rightarrow> read_set \<Rightarrow> TransactionManager \<Rightarrow> TransactionManager" where
  "SetReadSet p rs tm = set_txn p ((txn_heap tm ! p)\<lparr>txn_ReadSet := rs\<rparr>) tm"

subsection \<open>Interleavings\<close>

text \<open>
  One step of any client. Savepoints (\<^verbatim>\<open>pkg/database/session.go\<close>) save copies of both sets of
  an active transaction and put one of its saved copies back. A collection may run at any
  moment. An operation on an address that was never returned is no step at all.
\<close>

type_synonym savepoint = "nat \<times> write_set \<times> read_set"
type_synonym mvcc_sys = "TransactionManager \<times> savepoint list"

datatype mvcc_op =
    OpBegin int
  | OpCommit int nat
  | OpAbort nat
  | OpRead nat string
  | OpWrite nat string gval
  | OpDelete nat string
  | OpGC
  | OpSavepoint nat
  | OpRollback nat

fun mvcc_exec :: "mvcc_op \<Rightarrow> mvcc_sys \<Rightarrow> mvcc_sys" where
  "mvcc_exec (OpBegin now) (tm, sv) = (snd (Begin now tm), sv)"
| "mvcc_exec (OpCommit now p) (tm, sv) =
     (if p < length (txn_heap tm) then (snd (Commit now p tm), sv) else (tm, sv))"
| "mvcc_exec (OpAbort p) (tm, sv) =
     (if p < length (txn_heap tm) then (snd (Abort p tm), sv) else (tm, sv))"
| "mvcc_exec (OpRead p k) (tm, sv) =
     (if p < length (txn_heap tm) then (snd (txn_Read p k tm), sv) else (tm, sv))"
| "mvcc_exec (OpWrite p k v) (tm, sv) =
     (if p < length (txn_heap tm) then (snd (txn_Write p k v tm), sv) else (tm, sv))"
| "mvcc_exec (OpDelete p k) (tm, sv) =
     (if p < length (txn_heap tm) then (snd (txn_Delete p k tm), sv) else (tm, sv))"
| "mvcc_exec OpGC (tm, sv) = (maybeGarbageCollect tm, sv)"
| "mvcc_exec (OpSavepoint p) (tm, sv) =
     (if p < length (txn_heap tm) \<and> txn_State (txn_heap tm ! p) = TxnStateActive
      then (tm, (p, GetWriteSet p tm, GetReadSet p tm) # sv) else (tm, sv))"
| "mvcc_exec (OpRollback i) (tm, sv) =
     (if i < length sv \<and> txn_State (txn_heap tm ! fst (sv ! i)) = TxnStateActive
      then (case sv ! i of (p, ws, rs) \<Rightarrow> (SetReadSet p rs (SetWriteSet p ws tm), sv))
      else (tm, sv))"

definition mvcc_run :: "mvcc_op list \<Rightarrow> mvcc_sys \<Rightarrow> mvcc_sys" where
  "mvcc_run ops s = fold mvcc_exec ops s"

abbreviation mvcc_init :: mvcc_sys where
  "mvcc_init \<equiv> (NewTransactionManager, [])"

subsection \<open>The invariant of every interleaving\<close>

text \<open>
  After \<open>n\<close> operations: the version counter has moved at most \<open>n\<close> times; the chains are in
  order below it; what a transaction recorded as read is no newer than its snapshot; the
  versions a committed transaction wrote are newer than its snapshot and no newer than the
  key's latest version; and two committed writers of one key did not overlap.
\<close>

definition reads_ok :: "u64 \<Rightarrow> read_set \<Rightarrow> bool" where
  "reads_ok rv rs \<longleftrightarrow> (\<forall>(k, r) \<in> set rs. r \<le> rv)"

definition txn_ok :: "version_store \<Rightarrow> u64 \<Rightarrow> Transaction \<Rightarrow> bool" where
  "txn_ok vs nv t \<longleftrightarrow>
     wf_map (txn_WriteSet t) \<and> txn_ReadVersion t \<le> nv \<and>
     reads_ok (txn_ReadVersion t) (txn_ReadSet t) \<and>
     (txn_State t = TxnStateCommitted \<longrightarrow>
        (\<forall>k v. map_of (txn_WriteSet t) k = Some v \<longrightarrow>
           txn_ReadVersion t < vv_Version v \<and> vv_Version v \<le> GetLatestVersion vs k))"

definition disjoint_commits :: "Transaction \<Rightarrow> Transaction \<Rightarrow> bool" where
  "disjoint_commits t u \<longleftrightarrow>
     (\<forall>k v w. txn_State t = TxnStateCommitted \<and> txn_State u = TxnStateCommitted \<and>
        map_of (txn_WriteSet t) k = Some v \<and> map_of (txn_WriteSet u) k = Some w \<longrightarrow>
        vv_Version v \<le> txn_ReadVersion u \<or> vv_Version w \<le> txn_ReadVersion t)"

definition save_ok :: "Transaction list \<Rightarrow> savepoint \<Rightarrow> bool" where
  "save_ok heap = (\<lambda>(p, ws, rs). p < length heap \<and> wf_map ws \<and>
     reads_ok (txn_ReadVersion (heap ! p)) rs)"

definition mvcc_inv :: "nat \<Rightarrow> mvcc_sys \<Rightarrow> bool" where
  "mvcc_inv n = (\<lambda>(tm, sv).
     unat (nextVersion tm) \<le> Suc n \<and>
     store_ok (nextVersion tm) (versionStore tm) \<and>
     (\<forall>t \<in> set (txn_heap tm). txn_ok (versionStore tm) (nextVersion tm) t) \<and>
     (\<forall>p q. p < length (txn_heap tm) \<longrightarrow> q < length (txn_heap tm) \<longrightarrow> p \<noteq> q \<longrightarrow>
        disjoint_commits (txn_heap tm ! p) (txn_heap tm ! q)) \<and>
     (\<forall>s \<in> set sv. save_ok (txn_heap tm) s))"

lemmas mvcc_defs = mvcc_inv_def txn_ok_def

lemma reads_ok_Nil [simp]: "reads_ok rv []"
  by (simp add: reads_ok_def)

lemma reads_ok_update: "reads_ok rv rs \<Longrightarrow> r \<le> rv \<Longrightarrow> reads_ok rv (AList.update k r rs)"
  using set_update_insert[of k r rs] by (fastforce simp: reads_ok_def)

lemma mvcc_invE:
  assumes "mvcc_inv n (tm, sv)"
  shows "unat (nextVersion tm) \<le> Suc n" "store_ok (nextVersion tm) (versionStore tm)"
    and "p < length (txn_heap tm) \<Longrightarrow> txn_ok (versionStore tm) (nextVersion tm) (txn_heap tm ! p)"
    and "s \<in> set sv \<Longrightarrow> save_ok (txn_heap tm) s"
  using assms by (auto simp: mvcc_inv_def)

lemma disjoint_commits_sym: "disjoint_commits t u \<longleftrightarrow> disjoint_commits u t"
  by (auto simp: disjoint_commits_def)

lemma disjoint_commits_open:
  assumes "txn_State t \<noteq> TxnStateCommitted"
  shows "disjoint_commits t u" "disjoint_commits u t"
  using assms by (simp_all add: disjoint_commits_def)

lemma mvcc_inv_init: "mvcc_inv 0 mvcc_init"
  by (simp add: mvcc_inv_def NewTransactionManager_def)

lemma mvcc_inv_Suc: "mvcc_inv n s \<Longrightarrow> mvcc_inv (Suc n) s"
  by (auto simp: mvcc_inv_def)

lemma mvcc_inv_other [simp]:
  "mvcc_inv n (tm\<lparr>activeTxns := a\<rparr>, sv) = mvcc_inv n (tm, sv)"
  by (simp add: mvcc_inv_def)

lemma save_ok_set:
  assumes "save_ok heap s" "txn_ReadVersion t = txn_ReadVersion (heap ! p)"
  shows "save_ok (heap[p := t]) s"
proof -
  have "a < length heap \<Longrightarrow> txn_ReadVersion (heap[p := t] ! a) = txn_ReadVersion (heap ! a)" for a
    using assms(2) by (cases "p = a") auto
  with assms(1) show ?thesis by (simp add: save_ok_def split: prod.splits)
qed

lemma mvcc_inv_set:
  assumes inv: "mvcc_inv n (tm, sv)" and p: "p < length (txn_heap tm)"
    and t: "txn_State t \<noteq> TxnStateCommitted"
      "txn_ReadVersion t = txn_ReadVersion (txn_heap tm ! p)" "wf_map (txn_WriteSet t)"
      "reads_ok (txn_ReadVersion t) (txn_ReadSet t)"
  shows "mvcc_inv n (set_txn p t tm, sv)"
proof -
  have "txn_ok (versionStore tm) (nextVersion tm) t"
    using mvcc_invE(3)[OF inv p] t by (simp add: txn_ok_def)
  then have "\<forall>u \<in> set ((txn_heap tm)[p := t]). txn_ok (versionStore tm) (nextVersion tm) u"
    using inv by (auto simp: mvcc_inv_def dest!: subsetD[OF set_update_subset_insert])
  moreover have "disjoint_commits ((txn_heap tm)[p := t] ! a) ((txn_heap tm)[p := t] ! b)"
    if "a < length (txn_heap tm)" "b < length (txn_heap tm)" "a \<noteq> b" for a b
    using that inv disjoint_commits_open[OF t(1)]
    by (auto simp: mvcc_inv_def nth_list_update[OF p])
  ultimately show ?thesis
    using inv save_ok_set[OF _ t(2)] by (auto simp: mvcc_inv_def)
qed

lemma u64_succ:
  assumes "unat (v :: u64) < 2 ^ 64 - 1"
  shows "v < v + 1" "unat (v + 1) = Suc (unat v)"
proof -
  show "unat (v + 1) = Suc (unat v)"
    using assms by (simp add: unat_word_ariths)
  then show "v < v + 1" by (simp add: word_less_nat_alt)
qed

subsection \<open>Conflict detection\<close>

text \<open>
  Under the invariant both checks come down to one condition: some key of the write set has
  a version newer than the snapshot.
\<close>

lemma conflict_iff:
  assumes "txn_ok vs nv txn"
  shows "read_conflict vs txn \<or> write_conflict vs txn \<longleftrightarrow>
    (\<exists>k v. map_of (txn_WriteSet txn) k = Some v \<and> txn_ReadVersion txn < GetLatestVersion vs k)"
    (is "?l \<longleftrightarrow> ?r")
proof
  assume ?l
  then show ?r
  proof
    assume "write_conflict vs txn"
    then obtain k v where "(k, v) \<in> set (txn_WriteSet txn)" "txn_ReadVersion txn < GetLatestVersion vs k"
      by (auto simp: write_conflict_def list_ex_iff)
    with assms show ?r by (auto simp: txn_ok_def map_of_wf_mem)
  qed (auto simp: read_conflict_def list_ex_iff)
next
  assume ?r
  then obtain k v where k: "map_of (txn_WriteSet txn) k = Some v"
    and c: "txn_ReadVersion txn < GetLatestVersion vs k" by blast
  show ?l
  proof (cases "map_of (txn_ReadSet txn) k")
    case None
    with k c show ?thesis
      by (auto simp: write_conflict_def list_ex_iff dest!: map_of_SomeD)
  next
    case (Some r)
    then have m: "(k, r) \<in> set (txn_ReadSet txn)" by (rule map_of_SomeD)
    with assms have "r \<le> txn_ReadVersion txn" by (auto simp: txn_ok_def reads_ok_def)
    with c have "r < GetLatestVersion vs k" by simp
    with m k c show ?thesis by (auto simp: read_conflict_def list_ex_iff)
  qed
qed

lemma stamp_simps [simp]:
  "map fst (stamp cv now ws) = map fst ws"
  "wf_map (stamp cv now ws) = wf_map ws"
  "map_of (stamp cv now ws) k
   = map_option (\<lambda>v. v\<lparr>vv_Version := cv, vv_CommitTime := now\<rparr>) (map_of ws k)"
  by (auto simp: stamp_def wf_map_def comp_def case_prod_beta map_of_map)

lemma stamp_version: "(k, v) \<in> set (stamp cv now ws) \<Longrightarrow> vv_Version v = cv"
  by (auto simp: stamp_def)

text \<open>A commit that succeeds: what it needs and what it does.\<close>

lemma Commit_cases:
  assumes inv: "mvcc_inv n (tm, sv)" and p: "p < length (txn_heap tm)"
  obtains (inactive) "txn_State (txn_heap tm ! p) \<noteq> TxnStateActive"
      "Commit now p tm = (Some ErrTransactionNotActive, tm)"
  | (conflict) k v where "txn_State (txn_heap tm ! p) = TxnStateActive"
      "map_of (txn_WriteSet (txn_heap tm ! p)) k = Some v"
      "txn_ReadVersion (txn_heap tm ! p) < GetLatestVersion (versionStore tm) k"
      "Commit now p tm = (Some ErrConflict, tm)"
  | (success) "txn_State (txn_heap tm ! p) = TxnStateActive"
      "\<forall>k v. map_of (txn_WriteSet (txn_heap tm ! p)) k = Some v \<longrightarrow>
         GetLatestVersion (versionStore tm) k \<le> txn_ReadVersion (txn_heap tm ! p)"
      "fst (Commit now p tm) = None"
      "\<not> read_conflict (versionStore tm) (txn_heap tm ! p)"
      "\<not> write_conflict (versionStore tm) (txn_heap tm ! p)"
proof (cases "txn_State (txn_heap tm ! p) = TxnStateActive")
  case True
  show ?thesis
  proof (cases "read_conflict (versionStore tm) (txn_heap tm ! p)
      \<or> write_conflict (versionStore tm) (txn_heap tm ! p)")
    case conf: True
    then have "Commit now p tm = (Some ErrConflict, tm)"
      using True by (auto simp: Commit_def Let_def)
    with conf True conflict_iff[OF mvcc_invE(3)[OF inv p]] that(2) show ?thesis by blast
  next
    case False
    with conflict_iff[OF mvcc_invE(3)[OF inv p]]
    have "\<forall>k v. map_of (txn_WriteSet (txn_heap tm ! p)) k = Some v \<longrightarrow>
        GetLatestVersion (versionStore tm) k \<le> txn_ReadVersion (txn_heap tm ! p)"
      by (simp add: not_less) (metis option.distinct(1))
    with True False show ?thesis
      by (intro that(3)) (auto simp: Commit_def Let_def)
  qed
qed (auto simp: Commit_def Let_def intro: that(1))

subsection \<open>Every operation keeps the invariant\<close>

lemma Commit_success:
  assumes "txn_State (txn_heap tm ! p) = TxnStateActive"
    and "\<not> read_conflict (versionStore tm) (txn_heap tm ! p)"
    and "\<not> write_conflict (versionStore tm) (txn_heap tm ! p)"
    and "ws = stamp (nextVersion tm + 1) now (txn_WriteSet (txn_heap tm ! p))"
  shows "snd (Commit now p tm) =
    (set_txn p ((txn_heap tm ! p)\<lparr>txn_CommitTime := now, txn_WriteSet := ws,
        txn_State := TxnStateCommitted\<rparr>) tm)
      \<lparr>nextVersion := nextVersion tm + 1,
       versionStore := fold (\<lambda>(k, v). vs_Put k v) ws (versionStore tm),
       activeTxns := AList.delete (txn_ID (txn_heap tm ! p)) (activeTxns tm),
       committedTxns := AList.update (txn_ID (txn_heap tm ! p)) p (committedTxns tm)\<rparr>"
  using assms by (simp add: Commit_def Let_def)

lemma txn_ok_mono:
  assumes "txn_ok vs nv t" "nv \<le> nv'" "\<And>k. GetLatestVersion vs k \<le> GetLatestVersion vs' k"
  shows "txn_ok vs' nv' t"
  using assms unfolding txn_ok_def by (fastforce intro: order_trans)

lemma mvcc_inv_commit:
  assumes inv: "mvcc_inv n (tm, sv)" and p: "p < length (txn_heap tm)" and n: "n < 2 ^ 64 - 2"
    and act: "txn_State (txn_heap tm ! p) = TxnStateActive"
    and fresh: "\<forall>k v. map_of (txn_WriteSet (txn_heap tm ! p)) k = Some v \<longrightarrow>
         GetLatestVersion (versionStore tm) k \<le> txn_ReadVersion (txn_heap tm ! p)"
    and conf: "\<not> read_conflict (versionStore tm) (txn_heap tm ! p)"
      "\<not> write_conflict (versionStore tm) (txn_heap tm ! p)"
  shows "mvcc_inv (Suc n) (snd (Commit now p tm), sv)"
proof -
  define t where "t = txn_heap tm ! p"
  define nv where "nv = nextVersion tm"
  define vs where "vs = versionStore tm"
  define ws where "ws = stamp (nv + 1) now (txn_WriteSet t)"
  define vs' where "vs' = fold (\<lambda>(k, v). vs_Put k v) ws vs"
  define t' where "t' = t\<lparr>txn_CommitTime := now, txn_WriteSet := ws, txn_State := TxnStateCommitted\<rparr>"
  note names = t_def nv_def vs_def
  have "unat nv \<le> Suc n" and ok: "store_ok nv vs" and tok: "txn_ok vs nv t"
    using mvcc_invE[OF inv] p by (simp_all add: names)
  with n have nv: "nv < nv + 1" "unat (nv + 1) \<le> Suc (Suc n)" by (simp_all add: u64_succ)
  have dist: "distinct (map fst ws)" using tok by (simp add: ws_def txn_ok_def wf_map_def)
  have latest: "GetLatestVersion vs' k =
      (case map_of ws k of None \<Rightarrow> GetLatestVersion vs k | Some v \<Rightarrow> nv + 1)" for k
    unfolding vs'_def mvs.latest_fold_put[OF dist]
    by (auto simp: ws_def split: option.splits)
  have old: "GetLatestVersion vs k < nv + 1" for k
    using GetLatestVersion_le[OF ok, of k] nv(1) by simp
  then have mono: "GetLatestVersion vs k \<le> GetLatestVersion vs' k" for k
    by (auto simp: latest order_less_imp_le split: option.splits)
  have "store_ok (nv + 1) vs'"
    unfolding vs'_def
    by (rule store_ok_fold_Put[OF store_ok_mono[OF ok] dist])
      (use nv(1) old in \<open>auto simp: ws_def dest: stamp_version\<close>)
  moreover have t'ok: "txn_ok vs' (nv + 1) t'"
    using tok nv(1) latest unfolding t'_def txn_ok_def
    by (auto simp: ws_def)
  then have "\<forall>u \<in> set ((txn_heap tm)[p := t']). txn_ok vs' (nv + 1) u"
    using inv txn_ok_mono[OF _ order_less_imp_le[OF nv(1)] mono]
    by (auto simp: mvcc_inv_def names dest!: subsetD[OF set_update_subset_insert])
  moreover have "disjoint_commits t' (txn_heap tm ! q)" if "q < length (txn_heap tm)" for q
    using mvcc_invE(3)[OF inv that] fresh
    unfolding disjoint_commits_def t'_def ws_def txn_ok_def
    by (auto simp: names) (meson order_trans)
  then have "disjoint_commits ((txn_heap tm)[p := t'] ! a) ((txn_heap tm)[p := t'] ! b)"
    if "a < length (txn_heap tm)" "b < length (txn_heap tm)" "a \<noteq> b" for a b
    using that inv disjoint_commits_sym by (auto simp: mvcc_inv_def nth_list_update[OF p])
  moreover have "save_ok ((txn_heap tm)[p := t']) s" if "s \<in> set sv" for s
    using mvcc_invE(4)[OF inv that] by (rule save_ok_set) (simp add: t'_def t_def)
  ultimately show ?thesis
    using nv(2) Commit_success[OF act conf refl, of now]
    by (auto simp: mvcc_inv_def names t'_def vs'_def ws_def)
qed

lemma mvcc_inv_Read:
  assumes "mvcc_inv n (tm, sv)" "p < length (txn_heap tm)"
  shows "mvcc_inv n (snd (txn_Read p k tm), sv)"
proof -
  define t where "t = txn_heap tm ! p"
  have ok: "wf_map (txn_WriteSet t)" "reads_ok (txn_ReadVersion t) (txn_ReadSet t)"
    using mvcc_invE(3)[OF assms] by (simp_all add: txn_ok_def t_def)
  have "mvcc_inv n (set_txn p (t\<lparr>txn_ReadSet := AList.update k r (txn_ReadSet t)\<rparr>) tm, sv)"
    if "r \<le> txn_ReadVersion t" "txn_State t = TxnStateActive" for r
    using that ok reads_ok_update
    by (intro mvcc_inv_set[OF assms]) (auto simp: t_def[symmetric])
  then show ?thesis
    using assms(1) by (auto simp: txn_Read_def Let_def t_def split: option.splits)
qed

lemma mvcc_inv_Begin:
  assumes "mvcc_inv n (tm, sv)"
  shows "mvcc_inv n (snd (Begin now tm), sv)"
proof -
  obtain t where heap: "txn_heap (snd (Begin now tm)) = txn_heap tm @ [t]"
    and t: "txn_State t \<noteq> TxnStateCommitted" "txn_ok (versionStore tm) (nextVersion tm) t"
    by (auto simp: Begin_def Let_def txn_ok_def)
  have "disjoint_commits ((txn_heap tm @ [t]) ! a) ((txn_heap tm @ [t]) ! b)"
    if "a < Suc (length (txn_heap tm))" "b < Suc (length (txn_heap tm))" "a \<noteq> b" for a b
    using that assms disjoint_commits_open[OF t(1)]
    by (auto simp: mvcc_inv_def nth_append less_Suc_eq)
  moreover have "save_ok (txn_heap tm @ [t]) s" if "s \<in> set sv" for s
    using mvcc_invE(4)[OF assms that] by (auto simp: save_ok_def nth_append split: prod.splits)
  moreover have "nextVersion (snd (Begin now tm)) = nextVersion tm"
    "versionStore (snd (Begin now tm)) = versionStore tm"
    by (simp_all add: Begin_def Let_def)
  ultimately show ?thesis
    using assms t(2) heap by (auto simp: mvcc_inv_def)
qed

lemma mvcc_inv_sets:
  assumes "mvcc_inv n (tm, sv)" "p < length (txn_heap tm)"
  shows "mvcc_inv n (snd (Abort p tm), sv)" "mvcc_inv n (snd (txn_Write p k v tm), sv)"
    "mvcc_inv n (snd (txn_Delete p k tm), sv)"
  using assms mvcc_invE(3)[OF assms]
  by (auto simp: Abort_def txn_Write_def txn_Delete_def Let_def txn_ok_def intro!: mvcc_inv_set)

lemma mvcc_inv_savepoints:
  assumes "mvcc_inv n (tm, sv)"
  shows "p < length (txn_heap tm) \<Longrightarrow> mvcc_inv n (tm, (p, GetWriteSet p tm, GetReadSet p tm) # sv)"
    and "i < length sv \<Longrightarrow> sv ! i = (p, ws, rs) \<Longrightarrow> txn_State (txn_heap tm ! p) = TxnStateActive \<Longrightarrow>
      mvcc_inv n (SetReadSet p rs (SetWriteSet p ws tm), sv)"
proof -
  assume "p < length (txn_heap tm)"
  with mvcc_invE(3)[OF assms this] assms
  show "mvcc_inv n (tm, (p, GetWriteSet p tm, GetReadSet p tm) # sv)"
    by (auto simp: mvcc_inv_def save_ok_def GetWriteSet_def GetReadSet_def txn_ok_def)
next
  assume i: "i < length sv" "sv ! i = (p, ws, rs)" and act: "txn_State (txn_heap tm ! p) = TxnStateActive"
  then have m: "(p, ws, rs) \<in> set sv" by (metis nth_mem)
  from mvcc_invE(4)[OF assms m] have ok: "p < length (txn_heap tm)" "wf_map ws"
    "reads_ok (txn_ReadVersion (txn_heap tm ! p)) rs" by (auto simp: save_ok_def)
  then have "SetReadSet p rs (SetWriteSet p ws tm)
      = set_txn p ((txn_heap tm ! p)\<lparr>txn_WriteSet := ws, txn_ReadSet := rs\<rparr>) tm"
    by (simp add: SetReadSet_def SetWriteSet_def)
  with ok act show "mvcc_inv n (SetReadSet p rs (SetWriteSet p ws tm), sv)"
    by (auto intro!: mvcc_inv_set[OF assms])
qed

lemma mvcc_inv_GC: "mvcc_inv n (tm, sv) \<Longrightarrow> mvcc_inv n (maybeGarbageCollect tm, sv)"
  by (auto simp: mvcc_inv_def maybeGarbageCollect_def txn_ok_def store_ok_GarbageCollect)

lemma mvcc_inv_Commit:
  assumes "mvcc_inv n (tm, sv)" "p < length (txn_heap tm)" "n < 2 ^ 64 - 2"
  shows "mvcc_inv (Suc n) (snd (Commit now p tm), sv)"
  using assms(1,2)
proof (cases rule: Commit_cases[where now = now])
  case success
  with mvcc_inv_commit[OF assms] show ?thesis by simp
qed (use mvcc_inv_Suc[OF assms(1)] in simp_all)

lemma mvcc_inv_exec:
  assumes "mvcc_inv n s" "n < 2 ^ 64 - 2"
  shows "mvcc_inv (Suc n) (mvcc_exec op s)"
proof -
  obtain tm sv where s: "s = (tm, sv)" by (cases s)
  note inv = assms(1)[unfolded s]
  show ?thesis
  proof (cases "\<exists>now p. op = OpCommit now p")
    case True
    then show ?thesis using mvcc_inv_Commit[OF inv _ assms(2)] mvcc_inv_Suc[OF inv] s by auto
  next
    case False
    then have "mvcc_inv n (mvcc_exec op (tm, sv))"
      using inv mvcc_inv_Begin[OF inv] mvcc_inv_Read[OF inv] mvcc_inv_sets[OF inv]
        mvcc_inv_GC[OF inv] mvcc_inv_savepoints(1)[OF inv]
        mvcc_inv_savepoints(2)[OF inv]
      by (cases op) (auto split: prod.splits)
    then show ?thesis using s mvcc_inv_Suc by simp
  qed
qed

lemma mvcc_inv_run:
  "mvcc_inv n s \<Longrightarrow> n + length ops \<le> 2 ^ 64 - 2 \<Longrightarrow> mvcc_inv (n + length ops) (mvcc_run ops s)"
proof (induction ops arbitrary: n s)
  case (Cons op ops)
  from Cons.prems have "mvcc_inv (Suc n) (mvcc_exec op s)" by (intro mvcc_inv_exec) auto
  from Cons.IH[OF this] Cons.prems(2) show ?case by (simp add: mvcc_run_def)
qed (simp add: mvcc_run_def)

subsection \<open>What a snapshot sees along a run\<close>

lemma Commit_store_success:
  assumes inv: "mvcc_inv n (tm, sv)" and p: "p < length (txn_heap tm)" and n: "n < 2 ^ 64 - 2"
    and act: "txn_State (txn_heap tm ! p) = TxnStateActive"
    and conf: "\<not> read_conflict (versionStore tm) (txn_heap tm ! p)"
      "\<not> write_conflict (versionStore tm) (txn_heap tm ! p)"
    and tm': "tm' = snd (Commit now p tm)"
  obtains ws where "distinct (map fst ws)" "\<forall>(k, v) \<in> set ws. nextVersion tm < vv_Version v"
    "ws = stamp (nextVersion tm + 1) now (txn_WriteSet (txn_heap tm ! p))"
    "versionStore tm' = fold (\<lambda>(k, v). vs_Put k v) ws (versionStore tm)"
    "nextVersion tm < nextVersion tm'" "nextVersion tm' = nextVersion tm + 1"
proof
  let ?ws = "stamp (nextVersion tm + 1) now (txn_WriteSet (txn_heap tm ! p))"
  have "unat (nextVersion tm) < 2 ^ 64 - 1" using mvcc_invE(1)[OF inv] n by simp
  then have nv: "nextVersion tm < nextVersion tm + 1" by (rule u64_succ)
  show "distinct (map fst ?ws)"
    using mvcc_invE(3)[OF inv p] by (simp add: txn_ok_def wf_map_def)
  show "\<forall>(k, v) \<in> set ?ws. nextVersion tm < vv_Version v"
    using nv by (auto dest: stamp_version)
  show "nextVersion tm < nextVersion tm'" "nextVersion tm' = nextVersion tm + 1"
    "versionStore tm' = fold (\<lambda>(k, v). vs_Put k v) ?ws (versionStore tm)"
    using nv by (simp_all add: tm' Commit_success[OF act conf refl])
qed simp

lemma Commit_store:
  assumes inv: "mvcc_inv n (tm, sv)" and p: "p < length (txn_heap tm)" and n: "n < 2 ^ 64 - 2"
    and snap: "snap \<le> nextVersion tm" and tm': "tm' = snd (Commit now p tm)"
  shows "nextVersion tm \<le> nextVersion tm' \<and>
    GetLatestVersion (versionStore tm) k \<le> GetLatestVersion (versionStore tm') k \<and>
    GetVersion (versionStore tm') k snap = GetVersion (versionStore tm) k snap"
  using inv p
proof (cases rule: Commit_cases[where now = now])
  case success
  from Commit_store_success[OF inv p n success(1,4,5) tm'] obtain ws
    where ws: "distinct (map fst ws)" "\<forall>(k, v) \<in> set ws. nextVersion tm < vv_Version v"
      and vs': "versionStore tm' = fold (\<lambda>(k, v). vs_Put k v) ws (versionStore tm)"
      and nv: "nextVersion tm < nextVersion tm'" by metis
  have "\<forall>(j, v) \<in> set ws. snap < vv_Version v" using ws(2) snap by force
  then have "GetVersion (versionStore tm') k snap = GetVersion (versionStore tm) k snap"
    unfolding vs' by (rule mvs.get_fold_put_old[OF ws(1)])
  moreover have "GetLatestVersion (versionStore tm) k \<le> nextVersion tm"
    by (rule GetLatestVersion_le[OF mvcc_invE(2)[OF inv]])
  then have "GetLatestVersion (versionStore tm) k \<le> GetLatestVersion (versionStore tm') k"
    unfolding vs' mvs.latest_fold_put[OF ws(1)]
    using ws(2) by (fastforce split: option.splits dest!: map_of_SomeD)
  ultimately show ?thesis using nv by simp
qed (simp_all add: tm')

lemma Commit_GetLatest:
  assumes inv: "mvcc_inv n (tm, sv)" and p: "p < length (txn_heap tm)" and n: "n < 2 ^ 64 - 2"
  shows "GetLatest (versionStore (snd (Commit now p tm))) k =
      (if fst (Commit now p tm) = None
       then (case map_of (txn_WriteSet (txn_heap tm ! p)) k of
               None \<Rightarrow> GetLatest (versionStore tm) k
             | Some v \<Rightarrow> if vv_DeletedBy v \<noteq> 0 then None else Some (vv_Value v))
       else GetLatest (versionStore tm) k)"
  using inv p
proof (cases rule: Commit_cases[where now = now])
  case success
  define tm' where tm': "tm' = snd (Commit now p tm)"
  from Commit_store_success[OF inv p n success(1,4,5) tm'] obtain ws
    where dist: "distinct (map fst ws)"
      and ws: "ws = stamp (nextVersion tm + 1) now (txn_WriteSet (txn_heap tm ! p))"
      and vs': "versionStore tm' = fold (\<lambda>(k, v). vs_Put k v) ws (versionStore tm)"
      and nv: "nextVersion tm < nextVersion tm'" "nextVersion tm' = nextVersion tm + 1" by metis
  have "mvcc_inv (Suc n) (tm', sv)"
    unfolding tm' by (rule mvcc_inv_commit[OF inv p n success(1,2,4,5)])
  note ok = store_ok_mono[OF mvcc_invE(2)[OF inv] order_less_imp_le[OF nv(1)]]
    and ok' = mvcc_invE(2)[OF this]
  show ?thesis
    unfolding tm'[symmetric] GetLatest_def2[OF ok'] GetLatest_def2[OF ok]
    unfolding vs' mvs.get_fold_put[OF dist]
    using success(3) nv(2) by (auto simp: ws split: option.splits)
qed simp_all

lemma ops_store [simp]:
  "versionStore (snd (Begin now tm)) = versionStore tm" "nextVersion (snd (Begin now tm)) = nextVersion tm"
  "versionStore (snd (Abort p tm)) = versionStore tm" "nextVersion (snd (Abort p tm)) = nextVersion tm"
  "versionStore (snd (txn_Read p k tm)) = versionStore tm" "nextVersion (snd (txn_Read p k tm)) = nextVersion tm"
  "versionStore (snd (txn_Write p k v tm)) = versionStore tm" "nextVersion (snd (txn_Write p k v tm)) = nextVersion tm"
  "versionStore (snd (txn_Delete p k tm)) = versionStore tm" "nextVersion (snd (txn_Delete p k tm)) = nextVersion tm"
  "versionStore (SetReadSet p rs tm) = versionStore tm" "nextVersion (SetReadSet p rs tm) = nextVersion tm"
  "versionStore (SetWriteSet p ws tm) = versionStore tm" "nextVersion (SetWriteSet p ws tm) = nextVersion tm"
  by (simp_all add: Begin_def Abort_def txn_Read_def txn_Write_def txn_Delete_def Let_def
      SetReadSet_def SetWriteSet_def split: option.splits)

lemma exec_same_store:
  assumes "\<forall>now p. op \<noteq> OpCommit now p" "op \<noteq> OpGC"
  shows "versionStore (fst (mvcc_exec op (tm, sv))) = versionStore tm"
    and "nextVersion (fst (mvcc_exec op (tm, sv))) = nextVersion tm"
  using assms by (cases op; simp split: prod.splits)+

text \<open>No operation drops a transaction object or moves its snapshot.\<close>

definition heap_le :: "Transaction list \<Rightarrow> Transaction list \<Rightarrow> bool" where
  "heap_le h h' \<longleftrightarrow> length h \<le> length h' \<and>
     (\<forall>p < length h. txn_ReadVersion (h' ! p) = txn_ReadVersion (h ! p))"

lemma heap_le_refl [simp]: "heap_le h h"
  by (simp add: heap_le_def)

lemma heap_le_trans: "heap_le a b \<Longrightarrow> heap_le b c \<Longrightarrow> heap_le a c"
  by (simp add: heap_le_def)

lemma heap_le_update: "txn_ReadVersion t = txn_ReadVersion (h ! p) \<Longrightarrow> heap_le h (h[p := t])"
  by (cases "p < length h") (auto simp: heap_le_def nth_list_update)

lemma ops_heap:
  "heap_le (txn_heap tm) (txn_heap (snd (Begin now tm)))"
  "heap_le (txn_heap tm) (txn_heap (snd (Commit now p tm)))"
  "heap_le (txn_heap tm) (txn_heap (snd (Abort p tm)))"
  "heap_le (txn_heap tm) (txn_heap (snd (txn_Read p k tm)))"
  "heap_le (txn_heap tm) (txn_heap (snd (txn_Write p k v tm)))"
  "heap_le (txn_heap tm) (txn_heap (snd (txn_Delete p k tm)))"
  "heap_le (txn_heap tm) (txn_heap (maybeGarbageCollect tm))"
  "heap_le (txn_heap tm) (txn_heap (SetReadSet p rs tm))"
  "heap_le (txn_heap tm) (txn_heap (SetWriteSet p ws tm))"
  by (simp_all add: Commit_def Abort_def txn_Read_def txn_Write_def txn_Delete_def Let_def
      maybeGarbageCollect_def SetReadSet_def SetWriteSet_def heap_le_update split: option.splits)
    (simp add: Begin_def Let_def heap_le_def nth_append)

lemma exec_heap: "heap_le (txn_heap tm) (txn_heap (fst (mvcc_exec op (tm, sv))))"
  using heap_le_trans[OF ops_heap(9) ops_heap(8)]
  by (cases op) (auto simp: ops_heap split: prod.splits)

lemma run_heap: "heap_le (txn_heap (fst s)) (txn_heap (fst (mvcc_run ops s)))"
proof (induction ops arbitrary: s)
  case (Cons op ops)
  have "heap_le (txn_heap (fst s)) (txn_heap (fst (mvcc_exec op s)))"
    using exec_heap[of "fst s" op "snd s"] by simp
  from heap_le_trans[OF this Cons.IH[of "mvcc_exec op s"]] show ?case by (simp add: mvcc_run_def)
qed (simp add: mvcc_run_def)

lemma exec_snapshot:
  assumes inv: "mvcc_inv n (tm, sv)" and n: "n < 2 ^ 64 - 2" and snap: "snap \<le> nextVersion tm"
    and tm': "tm' = fst (mvcc_exec op (tm, sv))"
  shows "nextVersion tm \<le> nextVersion tm' \<and>
    GetLatestVersion (versionStore tm) k \<le> GetLatestVersion (versionStore tm') k \<and>
    (GetVersion (versionStore tm') k snap = GetVersion (versionStore tm) k snap \<or>
     op = OpGC \<and> snap < GetLatestVersion (versionStore tm) k \<and> GetVersion (versionStore tm') k snap = None)"
proof (cases op)
  case (OpCommit now p)
  with Commit_store[OF inv _ n snap refl] show ?thesis unfolding tm' by auto
next
  case OpGC
  with GetVersion_GarbageCollect[OF mvcc_invE(2)[OF inv]] show ?thesis
    unfolding tm' by (auto simp: maybeGarbageCollect_def)
qed (use exec_same_store[of op tm sv] in \<open>auto simp: tm'\<close>)

lemma run_snapshot:
  assumes "mvcc_inv n s" "n + length ops \<le> 2 ^ 64 - 2" "snap \<le> nextVersion (fst s)"
    and "s' = mvcc_run ops s"
  shows "GetLatestVersion (versionStore (fst s)) k \<le> GetLatestVersion (versionStore (fst s')) k \<and>
    (GetVersion (versionStore (fst s')) k snap = GetVersion (versionStore (fst s)) k snap \<or>
     OpGC \<in> set ops \<and> snap < GetLatestVersion (versionStore (fst s')) k \<and>
     GetVersion (versionStore (fst s')) k snap = None)"
  using assms
proof (induction ops arbitrary: n s)
  case (Cons op ops)
  obtain tm sv where s: "s = (tm, sv)" by (cases s)
  define s1 where "s1 = mvcc_exec op s"
  have n: "n < 2 ^ 64 - 2" "Suc n + length ops \<le> 2 ^ 64 - 2" using Cons.prems(2) by simp_all
  note step = exec_snapshot[OF Cons.prems(1)[unfolded s] n(1) _ refl, of snap op k, folded s s1_def]
  have snap: "snap \<le> nextVersion tm" using Cons.prems(3) s by simp
  have "mvcc_inv (Suc n) s1" unfolding s1_def by (rule mvcc_inv_exec[OF Cons.prems(1) n(1)])
  moreover have "s' = mvcc_run ops s1" using Cons.prems(4) by (simp add: mvcc_run_def s1_def)
  ultimately have "GetLatestVersion (versionStore (fst s1)) k \<le> GetLatestVersion (versionStore (fst s')) k \<and>
    (GetVersion (versionStore (fst s')) k snap = GetVersion (versionStore (fst s1)) k snap \<or>
     OpGC \<in> set ops \<and> snap < GetLatestVersion (versionStore (fst s')) k \<and>
     GetVersion (versionStore (fst s')) k snap = None)"
    using step[OF snap] snap n(2) by (intro Cons.IH) auto
  with step[OF snap] s show ?case by force
qed (simp add: mvcc_run_def)

text \<open>
  C1. First committer wins. In every interleaving of up to \<open>2\<^sup>6\<^sup>4 - 2\<close> operations of any number
  of clients, background collections and savepoint rollbacks included, two different
  transactions that both committed a write of the same key did not run concurrently: the
  version one of them wrote was already in the other's snapshot.
\<close>

theorem first_committer_wins:
  assumes "length ops \<le> 2 ^ 64 - 2"
    and "(tm, sv) = mvcc_run ops mvcc_init"
    and "p < length (txn_heap tm)" "q < length (txn_heap tm)" "p \<noteq> q"
    and "txn_State (txn_heap tm ! p) = TxnStateCommitted" "txn_State (txn_heap tm ! q) = TxnStateCommitted"
    and "map_of (txn_WriteSet (txn_heap tm ! p)) k = Some v" "map_of (txn_WriteSet (txn_heap tm ! q)) k = Some w"
  shows "vv_Version v \<le> txn_ReadVersion (txn_heap tm ! q) \<or> vv_Version w \<le> txn_ReadVersion (txn_heap tm ! p)"
proof -
  have "mvcc_inv (length ops) (tm, sv)"
    using mvcc_inv_run[OF mvcc_inv_init] assms(1,2) by simp
  with assms(3-9) show ?thesis unfolding mvcc_inv_def disjoint_commits_def by blast
qed

definition two_writers :: "mvcc_op list" where
  "two_writers =
     [OpBegin 10, OpBegin 11, OpWrite 0 ''k'' (GInt32 1), OpRead 1 ''k'', OpWrite 1 ''k'' (GInt32 2),
      OpCommit 12 0, OpCommit 13 1, OpGC, OpBegin 14, OpRead 2 ''k'', OpWrite 2 ''k'' (GInt32 3),
      OpCommit 15 2]"

lemmas mvcc_eval = mvcc_run_def NewTransactionManager_def NewVersionStore_def Begin_def Commit_def
  Abort_def txn_Read_def txn_Write_def txn_Delete_def maybeGarbageCollect_def min_read_version_def
  read_conflict_def write_conflict_def stamp_def vs_Put_def GetVersion_def GetLatest_def
  GetLatestVersion_def GarbageCollect_def Let_def

abbreviation run_heap_of :: "mvcc_op list \<Rightarrow> Transaction list" where
  "run_heap_of ops \<equiv> txn_heap (fst (mvcc_run ops mvcc_init))"

theorem first_committer_wins_witness:
  "map txn_State (run_heap_of two_writers) = [TxnStateCommitted, TxnStateActive, TxnStateCommitted] \<and>
   (vv_Version (the (map_of (txn_WriteSet (run_heap_of two_writers ! 0)) ''k''))
      \<le> txn_ReadVersion (run_heap_of two_writers ! 2) \<or>
    vv_Version (the (map_of (txn_WriteSet (run_heap_of two_writers ! 2)) ''k''))
      \<le> txn_ReadVersion (run_heap_of two_writers ! 0))"
proof
  show "map txn_State (run_heap_of two_writers) = [TxnStateCommitted, TxnStateActive, TxnStateCommitted]"
    by (simp add: two_writers_def mvcc_eval)
  show "vv_Version (the (map_of (txn_WriteSet (run_heap_of two_writers ! 0)) ''k''))
      \<le> txn_ReadVersion (run_heap_of two_writers ! 2) \<or>
    vv_Version (the (map_of (txn_WriteSet (run_heap_of two_writers ! 2)) ''k''))
      \<le> txn_ReadVersion (run_heap_of two_writers ! 0)"
    by (rule first_committer_wins[where ops = two_writers and k = "''k''"
        and sv = "snd (mvcc_run two_writers mvcc_init)"])
      (simp_all add: two_writers_def mvcc_eval)
qed

text \<open>
  C2. Snapshot reads. Take any interleaving, let a transaction begin, and let any further
  interleaving follow, up to \<open>2\<^sup>6\<^sup>4 - 2\<close> operations in all. While the transaction is active, a
  read of a key it has not written itself returns exactly what was committed when it began,
  whatever committed since; the one exception is a background collection, after which a key
  that was overwritten in the meantime may read as not found. A read never returns a value
  from after the snapshot.
\<close>

theorem snapshot_read:
  assumes "length ops1 + length ops2 + 1 \<le> 2 ^ 64 - 2"
    and "mvcc_run ops1 mvcc_init = (tm0, sv)"
    and "Begin now tm0 = (p, tm1)"
    and "mvcc_run ops2 (tm1, sv) = (tm2, sv2)"
    and "txn_State (txn_heap tm2 ! p) = TxnStateActive"
    and "map_of (txn_WriteSet (txn_heap tm2 ! p)) k = None"
  shows "fst (txn_Read p k tm2) = Inr (GetLatest (versionStore tm0) k) \<or>
    OpGC \<in> set ops2 \<and> txn_ReadVersion (txn_heap tm2 ! p) < GetLatestVersion (versionStore tm2) k \<and>
    fst (txn_Read p k tm2) = Inr None"
proof -
  have inv0: "mvcc_inv (length ops1) (tm0, sv)"
    using mvcc_inv_run[OF mvcc_inv_init, of ops1] assms(1,2) by simp
  have tm1: "tm1 = snd (Begin now tm0)" using assms(3) by simp
  have inv1: "mvcc_inv (length ops1) (tm1, sv)" unfolding tm1 by (rule mvcc_inv_Begin[OF inv0])
  have p: "p < length (txn_heap tm1)" "txn_ReadVersion (txn_heap tm1 ! p) = nextVersion tm0"
    using assms(3) by (auto simp: Begin_def Let_def)
  with run_heap[of "(tm1, sv)" ops2] assms(4)
  have rv: "txn_ReadVersion (txn_heap tm2 ! p) = nextVersion tm0" by (simp add: heap_le_def)
  have "GetVersion (versionStore tm1) k (nextVersion tm0) = GetLatest (versionStore tm0) k"
    using GetLatest_def2[OF mvcc_invE(2)[OF inv0]] tm1 by simp
  moreover have "fst (txn_Read p k tm2) = Inr (GetVersion (versionStore tm2) k (nextVersion tm0))"
    using assms(5,6) rv by (simp add: txn_Read_def Let_def)
  ultimately show ?thesis
    using run_snapshot[OF inv1 _ _ assms(4)[symmetric], of "nextVersion tm0" k] assms(1) tm1 rv by simp
qed

theorem snapshot_read_witness:
  "fst (txn_Read 1 ''k'' (fst (mvcc_run [OpBegin 3, OpWrite 2 ''k'' (GInt32 9), OpCommit 4 2]
       (snd (Begin 2 (fst (mvcc_run [OpBegin 0, OpWrite 0 ''k'' (GInt32 7), OpCommit 1 0] mvcc_init))),
        [])))) = Inr (Some (GInt32 7))"
  using snapshot_read[of "[OpBegin 0, OpWrite 0 ''k'' (GInt32 7), OpCommit 1 0]"
      "[OpBegin 3, OpWrite 2 ''k'' (GInt32 9), OpCommit 4 2]" _ "[]" 2 1 _ _ "[]" "''k''"]
  by (simp add: mvcc_eval)

subsection \<open>The committed state\<close>

text \<open>
  The specification of the committed state: the write sets of the commits that succeeded, in
  commit order, applied to an empty database.
\<close>

fun commit_log :: "mvcc_op list \<Rightarrow> mvcc_sys \<Rightarrow> write_set list" where
  "commit_log [] s = []"
| "commit_log (op # ops) s =
     (case op of
        OpCommit now p \<Rightarrow>
          if p < length (txn_heap (fst s)) \<and> fst (Commit now p (fst s)) = None
          then [txn_WriteSet (txn_heap (fst s) ! p)] else []
      | _ \<Rightarrow> []) @ commit_log ops (mvcc_exec op s)"

definition apply_writes :: "write_set \<Rightarrow> (string \<Rightarrow> gval option) \<Rightarrow> string \<Rightarrow> gval option" where
  "apply_writes ws db = (\<lambda>k. case map_of ws k of
     None \<Rightarrow> db k
   | Some v \<Rightarrow> if vv_DeletedBy v \<noteq> 0 then None else Some (vv_Value v))"

lemma exec_GetLatest:
  assumes "mvcc_inv n s" "n < 2 ^ 64 - 2"
  shows "GetLatest (versionStore (fst (mvcc_exec op s)))
    = fold apply_writes (commit_log [op] s) (GetLatest (versionStore (fst s)))"
proof -
  obtain tm sv where s: "s = (tm, sv)" by (cases s)
  show ?thesis
  proof (cases op)
    case (OpCommit now p)
    then show ?thesis
      using Commit_GetLatest[OF assms(1)[unfolded s] _ assms(2), of p now] s
      by (auto simp: apply_writes_def fun_eq_iff)
  next
    case OpGC
    then show ?thesis using s by (auto simp: maybeGarbageCollect_def fun_eq_iff)
  qed (use exec_same_store[of op tm sv] s in auto)
qed

lemma run_GetLatest:
  assumes "mvcc_inv n s" "n + length ops \<le> 2 ^ 64 - 2"
  shows "GetLatest (versionStore (fst (mvcc_run ops s)))
    = fold apply_writes (commit_log ops s) (GetLatest (versionStore (fst s)))"
  using assms
proof (induction ops arbitrary: n s)
  case (Cons op ops)
  have n: "n < 2 ^ 64 - 2" "Suc n + length ops \<le> 2 ^ 64 - 2" using Cons.prems(2) by simp_all
  from Cons.IH[OF mvcc_inv_exec[OF Cons.prems(1) n(1)] n(2)] exec_GetLatest[OF Cons.prems(1) n(1)]
  show ?case by (simp add: mvcc_run_def)
qed (simp add: mvcc_run_def)

text \<open>
  C3. Atomic commits. After any interleaving the latest committed value of every key is the
  one that applying the write sets of the successful commits, whole and in commit order, to
  an empty database gives. Active, aborted and conflicting transactions, reads, savepoint
  rollbacks and collections leave no trace in it.
\<close>

theorem committed_state_is_serial:
  assumes "length ops \<le> 2 ^ 64 - 2"
  shows "GetLatest (versionStore (fst (mvcc_run ops mvcc_init)))
    = fold apply_writes (commit_log ops mvcc_init) (\<lambda>k. None)"
  using run_GetLatest[OF mvcc_inv_init, of ops] assms
  by (simp add: NewTransactionManager_def NewVersionStore_def GetLatest_def[abs_def])

theorem committed_state_is_serial_witness:
  "GetLatest (versionStore (fst (mvcc_run two_writers mvcc_init))) ''k'' = Some (GInt32 3)"
proof -
  have log: "map (map (\<lambda>(k, v). (k, vv_Value v))) (commit_log two_writers mvcc_init)
      = [[(''k'', GInt32 1)], [(''k'', GInt32 3)]]"
    by (simp add: two_writers_def mvcc_eval)
  have "GetLatest (versionStore (fst (mvcc_run two_writers mvcc_init)))
    = fold apply_writes (commit_log two_writers mvcc_init) (\<lambda>k. None)"
    by (rule committed_state_is_serial) (simp add: two_writers_def)
  then show ?thesis
    by (simp add: two_writers_def mvcc_eval apply_writes_def)
qed

text \<open>
  C20. What \<^verbatim>\<open>Commit\<close> returns, on every branch. In every reachable state: a transaction that is
  not active gets \<^verbatim>\<open>ErrTransactionNotActive\<close>; an active one gets \<^verbatim>\<open>ErrConflict\<close> exactly when some
  key it wrote has a version committed after its snapshot, and stays active with nothing
  changed; otherwise it commits, and its writes become the latest values.
\<close>

theorem commit_outcome:
  assumes "length ops < 2 ^ 64 - 2" "mvcc_run ops mvcc_init = (tm, sv)" "p < length (txn_heap tm)"
  defines "t \<equiv> txn_heap tm ! p"
  shows "Commit now p tm =
    (if txn_State t \<noteq> TxnStateActive then (Some ErrTransactionNotActive, tm)
     else if list_ex (\<lambda>(k, v). txn_ReadVersion t < GetLatestVersion (versionStore tm) k) (txn_WriteSet t)
     then (Some ErrConflict, tm)
     else (None, snd (Commit now p tm))) \<and>
    (fst (Commit now p tm) = None \<longrightarrow>
       txn_State (txn_heap (snd (Commit now p tm)) ! p) = TxnStateCommitted \<and>
       GetLatest (versionStore (snd (Commit now p tm)))
         = apply_writes (txn_WriteSet t) (GetLatest (versionStore tm)))"
proof -
  have inv: "mvcc_inv (length ops) (tm, sv)"
    using mvcc_inv_run[OF mvcc_inv_init, of ops] assms(1,2) by simp
  have wf: "wf_map (txn_WriteSet t)"
    using mvcc_invE(3)[OF inv assms(3)] by (simp add: txn_ok_def t_def)
  then have ex: "list_ex (\<lambda>(k, v). txn_ReadVersion t < GetLatestVersion (versionStore tm) k) (txn_WriteSet t)
    \<longleftrightarrow> (\<exists>k v. map_of (txn_WriteSet t) k = Some v \<and> txn_ReadVersion t < GetLatestVersion (versionStore tm) k)"
    by (auto simp: list_ex_iff map_of_wf_mem) blast
  from inv assms(3) show ?thesis
  proof (cases rule: Commit_cases[where now = now])
    case success
    then have "\<not> list_ex (\<lambda>(k, v). txn_ReadVersion t < GetLatestVersion (versionStore tm) k) (txn_WriteSet t)"
      unfolding ex by (auto simp: t_def not_less)
    moreover have "GetLatest (versionStore (snd (Commit now p tm)))
         = apply_writes (txn_WriteSet t) (GetLatest (versionStore tm))"
      using Commit_GetLatest[OF inv assms(3), of now] assms(1) success(3)
      by (auto simp: apply_writes_def t_def fun_eq_iff)
    moreover have "txn_State (txn_heap (snd (Commit now p tm)) ! p) = TxnStateCommitted"
      using assms(3) by (simp add: Commit_success[OF success(1,4,5) refl])
    ultimately show ?thesis
      using success(1,3) by (simp add: t_def prod_eq_iff)
  qed (use ex in \<open>auto simp: t_def\<close>)
qed

theorem commit_outcome_witness:
  "fst (Commit 20 1 (fst (mvcc_run two_writers mvcc_init))) = Some ErrConflict"
  using commit_outcome[of two_writers _ "[]" 1 20]
  by (simp add: two_writers_def mvcc_eval)

text \<open>
  C26. The collector can take a version an open snapshot still needs: for any active
  transaction and key, when the key's head version is newer than the snapshot and the other
  versions are below the bound the collector computes (which it takes from the snapshots, not
  from the versions they see), the key reads as not found once the collector has run.
\<close>

theorem gc_drops_visible_version:
  assumes "txn_State (txn_heap tm ! p) = TxnStateActive"
    and "map_of (txn_WriteSet (txn_heap tm ! p)) k = None"
    and "map_of (versionStore tm) k = Some (h # rest)"
    and "txn_ReadVersion (txn_heap tm ! p) < vv_Version h"
    and "\<forall>v \<in> set rest. vv_Version v < min_read_version tm"
  shows "fst (txn_Read p k (maybeGarbageCollect tm)) = Inr None"
proof -
  have "gc_loop (min_read_version tm) rest = []"
    using assms(5) by (auto simp: gc_loop_filter filter_empty_conv not_le)
  then show ?thesis
    using assms(1-4)
    by (simp add: txn_Read_def Let_def maybeGarbageCollect_def GetVersion_def map_of_GarbageCollect
        gc_chain_eq not_le)
qed

definition lost_snapshot :: "mvcc_op list" where
  "lost_snapshot =
     [OpBegin 0, OpWrite 0 ''k'' (GInt32 7), OpCommit 1 0,
      OpBegin 2, OpWrite 1 ''j'' (GInt32 8), OpCommit 3 1,
      OpBegin 4,
      OpBegin 5, OpWrite 3 ''k'' (GInt32 9), OpCommit 6 3]"

theorem gc_drops_visible_version_witness:
  "fst (txn_Read 2 ''k'' (fst (mvcc_run lost_snapshot mvcc_init))) = Inr (Some (GInt32 7)) \<and>
   fst (txn_Read 2 ''k'' (maybeGarbageCollect (fst (mvcc_run lost_snapshot mvcc_init)))) = Inr None"
proof
  show "fst (txn_Read 2 ''k'' (fst (mvcc_run lost_snapshot mvcc_init))) = Inr (Some (GInt32 7))"
    by (simp add: lost_snapshot_def mvcc_eval)
  let ?c = "the (map_of (versionStore (fst (mvcc_run lost_snapshot mvcc_init))) ''k'')"
  show "fst (txn_Read 2 ''k'' (maybeGarbageCollect (fst (mvcc_run lost_snapshot mvcc_init)))) = Inr None"
    by (rule gc_drops_visible_version[where h = "hd ?c" and rest = "tl ?c"])
      (simp_all add: lost_snapshot_def mvcc_eval)
qed

end
