(* ===== verification/LruCache.thy ===== *)
theory LruCache
  imports Document
begin

text \<open>
  \<^verbatim>\<open>pkg/cache/lru.go\<close>: the LRU cache with expiry. A cache entry is known by its key, so the
  recency list (\<^verbatim>\<open>container/list\<close>) is the list of keys, front first. The record \<open>lru\<close> holds what
  an \<^verbatim>\<open>LRUCache\<close> and a shard of \<^verbatim>\<open>pkg/concurrent/sharded_lru.go\<close> have in common, since their
  methods are the same statements; the time to live and the clock are arguments.
  The specification is one list of live entries, most recent first. The locale \<open>recency_cache\<close>
  is what the sharded cache relies on.
\<close>

subsection \<open>The cache\<close>

record cache_entry =
  ce_Value :: gval
  ce_ExpiresAt :: int

record lru =
  lru_items :: "(string \<times> cache_entry) list"
  lruList :: "string list"
  lru_capacity :: int
  lru_hits :: u64
  lru_misses :: u64
  lru_evictions :: u64

definition NewLRUCache :: "int \<Rightarrow> lru" where
  "NewLRUCache capacity = \<lparr>lru_items = [], lruList = [], lru_capacity = capacity,
     lru_hits = 0, lru_misses = 0, lru_evictions = 0\<rparr>"

definition removeElement :: "string \<Rightarrow> lru \<Rightarrow> lru" where
  "removeElement k c = c\<lparr>lruList := remove1 k (lruList c)\<rparr>"

definition MoveToFront :: "string \<Rightarrow> lru \<Rightarrow> lru" where
  "MoveToFront k c = c\<lparr>lruList := k # remove1 k (lruList c)\<rparr>"

definition lru_Get :: "int \<Rightarrow> string \<Rightarrow> lru \<Rightarrow> gval option \<times> lru" where
  "lru_Get now key c =
     (case map_of (lru_items c) key of
        None \<Rightarrow> (None, c\<lparr>lru_misses := lru_misses c + 1\<rparr>)
      | Some entry \<Rightarrow>
          if now > ce_ExpiresAt entry then
            (None, (removeElement key c)\<lparr>lru_items := AList.delete key (lru_items c),
                     lru_misses := lru_misses c + 1\<rparr>)
          else (Some (ce_Value entry), (MoveToFront key c)\<lparr>lru_hits := lru_hits c + 1\<rparr>))"

definition evictOldest :: "lru \<Rightarrow> lru" where
  "evictOldest c =
     (if lruList c = [] then c
      else let k = last (lruList c) in
        (removeElement k c)\<lparr>lru_items := AList.delete k (lru_items c),
           lru_evictions := lru_evictions c + 1\<rparr>)"

definition lru_Put :: "int \<Rightarrow> int \<Rightarrow> string \<Rightarrow> gval \<Rightarrow> lru \<Rightarrow> lru" where
  "lru_Put now ttl key v c =
     (let entry = \<lparr>ce_Value = v, ce_ExpiresAt = now + ttl\<rparr>;
          c' = c\<lparr>lru_items := AList.update key entry (lru_items c)\<rparr>
      in if map_of (lru_items c) key \<noteq> None then MoveToFront key c'
         else let c'' = c'\<lparr>lruList := key # lruList c\<rparr> in
           if int (length (lruList c'')) > lru_capacity c then evictOldest c'' else c'')"

definition lru_Clear :: "lru \<Rightarrow> lru" where
  "lru_Clear c = c\<lparr>lru_items := [], lruList := []\<rparr>"

definition lru_Size :: "lru \<Rightarrow> nat" where
  "lru_Size c = length (lru_items c)"

fun cleanup_loop :: "int \<Rightarrow> (string \<times> cache_entry) list \<Rightarrow> lru \<Rightarrow> nat \<times> lru" where
  "cleanup_loop now [] c = (0, c)"
| "cleanup_loop now ((key, entry) # rest) c =
     (if now > ce_ExpiresAt entry then
        (case cleanup_loop now rest
            ((removeElement key c)\<lparr>lru_items := AList.delete key (lru_items c)\<rparr>) of
           (n, c') \<Rightarrow> (Suc n, c'))
      else cleanup_loop now rest c)"

definition CleanupExpired :: "int \<Rightarrow> lru \<Rightarrow> nat \<times> lru" where
  "CleanupExpired now c = cleanup_loop now (lru_items c) c"

subsection \<open>Invariant and specification\<close>

definition lru_ok :: "lru \<Rightarrow> bool" where
  "lru_ok c \<longleftrightarrow> wf_map (lru_items c) \<and> distinct (lruList c) \<and>
     set (lruList c) = fst ` set (lru_items c) \<and>
     int (length (lruList c)) \<le> max 0 (lru_capacity c)"

type_synonym recency = "(string \<times> cache_entry) list"

definition contents :: "lru \<Rightarrow> recency" where
  "contents c = map (\<lambda>k. (k, the (map_of (lru_items c) k))) (lruList c)"

definition without :: "string \<Rightarrow> recency \<Rightarrow> recency" where
  "without k xs = filter (\<lambda>p. fst p \<noteq> k) xs"

definition spec_get :: "int \<Rightarrow> string \<Rightarrow> recency \<Rightarrow> gval option \<times> recency" where
  "spec_get now k xs =
     (case map_of xs k of
        None \<Rightarrow> (None, xs)
      | Some e \<Rightarrow> if now > ce_ExpiresAt e then (None, without k xs)
                  else (Some (ce_Value e), (k, e) # without k xs))"

definition spec_put :: "int \<Rightarrow> string \<Rightarrow> cache_entry \<Rightarrow> recency \<Rightarrow> recency" where
  "spec_put cap k e xs = take (nat cap) ((k, e) # without k xs)"

definition spec_cleanup :: "int \<Rightarrow> recency \<Rightarrow> recency" where
  "spec_cleanup now xs = filter (\<lambda>p. \<not> now > ce_ExpiresAt (snd p)) xs"

lemma remove1_filter: "distinct xs \<Longrightarrow> remove1 k xs = filter (\<lambda>x. x \<noteq> k) xs"
  by (simp add: distinct_remove1_removeAll removeAll_filter_not_eq) (metis)

lemma map_of_contents:
  assumes "lru_ok c"
  shows "map_of (contents c) k = map_of (lru_items c) k"
proof (cases "k \<in> set (lruList c)")
  case True
  then have "map_of (contents c) k = Some (the (map_of (lru_items c) k))"
    by (simp add: contents_def map_of_map_restrict)
  moreover from True assms have "map_of (lru_items c) k \<noteq> None"
    by (simp add: lru_ok_def map_of_eq_None_iff)
  ultimately show ?thesis by simp
next
  case False
  with assms have "map_of (lru_items c) k = None" by (simp add: lru_ok_def map_of_eq_None_iff)
  with False show ?thesis by (simp add: contents_def map_of_map_restrict)
qed

lemma wf_contents: "lru_ok c \<Longrightarrow> wf_map (contents c)"
  by (simp add: wf_map_def contents_def comp_def lru_ok_def)

lemma length_contents [simp]: "length (contents c) = length (lruList c)"
  by (simp add: contents_def)

lemma lru_length: "lru_ok c \<Longrightarrow> length (lru_items c) = length (lruList c)"
  unfolding lru_ok_def wf_map_def
  by (metis distinct_card length_map list.set_map)

text \<open>Removing a key from the map and from the list removes it from the contents.\<close>

lemma contents_remove:
  assumes "distinct (lruList c)" "lruList c' = remove1 k (lruList c)"
    and "\<And>j. j \<noteq> k \<Longrightarrow> map_of (lru_items c') j = map_of (lru_items c) j"
  shows "contents c' = without k (contents c)"
  using assms by (auto simp: contents_def without_def remove1_filter filter_map comp_def intro!: map_cong)

lemma lru_ok_remove:
  assumes "lru_ok c" "lruList c' = remove1 k (lruList c)"
    and "lru_items c' = AList.delete k (lru_items c)" "lru_capacity c' = lru_capacity c"
  shows "lru_ok c'"
proof -
  have "length (remove1 k (lruList c)) \<le> length (lruList c)" by (simp add: length_remove1)
  with assms show ?thesis by (auto simp: lru_ok_def)
qed

lemma lru_ok_front:
  assumes "lru_ok c" "k \<in> set (lruList c)" "lruList c' = k # remove1 k (lruList c)"
    and "wf_map (lru_items c')" "fst ` set (lru_items c') = fst ` set (lru_items c)"
    and "lru_capacity c' = lru_capacity c"
  shows "lru_ok c'"
proof -
  have "length (k # remove1 k (lruList c)) = length (lruList c)"
    using assms(2) length_pos_if_in_set[OF assms(2)] by (simp add: length_remove1)
  then have "int (length (lruList c')) \<le> max 0 (lru_capacity c')"
    using assms(1,3,6) by (simp add: lru_ok_def del: length_Cons)
  with assms show ?thesis by (auto simp: lru_ok_def)
qed

lemma contents_front:
  assumes "lru_ok c" "lruList c' = k # remove1 k (lruList c)" "map_of (lru_items c') k = Some e"
    and "\<And>j. j \<noteq> k \<Longrightarrow> map_of (lru_items c') j = map_of (lru_items c) j"
  shows "contents c' = (k, e) # without k (contents c)"
  using assms
  by (auto simp: lru_ok_def contents_def without_def remove1_filter filter_map comp_def intro!: map_cong)

lemma lru_ok_New [simp]: "lru_ok (NewLRUCache cap)" "contents (NewLRUCache cap) = []"
  by (auto simp: NewLRUCache_def lru_ok_def contents_def)

lemmas lru_parts = removeElement_def MoveToFront_def

subsection \<open>Every operation implements the specification\<close>

lemma in_lruList: "lru_ok c \<Longrightarrow> map_of (lru_items c) k = Some e \<Longrightarrow> k \<in> set (lruList c)"
  by (force simp: lru_ok_def dest!: map_of_SomeD)

lemma lru_Get_spec:
  assumes "lru_ok c"
  shows "lru_ok (snd (lru_Get now k c))"
    and "(fst (lru_Get now k c), contents (snd (lru_Get now k c))) = spec_get now k (contents c)"
proof (atomize (full), cases "map_of (lru_items c) k")
  case None
  with assms show "lru_ok (snd (lru_Get now k c)) \<and>
      (fst (lru_Get now k c), contents (snd (lru_Get now k c))) = spec_get now k (contents c)"
    by (simp add: lru_Get_def spec_get_def map_of_contents) (simp add: lru_ok_def contents_def)
next
  case (Some e)
  note k = in_lruList[OF assms Some]
  let ?c' = "snd (lru_Get now k c)"
  show "lru_ok ?c' \<and> (fst (lru_Get now k c), contents ?c') = spec_get now k (contents c)"
  proof (cases "now > ce_ExpiresAt e")
    case True
    then have "lruList ?c' = remove1 k (lruList c)" "lru_items ?c' = AList.delete k (lru_items c)"
      "lru_capacity ?c' = lru_capacity c" using Some by (simp_all add: lru_Get_def lru_parts)
    then have "lru_ok ?c'" "contents ?c' = without k (contents c)"
      using lru_ok_remove[OF assms, of ?c' k] contents_remove[of c ?c' k] assms
      by (simp_all add: lru_ok_def[of c])
    with True Some assms show ?thesis by (simp add: lru_Get_def spec_get_def map_of_contents)
  next
    case False
    then have c': "lruList ?c' = k # remove1 k (lruList c)" "lru_items ?c' = lru_items c"
      "lru_capacity ?c' = lru_capacity c" using Some by (simp_all add: lru_Get_def lru_parts)
    then have "lru_ok ?c'" using assms by (intro lru_ok_front[OF assms k]) (auto simp: lru_ok_def)
    moreover have "contents ?c' = (k, e) # without k (contents c)"
      using c' Some by (intro contents_front[OF assms]) auto
    ultimately show ?thesis
      using False Some assms by (simp add: lru_Get_def spec_get_def map_of_contents)
  qed
qed

lemma lru_Put_existing:
  assumes "lru_ok c" "map_of (lru_items c) k = Some e0" and c'_def: "c' = lru_Put now ttl k v c"
  shows "lru_ok c' \<and> contents c' = spec_put (lru_capacity c) k \<lparr>ce_Value = v, ce_ExpiresAt = now + ttl\<rparr> (contents c)"
proof -
  let ?e = "\<lparr>ce_Value = v, ce_ExpiresAt = now + ttl\<rparr>"
  note k = in_lruList[OF assms(1,2)]
  have c': "lruList c' = k # remove1 k (lruList c)" "lru_items c' = AList.update k ?e (lru_items c)"
    "lru_capacity c' = lru_capacity c"
    using assms(2) by (simp_all add: c'_def lru_Put_def lru_parts)
  have "k \<in> fst ` set (lru_items c)" using assms(1) k by (simp add: lru_ok_def)
  then have ok: "lru_ok c'" using c' assms(1)
    by (intro lru_ok_front[OF assms(1) k]) (auto simp: lru_ok_def)
  have con: "contents c' = (k, ?e) # without k (contents c)"
    using c' by (intro contents_front[OF assms(1)]) auto
  have "length (contents c') \<le> nat (lru_capacity c)" using ok c' by (auto simp: lru_ok_def)
  then have "take (nat (lru_capacity c)) (contents c') = contents c'" by simp
  then show ?thesis using ok con by (simp add: spec_put_def)
qed

lemma contents_evict:
  assumes "wf_map (lru_items c)" "distinct (lruList c)" "lruList c \<noteq> []"
  shows "contents (evictOldest c) = butlast (contents c)" "lruList (evictOldest c) = butlast (lruList c)"
    "lru_items (evictOldest c) = AList.delete (last (lruList c)) (lru_items c)"
    "lru_capacity (evictOldest c) = lru_capacity c"
proof -
  from assms(3) obtain xs x where xs: "lruList c = xs @ [x]" by (metis append_butlast_last_id)
  then show l: "lruList (evictOldest c) = butlast (lruList c)"
    using assms(2) by (simp add: evictOldest_def lru_parts Let_def remove1_append)
  show i: "lru_items (evictOldest c) = AList.delete (last (lruList c)) (lru_items c)"
    "lru_capacity (evictOldest c) = lru_capacity c"
    using assms(3) by (simp_all add: evictOldest_def lru_parts Let_def)
  show "contents (evictOldest c) = butlast (contents c)"
    using assms(2) by (auto simp: contents_def l i xs)
qed

lemma lru_ok_evict:
  assumes "wf_map (lru_items c)" "distinct (lruList c)" "set (lruList c) = fst ` set (lru_items c)"
    and "lruList c \<noteq> []" "int (length (lruList c)) \<le> max 0 (lru_capacity c) + 1"
  shows "lru_ok (evictOldest c)"
proof -
  from assms(4) obtain xs x where xs: "lruList c = xs @ [x]" by (metis append_butlast_last_id)
  with assms(2,3) have "fst ` set (lru_items c) = insert x (set xs)" "x \<notin> set xs" by auto
  then show ?thesis
    using assms xs unfolding lru_ok_def contents_evict[OF assms(1,2,4)] by auto
qed

lemma lru_Put_new:
  assumes "lru_ok c" "map_of (lru_items c) k = None" and c'_def: "c' = lru_Put now ttl k v c"
  shows "lru_ok c' \<and> contents c' = spec_put (lru_capacity c) k \<lparr>ce_Value = v, ce_ExpiresAt = now + ttl\<rparr> (contents c)"
proof -
  let ?e = "\<lparr>ce_Value = v, ce_ExpiresAt = now + ttl\<rparr>"
  define c1 where "c1 = c\<lparr>lru_items := AList.update k ?e (lru_items c), lruList := k # lruList c\<rparr>"
  have k: "k \<notin> set (lruList c)" using assms(1,2) by (auto simp: lru_ok_def map_of_eq_None_iff)
  have c1: "wf_map (lru_items c1)" "distinct (lruList c1)" "set (lruList c1) = fst ` set (lru_items c1)"
    "lruList c1 \<noteq> []" "lru_capacity c1 = lru_capacity c"
    using assms(1) k by (auto simp: c1_def lru_ok_def)
  have con: "contents c1 = (k, ?e) # without k (contents c)"
  proof -
    have "filter (\<lambda>x. x \<noteq> k) (lruList c) = lruList c" using k by (auto simp: filter_id_conv)
    then show ?thesis using k
      by (auto simp: contents_def c1_def without_def filter_map comp_def intro!: map_cong)
  qed
  have len: "length (contents c1) = Suc (length (lruList c))" by (simp add: c1_def)
  show ?thesis
  proof (cases "int (length (lruList c1)) > lru_capacity c")
    case True
    then have c': "c' = evictOldest c1" using assms(2) by (simp add: c'_def lru_Put_def c1_def Let_def)
    note ev = contents_evict[OF c1(1,2,4)]
    have "length (lruList c) = nat (lru_capacity c)"
      using True assms(1) by (auto simp: lru_ok_def c1_def)
    then have "contents c' = take (nat (lru_capacity c)) (contents c1)"
      using len by (simp add: c' ev(1) butlast_conv_take)
    moreover have "lru_ok c'"
      unfolding c' using c1 assms(1) by (intro lru_ok_evict) (auto simp: lru_ok_def c1_def)
    ultimately show ?thesis using con by (simp add: spec_put_def)
  next
    case False
    then have c': "c' = c1" using assms(2) by (simp add: c'_def lru_Put_def c1_def Let_def)
    then have "take (nat (lru_capacity c)) (contents c1) = contents c1" "lru_ok c'"
      using False c1 by (auto simp: lru_ok_def)
    then show ?thesis using con c' by (simp add: spec_put_def)
  qed
qed

lemma lru_Put_spec:
  assumes "lru_ok c"
  shows "lru_ok (lru_Put now ttl k v c)"
    and "contents (lru_Put now ttl k v c)
      = spec_put (lru_capacity c) k \<lparr>ce_Value = v, ce_ExpiresAt = now + ttl\<rparr> (contents c)"
  using lru_Put_existing[OF assms _ refl] lru_Put_new[OF assms _ refl]
  by (cases "map_of (lru_items c) k"; blast)+

lemma lru_Clear_spec: "lru_ok (lru_Clear c)" "contents (lru_Clear c) = []"
  by (simp_all add: lru_Clear_def lru_ok_def contents_def)

text \<open>The cleanup loop, over any part of the map that has been removed so far.\<close>

lemma cleanup_loop_spec:
  assumes "lru_ok c" "distinct (map fst xs)" "\<forall>(k, e) \<in> set xs. map_of (lru_items c) k = Some e"
  shows "lru_ok (snd (cleanup_loop now xs c)) \<and>
    contents (snd (cleanup_loop now xs c))
      = filter (\<lambda>p. \<not> (p \<in> set xs \<and> now > ce_ExpiresAt (snd p))) (contents c) \<and>
    fst (cleanup_loop now xs c) = length (filter (\<lambda>p. now > ce_ExpiresAt (snd p)) xs)"
  using assms
proof (induction now xs c rule: cleanup_loop.induct)
  case (2 now k e rest c)
  show ?case
  proof (cases "now > ce_ExpiresAt e")
    case True
    define c1 where "c1 = (removeElement k c)\<lparr>lru_items := AList.delete k (lru_items c)\<rparr>"
    have ok: "lru_ok c1" by (rule lru_ok_remove[OF "2.prems"(1)]) (simp_all add: c1_def lru_parts)
    have con: "contents c1 = without k (contents c)"
      by (rule contents_remove) (use "2.prems"(1) in \<open>simp_all add: c1_def lru_parts lru_ok_def\<close>)
    have e: "p \<in> set (contents c) \<Longrightarrow> fst p = k \<Longrightarrow> p = (k, e)" for p
      using "2.prems"(3) by (auto simp: contents_def)
    have "filter (\<lambda>p. \<not> (p \<in> set rest \<and> now > ce_ExpiresAt (snd p))) (without k (contents c))
      = filter (\<lambda>p. \<not> (p \<in> set ((k, e) # rest) \<and> now > ce_ExpiresAt (snd p))) (contents c)"
      unfolding without_def filter_filter
      by (rule filter_cong[OF refl]) (use e True in fastforce)
    moreover have "\<forall>(j, e) \<in> set rest. map_of (lru_items c1) j = Some e"
    proof safe
      fix j e' assume m: "(j, e') \<in> set rest"
      then have "j \<noteq> k" using "2.prems"(2) by (auto simp: rev_image_eqI)
      with m "2.prems"(3) show "map_of (lru_items c1) j = Some e'" by (auto simp: c1_def)
    qed
    moreover have "cleanup_loop now ((k, e) # rest) c
        = (Suc (fst (cleanup_loop now rest c1)), snd (cleanup_loop now rest c1))"
      using True by (simp add: c1_def split: prod.splits)
    moreover note "2.IH"(1)[OF True, folded c1_def, OF ok]
    ultimately show ?thesis
      using True "2.prems"(2) by (simp add: con)
  next
    case False
    then have "filter (\<lambda>p. \<not> (p \<in> set ((k, e) # rest) \<and> now > ce_ExpiresAt (snd p))) (contents c)
        = filter (\<lambda>p. \<not> (p \<in> set rest \<and> now > ce_ExpiresAt (snd p))) (contents c)"
      by (intro filter_cong) auto
    with "2.IH"(2)[OF False "2.prems"(1)] "2.prems"(2,3) False show ?thesis by simp
  qed
qed simp

lemma contents_items: "lru_ok c \<Longrightarrow> set (contents c) = set (lru_items c)"
  using map_of_wf_mem[OF wf_contents] map_of_wf_mem[of "lru_items c"] map_of_contents
  by (auto simp: lru_ok_def[of c])

lemma CleanupExpired_spec:
  assumes "lru_ok c"
  shows "lru_ok (snd (CleanupExpired now c))"
    and "contents (snd (CleanupExpired now c)) = spec_cleanup now (contents c)"
    and "fst (CleanupExpired now c) = length (filter (\<lambda>p. now > ce_ExpiresAt (snd p)) (lru_items c))"
proof -
  have wf: "distinct (map fst (lru_items c))" "\<forall>(k, e) \<in> set (lru_items c). map_of (lru_items c) k = Some e"
    using assms by (auto simp: lru_ok_def wf_map_def)
  note loop = cleanup_loop_spec[OF assms wf, of now, folded CleanupExpired_def]
  show "lru_ok (snd (CleanupExpired now c))"
    and "fst (CleanupExpired now c) = length (filter (\<lambda>p. now > ce_ExpiresAt (snd p)) (lru_items c))"
    using loop by blast+
  have "filter (\<lambda>p. \<not> (p \<in> set (lru_items c) \<and> now > ce_ExpiresAt (snd p))) (contents c)
      = spec_cleanup now (contents c)"
    using contents_items[OF assms] by (auto simp: spec_cleanup_def intro!: filter_cong)
  with loop show "contents (snd (CleanupExpired now c)) = spec_cleanup now (contents c)" by simp
qed

lemma cleanup_capacity: "lru_capacity (snd (cleanup_loop now xs c)) = lru_capacity c"
  by (induction now xs c rule: cleanup_loop.induct) (auto simp: lru_parts split: prod.splits)

lemma lru_capacity_simps:
  "lru_capacity (NewLRUCache cap) = cap"
  "lru_capacity (snd (lru_Get now k c)) = lru_capacity c"
  "lru_capacity (lru_Put now ttl k v c) = lru_capacity c"
  "lru_capacity (lru_Clear c) = lru_capacity c"
  "lru_capacity (snd (CleanupExpired now c)) = lru_capacity c"
  by (auto simp: NewLRUCache_def lru_Get_def lru_Put_def lru_Clear_def CleanupExpired_def
      cleanup_capacity evictOldest_def lru_parts Let_def split: option.splits)

lemma lru_ok_bound: "lru_ok c \<Longrightarrow> int (length (lruList c)) \<le> max 0 (lru_capacity c)"
  by (simp add: lru_ok_def)

subsection \<open>Interface: a recency cache\<close>

text \<open>
  A cache whose observable state is the list of its entries, most recent first. Both the
  plain cache and the shards of the sharded cache provide it.
\<close>

locale recency_cache =
  fixes get :: "int \<Rightarrow> string \<Rightarrow> 's \<Rightarrow> gval option \<times> 's"
    and put :: "int \<Rightarrow> int \<Rightarrow> string \<Rightarrow> gval \<Rightarrow> 's \<Rightarrow> 's"
    and entries :: "'s \<Rightarrow> recency"
    and cap :: "'s \<Rightarrow> int"
    and ok :: "'s \<Rightarrow> bool"
  assumes get_ok: "ok s \<Longrightarrow> ok (snd (get now k s))"
    and get_cap: "cap (snd (get now k s)) = cap s"
    and get_spec: "ok s \<Longrightarrow> (fst (get now k s), entries (snd (get now k s))) = spec_get now k (entries s)"
    and put_ok: "ok s \<Longrightarrow> ok (put now ttl k v s)"
    and put_cap: "cap (put now ttl k v s) = cap s"
    and put_spec: "ok s \<Longrightarrow> entries (put now ttl k v s) =
      spec_put (cap s) k \<lparr>ce_Value = v, ce_ExpiresAt = now + ttl\<rparr> (entries s)"
    and entries_wf: "ok s \<Longrightarrow> wf_map (entries s)"
    and entries_bound: "ok s \<Longrightarrow> int (length (entries s)) \<le> max 0 (cap s)"
begin

lemma get_result: "ok s \<Longrightarrow> fst (get now k s) = fst (spec_get now k (entries s))"
  using get_spec[of s now k] by (metis fst_conv)

lemma get_entries: "ok s \<Longrightarrow> entries (snd (get now k s)) = snd (spec_get now k (entries s))"
  using get_spec[of s now k] by (metis snd_conv)

lemma get_after_put:
  assumes "ok s" "cap s > 0" "now' \<le> now + ttl"
  shows "fst (get now' k (put now ttl k v s)) = Some v"
  using assms by (cases "nat (cap s)") (auto simp: get_result put_ok put_spec spec_put_def spec_get_def)

end

interpretation lruc: recency_cache lru_Get lru_Put contents lru_capacity lru_ok
  by unfold_locales (simp_all add: lru_Get_spec lru_Put_spec wf_contents lru_ok_bound lru_capacity_simps)

subsection \<open>Runs\<close>

datatype lru_op = LGet int string | LPut int string gval | LClear | LCleanup int

fun lru_exec :: "int \<Rightarrow> lru_op \<Rightarrow> lru \<Rightarrow> gval option \<times> lru" where
  "lru_exec ttl (LGet now k) c = lru_Get now k c"
| "lru_exec ttl (LPut now k v) c = (None, lru_Put now ttl k v c)"
| "lru_exec ttl LClear c = (None, lru_Clear c)"
| "lru_exec ttl (LCleanup now) c = (None, snd (CleanupExpired now c))"

fun spec_exec :: "int \<Rightarrow> int \<Rightarrow> lru_op \<Rightarrow> recency \<Rightarrow> gval option \<times> recency" where
  "spec_exec cap ttl (LGet now k) xs = spec_get now k xs"
| "spec_exec cap ttl (LPut now k v) xs =
     (None, spec_put cap k \<lparr>ce_Value = v, ce_ExpiresAt = now + ttl\<rparr> xs)"
| "spec_exec cap ttl LClear xs = (None, [])"
| "spec_exec cap ttl (LCleanup now) xs = (None, spec_cleanup now xs)"

fun lru_run :: "int \<Rightarrow> lru_op list \<Rightarrow> lru \<Rightarrow> gval option list \<times> lru" where
  "lru_run ttl [] c = ([], c)"
| "lru_run ttl (op # ops) c =
     (case lru_exec ttl op c of (r, c') \<Rightarrow>
        case lru_run ttl ops c' of (rs, c'') \<Rightarrow> (r # rs, c''))"

fun spec_run :: "int \<Rightarrow> int \<Rightarrow> lru_op list \<Rightarrow> recency \<Rightarrow> gval option list \<times> recency" where
  "spec_run cap ttl [] xs = ([], xs)"
| "spec_run cap ttl (op # ops) xs =
     (case spec_exec cap ttl op xs of (r, xs') \<Rightarrow>
        case spec_run cap ttl ops xs' of (rs, xs'') \<Rightarrow> (r # rs, xs''))"

lemma lru_exec_spec:
  assumes "lru_ok c"
  shows "lru_ok (snd (lru_exec ttl op c)) \<and> lru_capacity (snd (lru_exec ttl op c)) = lru_capacity c \<and>
    (fst (lru_exec ttl op c), contents (snd (lru_exec ttl op c)))
      = spec_exec (lru_capacity c) ttl op (contents c)"
  using lruc.get_spec[OF assms]
  by (cases op) (simp_all add: assms lru_Get_spec(1) lru_Put_spec lru_Clear_spec CleanupExpired_spec
      lru_capacity_simps)

lemma lru_run_spec:
  assumes "lru_ok c"
  shows "lru_ok (snd (lru_run ttl ops c)) \<and> lru_capacity (snd (lru_run ttl ops c)) = lru_capacity c \<and>
    (fst (lru_run ttl ops c), contents (snd (lru_run ttl ops c)))
      = spec_run (lru_capacity c) ttl ops (contents c)"
  using assms
proof (induction ops arbitrary: c)
  case (Cons op ops)
  obtain r c1 where e: "lru_exec ttl op c = (r, c1)" by (cases "lru_exec ttl op c")
  with lru_exec_spec[OF Cons.prems, of ttl op] have ok: "lru_ok c1" "lru_capacity c1 = lru_capacity c"
    and s: "spec_exec (lru_capacity c) ttl op (contents c) = (r, contents c1)" by simp_all
  from Cons.IH[OF ok(1)] show ?case using ok(2) e s
    by (auto split: prod.splits)
qed simp

text \<open>
  C15. The cache is an LRU list. Any sequence of gets, puts, clears and cleanups on a fresh
  cache of any capacity returns what the one-list specification returns: the entries most
  recent first, moved to the front by a hit or a put, cut at the capacity, dropped when
  expired. The map and the recency list hold the same keys, at most the capacity.
\<close>

theorem lru_cache_refines_recency_list:
  assumes "lru_run ttl ops (NewLRUCache cap) = (rs, c)"
  shows "spec_run cap ttl ops [] = (rs, contents c) \<and>
    map fst (contents c) = lruList c \<and> set (lruList c) = fst ` set (lru_items c) \<and>
    int (lru_Size c) \<le> max 0 cap"
proof -
  have "lru_ok c" "lru_capacity c = cap" "spec_run cap ttl ops [] = (rs, contents c)"
    using lru_run_spec[of "NewLRUCache cap" ttl ops] assms by (auto simp: lru_capacity_simps)
  then show ?thesis using lru_length[of c] by (auto simp: lru_ok_def lru_Size_def contents_def comp_def)
qed

definition lru_trace :: "lru_op list" where
  "lru_trace = [LPut 0 ''a'' (GInt32 1), LPut 1 ''b'' (GInt32 2), LGet 2 ''a'', LPut 3 ''c'' (GInt32 3),
     LGet 4 ''b'', LGet 5 ''a'', LGet 40 ''c'']"

lemmas lru_eval = NewLRUCache_def lru_Get_def lru_Put_def evictOldest_def removeElement_def
  MoveToFront_def lru_Clear_def CleanupExpired_def Let_def

theorem lru_cache_refines_recency_list_witness:
  "fst (lru_run 10 lru_trace (NewLRUCache 2))
     = [None, None, Some (GInt32 1), None, None, Some (GInt32 1), None] \<and>
   fst (spec_run 2 10 lru_trace []) = fst (lru_run 10 lru_trace (NewLRUCache 2))"
proof
  show "fst (lru_run 10 lru_trace (NewLRUCache 2))
     = [None, None, Some (GInt32 1), None, None, Some (GInt32 1), None]"
    by (simp add: lru_trace_def lru_eval)
  show "fst (spec_run 2 10 lru_trace []) = fst (lru_run 10 lru_trace (NewLRUCache 2))"
    using lru_cache_refines_recency_list[of 10 lru_trace 2] by (metis fst_conv surj_pair)
qed

subsection \<open>What a hit returns and what stays cached\<close>

text \<open>The put a hit on \<open>k\<close> may answer from: the last one of \<open>k\<close> since the last clear.\<close>

fun last_put :: "lru_op list \<Rightarrow> string \<Rightarrow> (int \<times> gval) option \<Rightarrow> (int \<times> gval) option" where
  "last_put [] k acc = acc"
| "last_put (LPut now j v # ops) k acc = last_put ops k (if j = k then Some (now, v) else acc)"
| "last_put (LClear # ops) k acc = last_put ops k None"
| "last_put (op # ops) k acc = last_put ops k acc"

text \<open>Every entry of the list comes from the last put of its key.\<close>

definition from_puts :: "int \<Rightarrow> (string \<Rightarrow> (int \<times> gval) option) \<Rightarrow> recency \<Rightarrow> bool" where
  "from_puts ttl lp xs \<longleftrightarrow> (\<forall>(k, e) \<in> set xs. \<exists>t. lp k = Some (t, ce_Value e) \<and> ce_ExpiresAt e = t + ttl)"

lemma from_puts_subset: "from_puts ttl lp xs \<Longrightarrow> set ys \<subseteq> set xs \<Longrightarrow> from_puts ttl lp ys"
  unfolding from_puts_def by blast

lemma without_subset: "set (without k xs) \<subseteq> set xs"
  by (auto simp: without_def)

lemma spec_get_subset: "set (snd (spec_get now k xs)) \<subseteq> set xs"
  using without_subset[of k xs] by (auto simp: spec_get_def split: option.splits dest: map_of_SomeD)

lemma from_puts_put:
  assumes "from_puts ttl lp xs"
  shows "from_puts ttl (lp(k := Some (now, v))) (spec_put cap k \<lparr>ce_Value = v, ce_ExpiresAt = now + ttl\<rparr> xs)"
proof -
  have "from_puts ttl (lp(k := Some (now, v))) ((k, \<lparr>ce_Value = v, ce_ExpiresAt = now + ttl\<rparr>) # without k xs)"
    using assms by (fastforce simp: from_puts_def without_def)
  then show ?thesis unfolding spec_put_def by (rule from_puts_subset) (rule set_take_subset)
qed

lemma from_puts_run:
  "from_puts ttl lp xs \<Longrightarrow> from_puts ttl (\<lambda>k. last_put ops k (lp k)) (snd (spec_run cap ttl ops xs))"
proof (induction ops arbitrary: lp xs)
  case (Cons op ops)
  obtain lp' where lp': "\<And>k. last_put (op # ops) k (lp k) = last_put ops k (lp' k)"
    and ok: "from_puts ttl lp' (snd (spec_exec cap ttl op xs))"
  proof (cases op)
    case (LGet now k)
    then show ?thesis using that[of lp] Cons.prems from_puts_subset[OF _ spec_get_subset] by simp
  next
    case (LPut now k v)
    then show ?thesis using that[of "lp(k := Some (now, v))"] from_puts_put[OF Cons.prems] by simp
  next
    case LClear
    then show ?thesis using that[of "\<lambda>k. None"] by (simp add: from_puts_def)
  next
    case (LCleanup now)
    then show ?thesis
      using that[of lp] from_puts_subset[OF Cons.prems, of "spec_cleanup now xs"] by (auto simp: spec_cleanup_def)
  qed
  from Cons.IH[OF ok] show ?case by (auto simp: lp' split: prod.splits)
qed simp

text \<open>
  No stale hits. Whatever the sequence of operations, a hit on a key returns the value of
  the last put of that key since the last clear, and only until its time to live is over.
\<close>

theorem lru_hit_is_last_put:
  assumes "lru_run ttl ops (NewLRUCache cap) = (rs, c)" "fst (lru_Get now k c) = Some v"
  shows "\<exists>t. last_put ops k None = Some (t, v) \<and> now \<le> t + ttl"
proof -
  have ok: "lru_ok c" and run: "spec_run cap ttl ops [] = (rs, contents c)"
    using lru_run_spec[of "NewLRUCache cap" ttl ops] assms(1) by (auto simp: lru_capacity_simps)
  have "from_puts ttl (\<lambda>k. last_put ops k None) (contents c)"
    using from_puts_run[of ttl "\<lambda>k. None" "[]" ops cap] run by (simp add: from_puts_def)
  moreover obtain e where e: "map_of (contents c) k = Some e" "v = ce_Value e" "\<not> now > ce_ExpiresAt e"
    using assms(2) ok by (auto simp: lruc.get_result spec_get_def split: option.splits if_splits)
  from e(1) have "(k, e) \<in> set (contents c)" by (rule map_of_SomeD)
  ultimately obtain t where "last_put ops k None = Some (t, ce_Value e)" "ce_ExpiresAt e = t + ttl"
    unfolding from_puts_def by blast
  with e(2,3) show ?thesis by auto
qed

definition hit_trace :: "lru_op list" where
  "hit_trace = [LPut 0 ''a'' (GInt32 1), LPut 3 ''a'' (GInt32 2), LPut 4 ''b'' GNil]"

theorem lru_hit_is_last_put_witness:
  "\<exists>t. last_put hit_trace ''a'' None = Some (t, GInt32 2) \<and> 5 \<le> t + 10"
  by (rule lru_hit_is_last_put[where ttl = 10 and rs = "fst (lru_run 10 hit_trace (NewLRUCache 2))"
      and cap = 2 and c = "snd (lru_run 10 hit_trace (NewLRUCache 2))"])
    (simp_all add: hit_trace_def lru_eval)

text \<open>
  An entry is kept in the list as long as fewer than the capacity of other keys are used;
  \<open>D\<close> collects the keys used since.
\<close>

definition kept :: "string \<Rightarrow> cache_entry \<Rightarrow> string set \<Rightarrow> recency \<Rightarrow> bool" where
  "kept k e D xs \<longleftrightarrow> wf_map xs \<and>
     (\<exists>pre post. xs = pre @ (k, e) # post \<and> fst ` set pre \<subseteq> D)"

lemma wf_without: "wf_map xs \<Longrightarrow> wf_map (without k xs)"
  by (auto simp: wf_map_def without_def distinct_map_filter)

lemma wf_front: "wf_map xs \<Longrightarrow> wf_map ((j, e') # without j xs)"
  using wf_without[of xs j] by (auto simp: wf_map_def without_def)

lemma kept_lookup: "kept k e D xs \<Longrightarrow> map_of xs k = Some e"
  by (auto simp: kept_def wf_map_def map_of_eq_None_iff map_add_def split: option.splits)

lemma kept_without: "kept k e D xs \<Longrightarrow> j \<noteq> k \<Longrightarrow> kept k e D (without j xs)"
  by (auto simp: kept_def wf_without) (fastforce simp: without_def)

lemma kept_front: "kept k e D xs \<Longrightarrow> j \<noteq> k \<Longrightarrow> kept k e (insert j D) ((j, e') # without j xs)"
  using kept_without[of k e D xs j] wf_front[of xs j e']
  by (auto simp: kept_def) (metis (no_types, lifting) Cons_eq_appendI fst_conv image_insert insert_mono list.simps(15))

lemma kept_mono: "kept k e D xs \<Longrightarrow> D \<subseteq> D' \<Longrightarrow> kept k e D' xs"
  unfolding kept_def by blast

lemma kept_take:
  assumes "kept k e D xs" "finite D" "card D < n"
  shows "kept k e D (take n xs)"
proof -
  from assms(1) obtain pre post where xs: "xs = pre @ (k, e) # post" and D: "fst ` set pre \<subseteq> D"
    and wf: "wf_map xs" unfolding kept_def by blast
  have "length pre = card (fst ` set pre)"
    using wf xs distinct_card[of "map fst pre"] by (simp add: wf_map_def)
  also have "\<dots> \<le> card D" by (rule card_mono[OF assms(2) D])
  finally have "take n xs = pre @ (k, e) # take (n - Suc (length pre)) post"
    using assms(3) xs by (simp add: take_Cons' )
  moreover have "wf_map (take n xs)"
    using wf by (auto simp: wf_map_def take_map[symmetric] distinct_take)
  ultimately show ?thesis using D unfolding kept_def by blast
qed

text \<open>The operations that keep \<open>k\<close> alive, and the other keys they use.\<close>

fun used_keys :: "lru_op list \<Rightarrow> string set" where
  "used_keys [] = {}"
| "used_keys (LGet now k # ops) = insert k (used_keys ops)"
| "used_keys (LPut now k v # ops) = insert k (used_keys ops)"
| "used_keys (op # ops) = used_keys ops"

fun leaves :: "int \<Rightarrow> string \<Rightarrow> lru_op \<Rightarrow> bool" where
  "leaves exp k (LGet now j) = (j = k \<longrightarrow> now \<le> exp)"
| "leaves exp k (LPut now j v) = (j \<noteq> k)"
| "leaves exp k LClear = False"
| "leaves exp k (LCleanup now) = (now \<le> exp)"

lemma finite_used_keys [simp]: "finite (used_keys ops)"
  by (induction ops rule: used_keys.induct) auto

lemma kept_head: "wf_map ((k, e) # ys) \<Longrightarrow> kept k e D ((k, e) # ys)"
  unfolding kept_def by (intro conjI exI[of _ "[]"] exI[of _ ys]) auto

lemma kept_hit:
  "kept k e D xs \<Longrightarrow> now \<le> ce_ExpiresAt e \<Longrightarrow> kept k e D (snd (spec_get now k xs))"
  using kept_head[OF wf_front[of xs k e]] by (simp add: kept_lookup spec_get_def) (simp add: kept_def)

lemma kept_cleanup:
  assumes "kept k e D xs" "now \<le> ce_ExpiresAt e"
  shows "kept k e D (spec_cleanup now xs)"
proof -
  from assms obtain pre post where xs: "xs = pre @ (k, e) # post" and D: "fst ` set pre \<subseteq> D"
    and wf: "wf_map xs" unfolding kept_def by blast
  have "spec_cleanup now xs = spec_cleanup now pre @ (k, e) # spec_cleanup now post"
    using xs assms(2) by (simp add: spec_cleanup_def)
  moreover have "fst ` set (spec_cleanup now pre) \<subseteq> D" using D by (auto simp: spec_cleanup_def)
  moreover have "wf_map (spec_cleanup now xs)" using wf by (simp add: wf_map_def spec_cleanup_def distinct_map_filter)
  ultimately show ?thesis unfolding kept_def by blast
qed

lemma kept_exec:
  assumes "kept k e D xs" "finite D" "leaves (ce_ExpiresAt e) k op"
    and "card (D \<union> (used_keys [op] - {k})) < nat cap"
  shows "kept k e (D \<union> (used_keys [op] - {k})) (snd (spec_exec cap ttl op xs))"
proof (cases op)
  case (LGet now j)
  show ?thesis
  proof (cases "j = k")
    case True
    with kept_hit[OF assms(1)] assms(3) LGet show ?thesis by simp
  next
    case False
    with LGet kept_front[OF assms(1) False] kept_mono[OF kept_without[OF assms(1) False]]
      kept_mono[OF assms(1)]
    show ?thesis by (auto simp: spec_get_def subset_insertI split: option.splits)
  qed
next
  case (LPut now j v)
  with assms(3) have j: "j \<noteq> k" by simp
  from kept_take[OF kept_front[OF assms(1) j]] assms(2,4) LPut j show ?thesis
    by (simp add: spec_put_def insert_Diff_if)
next
  case (LCleanup now)
  with kept_cleanup[OF assms(1)] assms(3) show ?thesis by simp
qed (use assms(3) in simp)

lemma kept_run:
  assumes "kept k e D xs" "finite D" "list_all (leaves (ce_ExpiresAt e) k) ops"
    and "card (D \<union> (used_keys ops - {k})) < nat cap"
  shows "\<exists>D'. kept k e D' (snd (spec_run cap ttl ops xs))"
  using assms
proof (induction ops arbitrary: D xs)
  case (Cons op ops)
  let ?D = "D \<union> (used_keys [op] - {k})"
  have uk: "used_keys (op # ops) = used_keys [op] \<union> used_keys ops" by (cases op) auto
  then have un: "D \<union> (used_keys (op # ops) - {k}) = ?D \<union> (used_keys ops - {k})" by auto
  have fin: "finite ?D" using Cons.prems(2) by simp
  have "card ?D < nat cap"
    using Cons.prems(4) card_mono[of "?D \<union> (used_keys ops - {k})" ?D] fin by (simp add: un)
  from kept_exec[OF Cons.prems(1,2) _ this, of ttl] Cons.prems(3)
  have "kept k e ?D (snd (spec_exec cap ttl op xs))" by simp
  from Cons.IH[OF this fin] Cons.prems(3,4) show ?case by (auto simp: un split: prod.splits)
qed auto

lemma spec_run_append:
  "snd (spec_run cap ttl (a @ b) xs) = snd (spec_run cap ttl b (snd (spec_run cap ttl a xs)))"
  by (induction a arbitrary: xs) (auto simp: case_prod_beta)

text \<open>
  C22. What stays cached. In any cache, after a put of a key and then any operations that use
  fewer than the capacity of other keys, do not put or clear the key, and look at the clock
  before the entry expires, a get within the time to live is a hit with the value put.
\<close>

theorem lru_retention:
  assumes "lru_run ttl (ops1 @ [LPut t k v] @ ops2) (NewLRUCache cap) = (rs, c)"
    and "list_all (leaves (t + ttl) k) ops2"
    and "int (card (used_keys ops2 - {k})) < cap"
    and "now \<le> t + ttl"
  shows "fst (lru_Get now k c) = Some v"
proof -
  let ?e = "\<lparr>ce_Value = v, ce_ExpiresAt = t + ttl\<rparr>"
  define c1 where "c1 = snd (lru_run ttl ops1 (NewLRUCache cap))"
  have c1: "lru_ok c1" "snd (spec_run cap ttl ops1 []) = contents c1"
    using lru_run_spec[of "NewLRUCache cap" ttl ops1] by (auto simp: lru_capacity_simps c1_def prod_eq_iff)
  have c: "lru_ok c" "snd (spec_run cap ttl (ops1 @ [LPut t k v] @ ops2) []) = contents c"
    using lru_run_spec[of "NewLRUCache cap" ttl "ops1 @ [LPut t k v] @ ops2"] assms(1)
    by (auto simp: lru_capacity_simps prod_eq_iff)
  have "wf_map ((k, ?e) # without k (contents c1))" by (rule wf_front[OF wf_contents[OF c1(1)]])
  from kept_head[OF this, of "{}"] have "kept k ?e {} (spec_put cap k ?e (contents c1))"
    unfolding spec_put_def by (rule kept_take) (use assms(3) in auto)
  moreover have "card ({} \<union> (used_keys ops2 - {k})) < nat cap" using assms(3) by simp
  ultimately obtain D where "kept k ?e D (snd (spec_run cap ttl ops2 (spec_put cap k ?e (contents c1))))"
    using kept_run[of k ?e "{}" _ ops2 cap ttl] assms(2) by fastforce
  moreover have "snd (spec_run cap ttl ops2 (spec_put cap k ?e (contents c1))) = contents c"
    using c(2) unfolding spec_run_append c1(2) by (simp split: prod.splits)
  ultimately have "map_of (contents c) k = Some ?e" using kept_lookup by simp
  with assms(4) show ?thesis by (simp add: lruc.get_result[OF c(1)] spec_get_def)
qed

theorem lru_retention_witness:
  "fst (lru_Get 9 ''a'' (snd (lru_run 10 ([] @ [LPut 1 ''a'' (GInt32 5)] @
      [LPut 2 ''b'' GNil, LPut 3 ''b'' GNil, LGet 4 ''a'', LPut 5 ''b'' GNil]) (NewLRUCache 2)))) = Some (GInt32 5)"
proof (rule lru_retention)
  let ?ops = "[] @ [LPut 1 ''a'' (GInt32 5)] @ [LPut 2 ''b'' GNil, LPut 3 ''b'' GNil, LGet 4 ''a'', LPut 5 ''b'' GNil]"
  show "lru_run 10 ?ops (NewLRUCache 2)
      = (fst (lru_run 10 ?ops (NewLRUCache 2)), snd (lru_run 10 ?ops (NewLRUCache 2)))" by simp
  show "list_all (leaves (1 + 10) ''a'') [LPut 2 ''b'' GNil, LPut 3 ''b'' GNil, LGet 4 ''a'', LPut 5 ''b'' GNil]"
    by simp
  show "int (card (used_keys [LPut 2 ''b'' GNil, LPut 3 ''b'' GNil, LGet 4 ''a'', LPut 5 ''b'' GNil] - {''a''})) < 2"
    by (simp add: insert_Diff_if)
qed simp

end
