(* ===== verification/ShardedLru.thy ===== *)
theory ShardedLru
  imports LruCache "HOL-Library.Signed_Division"
begin

text \<open>
  \<^verbatim>\<open>pkg/concurrent/sharded_lru.go\<close>: the sharded LRU cache. A shard is the \<open>lru\<close> record, since
  its methods repeat those of \<^verbatim>\<open>pkg/cache/lru.go\<close>; an index out of range and a division by zero
  are the panic \<^term>\<open>None\<close>.
\<close>

unbundle bit_operations_syntax

subsection \<open>Hashing and rounding\<close>

fun fnv32_loop :: "u32 \<Rightarrow> bytes \<Rightarrow> u32" where
  "fnv32_loop hash [] = hash"
| "fnv32_loop hash (b # bs) = (let hash = hash XOR ucast b in let hash = hash * 16777619 in fnv32_loop hash bs)"

definition fnv32 :: "string \<Rightarrow> u32" where
  "fnv32 key = fnv32_loop 2166136261 (str_bytes key)"

definition fnv32a :: "string \<Rightarrow> u32" where
  "fnv32a key = foldl (\<lambda>hash b. (hash XOR ucast b) * 16777619) 2166136261 (str_bytes key)"

definition nextPowerOfTwo :: "u32 \<Rightarrow> u32" where
  "nextPowerOfTwo n =
     (if n = 0 then 1
      else let n = n - 1;
               n = n OR drop_bit 1 n;
               n = n OR drop_bit 2 n;
               n = n OR drop_bit 4 n;
               n = n OR drop_bit 8 n;
               n = n OR drop_bit 16 n
           in n + 1)"

subsection \<open>The cache\<close>

record ShardedLRUCache =
  shards :: "lru list"
  shardMask :: u32
  sh_capacity :: int
  sh_ttl :: int

definition NewShardedLRUCache :: "int \<Rightarrow> int \<Rightarrow> u32 \<Rightarrow> ShardedLRUCache option" where
  "NewShardedLRUCache capacity ttl count =
     (let shardCount = (if count = 0 \<or> (count AND (count - 1)) \<noteq> 0 then nextPowerOfTwo count else count)
      in if shardCount = 0 then None
         else let q = capacity sdiv int (unat shardCount);
                  shardCapacity = (if q = 0 then 1 else q)
              in Some \<lparr>shards = replicate (unat shardCount) (NewLRUCache shardCapacity),
                      shardMask = shardCount - 1, sh_capacity = capacity, sh_ttl = ttl\<rparr>)"

definition getShard :: "ShardedLRUCache \<Rightarrow> string \<Rightarrow> nat" where
  "getShard c key = unat (fnv32 key AND shardMask c)"

definition set_shard :: "nat \<Rightarrow> lru \<Rightarrow> ShardedLRUCache \<Rightarrow> ShardedLRUCache" where
  "set_shard i s c = c\<lparr>shards := (shards c)[i := s]\<rparr>"

definition sh_Get :: "int \<Rightarrow> string \<Rightarrow> ShardedLRUCache \<Rightarrow> (gval option \<times> ShardedLRUCache) option" where
  "sh_Get now key c =
     (let i = getShard c key in
      if i < length (shards c)
      then case lru_Get now key (shards c ! i) of (r, s) \<Rightarrow> Some (r, set_shard i s c)
      else None)"

definition sh_Put :: "int \<Rightarrow> string \<Rightarrow> gval \<Rightarrow> ShardedLRUCache \<Rightarrow> ShardedLRUCache option" where
  "sh_Put now key v c =
     (let i = getShard c key in
      if i < length (shards c)
      then Some (set_shard i (lru_Put now (sh_ttl c) key v (shards c ! i)) c)
      else None)"

definition sh_Clear :: "ShardedLRUCache \<Rightarrow> ShardedLRUCache" where
  "sh_Clear c = c\<lparr>shards := map lru_Clear (shards c)\<rparr>"

definition sh_Size :: "ShardedLRUCache \<Rightarrow> nat" where
  "sh_Size c = foldl (\<lambda>total s. total + lru_Size s) 0 (shards c)"

definition sh_CleanupExpired :: "int \<Rightarrow> ShardedLRUCache \<Rightarrow> nat \<times> ShardedLRUCache" where
  "sh_CleanupExpired now c =
     (foldl (\<lambda>total s. total + fst (CleanupExpired now s)) 0 (shards c),
      c\<lparr>shards := map (\<lambda>s. snd (CleanupExpired now s)) (shards c)\<rparr>)"

subsection \<open>Rounding up to a power of two\<close>

text \<open>After the step with shift \<open>m\<close>, a bit is set iff one of the \<open>2 m\<close> bits from it upwards was.\<close>

definition smeared :: "nat \<Rightarrow> u32 \<Rightarrow> u32 \<Rightarrow> bool" where
  "smeared m x w \<longleftrightarrow> (\<forall>i. bit w i \<longleftrightarrow> (\<exists>j<m. bit x (i + j)))"

lemma smeared_1: "smeared 1 x x"
  by (simp add: smeared_def)

lemma smeared_double:
  assumes "smeared m x w"
  shows "smeared (2 * m) x (w OR drop_bit m w)"
  unfolding smeared_def
proof
  fix i
  have "bit (w OR drop_bit m w) i \<longleftrightarrow> (\<exists>j<m. bit x (i + j)) \<or> (\<exists>j<m. bit x (i + (m + j)))"
    using assms by (simp add: smeared_def bit_or_iff bit_drop_bit_eq add.assoc add.left_commute)
  also have "\<dots> \<longleftrightarrow> (\<exists>j<2 * m. bit x (i + j))"
  proof safe
    fix j assume "j < 2 * m" "bit x (i + j)" "\<not> (\<exists>j<m. bit x (i + (m + j)))"
    then show "\<exists>j<m. bit x (i + j)"
      by (cases "j < m") (auto dest!: spec[of _ "j - m"])
  qed (use less_or_eq_imp_le in \<open>force+\<close>)
  finally show "bit (w OR drop_bit m w) i \<longleftrightarrow> (\<exists>j<2 * m. bit x (i + j))" .
qed

lemma bit_length_bounds:
  assumes "(x :: nat) \<noteq> 0"
  obtains k where "2 ^ k \<le> x" "x < 2 ^ Suc k"
  using ex_power_ivl1[of 2 x] assms by auto

lemma bit_unat: "bit (x :: u32) j \<longleftrightarrow> odd (unat x div 2 ^ j)"
proof -
  have "bit (unat x) j \<longleftrightarrow> bit x j"
    by (auto simp: bit_unsigned_iff dest: bit_imp_le_length)
  then show ?thesis by (simp add: bit_iff_odd)
qed

lemma smeared_mask:
  assumes s: "smeared 32 x w" and k: "2 ^ k \<le> unat x" "unat x < 2 ^ Suc k"
  shows "w = mask (Suc k)"
proof (rule bit_eqI)
  fix i assume "possible_bit TYPE(u32) i"
  then have i: "i < 32" by simp
  have "unat x div 2 ^ k = 1" using k by (simp add: div_nat_eqI)
  then have lo: "bit x k" by (simp add: bit_unat)
  then have k32: "k < 32" using bit_imp_le_length[of x k] by simp
  have hi: "j \<le> k" if "bit x j" for j
  proof (rule ccontr)
    assume "\<not> j \<le> k"
    then have "(2 :: nat) ^ Suc k \<le> 2 ^ j" by (intro power_increasing) auto
    with k(2) have "unat x div 2 ^ j = 0" by simp
    with that show False by (simp add: bit_unat)
  qed
  have "bit w i \<longleftrightarrow> i \<le> k"
  proof
    assume "bit w i"
    then obtain j where "bit x (i + j)" using s unfolding smeared_def by blast
    from hi[OF this] show "i \<le> k" by simp
  next
    assume "i \<le> k"
    with lo k32 s show "bit w i" unfolding smeared_def by (auto intro!: exI[of _ "k - i"])
  qed
  with i show "bit w i \<longleftrightarrow> bit (mask (Suc k) :: u32) i" by (auto simp: bit_mask_iff)
qed

lemma nextPowerOfTwo_smeared:
  assumes "n \<noteq> 0"
  obtains w where "nextPowerOfTwo n = w + 1" "smeared 32 (n - 1) w"
proof -
  let ?a = "n - 1"
  let ?b = "?a OR drop_bit 1 ?a"
  let ?c = "?b OR drop_bit 2 ?b"
  let ?d = "?c OR drop_bit 4 ?c"
  let ?e = "?d OR drop_bit 8 ?d"
  have "smeared 2 ?a ?b" using smeared_double[OF smeared_1, of ?a] by simp
  from smeared_double[OF this] have "smeared 4 ?a ?c" by simp
  from smeared_double[OF this] have "smeared 8 ?a ?d" by simp
  from smeared_double[OF this] have "smeared 16 ?a ?e" by simp
  from smeared_double[OF this] have "smeared 32 ?a (?e OR drop_bit 16 ?e)" by simp
  moreover have "nextPowerOfTwo n = (?e OR drop_bit 16 ?e) + 1"
    using assms by (simp add: nextPowerOfTwo_def Let_def)
  ultimately show ?thesis using that by blast
qed

text \<open>
  C34. \<^verbatim>\<open>nextPowerOfTwo\<close> on 32-bit numbers: up to \<open>2\<^sup>3\<^sup>1\<close> the result is the least power of two that
  is at least \<open>n\<close>; above \<open>2\<^sup>3\<^sup>1\<close> the result wraps around to zero.
\<close>

theorem nextPowerOfTwo_correct:
  "if unat n \<le> 2 ^ 31
   then \<exists>k. unat (nextPowerOfTwo n) = 2 ^ k \<and> unat n \<le> 2 ^ k \<and> (\<forall>j. unat n \<le> 2 ^ j \<longrightarrow> k \<le> j)
   else nextPowerOfTwo n = 0"
proof (cases "unat n \<le> 1")
  case True
  then have "n = 0 \<or> n = 1" by (metis One_nat_def le_SucE le_zero_eq unat_1 unat_eq_zero word_unat_eq_iff)
  then have "nextPowerOfTwo n = 1" by (auto simp: nextPowerOfTwo_def)
  with True show ?thesis by (auto intro!: exI[of _ 0])
next
  case False
  then have n0: "n \<noteq> 0" by auto
  have "1 \<le> n" using False by (simp add: word_le_nat_alt)
  then have n1: "unat (n - 1) = unat n - 1" by (simp add: unat_sub)
  with False have "unat (n - 1) \<noteq> 0" by simp
  from bit_length_bounds[OF this] obtain k where k: "2 ^ k \<le> unat (n - 1)" "unat (n - 1) < 2 ^ Suc k" .
  obtain w where w: "nextPowerOfTwo n = w + 1" "smeared 32 (n - 1) w" by (rule nextPowerOfTwo_smeared[OF n0])
  have r: "nextPowerOfTwo n = 2 ^ Suc k"
    unfolding w(1) smeared_mask[OF w(2) k] by (simp add: mask_eq_exp_minus_1)
  show ?thesis
  proof (cases "unat n \<le> 2 ^ 31")
    case le: True
    have "(2 :: nat) ^ k < 2 ^ 31" using k(1) n1 False le by linarith
    then have k31: "Suc k \<le> 31" by (metis Suc_leI nat_power_less_imp_less zero_less_numeral)
    then have "(2 :: nat) ^ Suc k < 2 ^ 32" by (intro power_strict_increasing) auto
    then have "unat (2 ^ Suc k :: u32) = 2 ^ Suc k"
      using unat_of_nat_small(2)[of "2 ^ Suc k"] by (simp del: power_Suc)
    moreover have "unat n \<le> 2 ^ Suc k" using k(2) n1 False by linarith
    moreover have "Suc k \<le> j" if "unat n \<le> 2 ^ j" for j
    proof -
      have "(2 :: nat) ^ k < 2 ^ j" using that k(1) n1 False by linarith
      then show ?thesis by (simp add: power_less_imp_less_exp Suc_leI)
    qed
    ultimately show ?thesis using le r by (auto simp del: power_Suc)
  next
    case gt: False
    have "(2 :: nat) ^ 31 < 2 ^ Suc k" using gt k(2) n1 by linarith
    then have "31 < Suc k" by (rule power_less_imp_less_exp[rotated]) simp
    then have "(2 :: u32) ^ Suc k = 0" by (simp add: exp_eq_zero_iff del: power_Suc)
    with gt r show ?thesis by simp
  qed
qed

theorem nextPowerOfTwo_correct_witness:
  "nextPowerOfTwo 33 = 64 \<and> nextPowerOfTwo 0x80000001 = 0 \<and>
   (\<exists>k. unat (nextPowerOfTwo 33) = 2 ^ k \<and> 33 \<le> (2 :: nat) ^ k \<and> (\<forall>j. (33 :: nat) \<le> 2 ^ j \<longrightarrow> k \<le> j))"
  using nextPowerOfTwo_correct[of 33] by (simp add: nextPowerOfTwo_def)

text \<open>The two hash functions are one function.\<close>

lemma fnv32_loop_foldl: "fnv32_loop h bs = foldl (\<lambda>hash b. (hash XOR ucast b) * 16777619) h bs"
  by (induction bs arbitrary: h) (simp_all add: Let_def)

lemma fnv32_fnv32a: "fnv32 key = fnv32a key"
  by (simp add: fnv32_def fnv32a_def fnv32_loop_foldl)

subsection \<open>The shards partition the keys\<close>

text \<open>A constructed cache: a power of two of shards, each within its capacity, and the matching mask.\<close>

definition sharded_ok :: "ShardedLRUCache \<Rightarrow> bool" where
  "sharded_ok c \<longleftrightarrow> shardMask c = of_nat (length (shards c)) - 1 \<and>
     0 < length (shards c) \<and> length (shards c) < 2 ^ 32 \<and>
     (\<exists>q. q \<noteq> 0 \<and> (\<forall>s \<in> set (shards c). lru_ok s \<and> lru_capacity s = q))"

lemma getShard_in_range: "sharded_ok c \<Longrightarrow> getShard c key < length (shards c)"
proof -
  assume ok: "sharded_ok c"
  let ?n = "of_nat (length (shards c)) :: u32"
  have n: "unat ?n = length (shards c)" "?n \<noteq> 0"
    using ok unat_of_nat_small(2)[of "length (shards c)"] by (auto simp: sharded_ok_def)
  have "unat (fnv32 key AND (?n - 1)) \<le> unat (?n - 1)"
    by (simp add: word_and_le1 word_le_nat_alt[symmetric])
  also have "\<dots> < unat ?n" by (rule measure_unat[OF n(2)])
  finally show ?thesis using ok n(1) by (simp add: getShard_def sharded_ok_def)
qed

lemma NewShardedLRUCache_ok:
  assumes "NewShardedLRUCache capacity ttl n = Some c"
  shows "sharded_ok c" "sh_ttl c = ttl" "sh_capacity c = capacity"
    "shards c = replicate (length (shards c)) (NewLRUCache (lru_capacity (hd (shards c))))"
    "lru_capacity (hd (shards c)) =
       (let q = capacity sdiv int (length (shards c)) in if q = 0 then 1 else q)"
proof -
  define m where "m = (if n = 0 \<or> n AND (n - 1) \<noteq> 0 then nextPowerOfTwo n else n)"
  define q where "q = (let q = capacity sdiv int (unat m) in if q = 0 then 1 else q)"
  have m: "m \<noteq> 0" and c: "c = \<lparr>shards = replicate (unat m) (NewLRUCache q), shardMask = m - 1,
      sh_capacity = capacity, sh_ttl = ttl\<rparr>"
    using assms by (auto simp: NewShardedLRUCache_def m_def[symmetric] q_def Let_def split: if_splits)
  then have pos: "0 < unat m" and hd: "hd (shards c) = NewLRUCache q"
    by (simp_all add: unat_gt_0)
  have "q \<noteq> 0" by (simp add: q_def Let_def)
  moreover have "unat m < 2 ^ 32" using unsigned_less[of m] by simp
  ultimately show "sharded_ok c" using pos by (auto simp: sharded_ok_def c lru_capacity_simps)
  show "sh_ttl c = ttl" "sh_capacity c = capacity" by (simp_all add: c)
  show "shards c = replicate (length (shards c)) (NewLRUCache (lru_capacity (hd (shards c))))"
    unfolding hd by (simp add: c lru_capacity_simps)
  show "lru_capacity (hd (shards c)) =
       (let q = capacity sdiv int (length (shards c)) in if q = 0 then 1 else q)"
    unfolding hd by (simp add: c lru_capacity_simps q_def)
qed

fun sh_exec :: "lru_op \<Rightarrow> ShardedLRUCache \<Rightarrow> ShardedLRUCache option" where
  "sh_exec (LGet now k) c = map_option snd (sh_Get now k c)"
| "sh_exec (LPut now k v) c = sh_Put now k v c"
| "sh_exec LClear c = Some (sh_Clear c)"
| "sh_exec (LCleanup now) c = Some (snd (sh_CleanupExpired now c))"

fun sh_run :: "lru_op list \<Rightarrow> ShardedLRUCache \<Rightarrow> ShardedLRUCache option" where
  "sh_run [] c = Some c"
| "sh_run (op # ops) c = (case sh_exec op c of None \<Rightarrow> None | Some c' \<Rightarrow> sh_run ops c')"

text \<open>The operations shard \<open>i\<close> sees: those on its keys, every clear and every cleanup.\<close>

fun routed :: "ShardedLRUCache \<Rightarrow> nat \<Rightarrow> lru_op \<Rightarrow> bool" where
  "routed c i (LGet now k) = (getShard c k = i)"
| "routed c i (LPut now k v) = (getShard c k = i)"
| "routed c i op = True"

lemma foldl_plus_sum: "foldl (\<lambda>t s. t + f s) (a :: nat) xs = a + sum_list (map f xs)"
  by (induction xs arbitrary: a) simp_all

lemma sh_exec_nth:
  assumes "sharded_ok c"
  shows "\<exists>c'. sh_exec op c = Some c' \<and> shardMask c' = shardMask c \<and> sh_ttl c' = sh_ttl c \<and>
    length (shards c') = length (shards c) \<and>
    (\<forall>i < length (shards c). shards c' ! i =
       (if routed c i op then snd (lru_exec (sh_ttl c) op (shards c ! i)) else shards c ! i))"
  using getShard_in_range[OF assms]
  by (cases op) (simp_all add: sh_Get_def sh_Put_def sh_Clear_def sh_CleanupExpired_def set_shard_def
      Let_def case_prod_beta nth_list_update)

lemma sharded_ok_nth:
  assumes "sharded_ok c" "shardMask c' = shardMask c" "length (shards c') = length (shards c)"
    and "\<And>i. i < length (shards c) \<Longrightarrow>
      lru_ok (shards c' ! i) \<and> lru_capacity (shards c' ! i) = lru_capacity (shards c ! i)"
  shows "sharded_ok c'"
  using assms unfolding sharded_ok_def all_set_conv_all_nth by auto

lemma sh_exec_shard:
  assumes "sharded_ok c"
  shows "\<exists>c'. sh_exec op c = Some c' \<and> sharded_ok c' \<and> shardMask c' = shardMask c \<and> sh_ttl c' = sh_ttl c \<and>
    length (shards c') = length (shards c) \<and>
    (\<forall>i < length (shards c). shards c' ! i =
       (if routed c i op then snd (lru_exec (sh_ttl c) op (shards c ! i)) else shards c ! i))"
proof -
  from sh_exec_nth[OF assms, of op] obtain c' where c': "sh_exec op c = Some c'" "shardMask c' = shardMask c"
    "sh_ttl c' = sh_ttl c" "length (shards c') = length (shards c)"
    "\<forall>i < length (shards c). shards c' ! i =
       (if routed c i op then snd (lru_exec (sh_ttl c) op (shards c ! i)) else shards c ! i)" by blast
  have "lru_ok (shards c ! i)" if "i < length (shards c)" for i
    using assms that by (auto simp: sharded_ok_def)
  with c'(5) lru_exec_spec have "sharded_ok c'"
    by (intro sharded_ok_nth[OF assms c'(2,4)]) simp
  with c' show ?thesis by blast
qed

lemma sh_run_shard:
  assumes "sharded_ok c"
  shows "\<exists>c'. sh_run ops c = Some c' \<and> sharded_ok c' \<and> shardMask c' = shardMask c \<and>
    length (shards c') = length (shards c) \<and>
    (\<forall>i < length (shards c). shards c' ! i = snd (lru_run (sh_ttl c) (filter (routed c i) ops) (shards c ! i)))"
  using assms
proof (induction ops arbitrary: c)
  case (Cons op ops)
  from sh_exec_shard[OF Cons.prems, of op] obtain c1 where c1: "sh_exec op c = Some c1"
    "sharded_ok c1" "shardMask c1 = shardMask c" "sh_ttl c1 = sh_ttl c"
    "length (shards c1) = length (shards c)"
    "\<forall>i < length (shards c). shards c1 ! i =
       (if routed c i op then snd (lru_exec (sh_ttl c) op (shards c ! i)) else shards c ! i)" by blast
  have r: "routed c1 i = routed c i" for i
    using c1(3) by (intro ext, rename_tac x, case_tac x) (auto simp: getShard_def)
  from Cons.IH[OF c1(2)] obtain c' where "sh_run ops c1 = Some c'" "sharded_ok c'" "shardMask c' = shardMask c1"
    "length (shards c') = length (shards c1)"
    "\<forall>i < length (shards c1). shards c' ! i = snd (lru_run (sh_ttl c1) (filter (routed c1 i) ops) (shards c1 ! i))"
    by blast
  with c1 r show ?case by (simp add: case_prod_beta)
qed simp

text \<open>
  C21. A sharded cache is a family of independent LRU caches. A constructed cache never
  panics, whatever the operations; each shard holds exactly what a single LRU list of the
  shard's capacity holds after the operations on the keys hashed to it (and every clear and
  cleanup); a get answers from its key's list; and the total size stays within the number of
  shards times that capacity.
\<close>

theorem sharded_cache_is_partitioned:
  assumes "NewShardedLRUCache capacity ttl n = Some c0"
  shows "\<exists>c. sh_run ops c0 = Some c \<and> length (shards c) = length (shards c0) \<and>
    (\<forall>i < length (shards c0). contents (shards c ! i) =
       snd (spec_run (lru_capacity (hd (shards c0))) ttl (filter (routed c0 i) ops) [])) \<and>
    (\<forall>now k. map_option fst (sh_Get now k c)
       = Some (fst (spec_get now k (contents (shards c ! getShard c0 k))))) \<and>
    int (sh_Size c) \<le> int (length (shards c0)) * max 0 (lru_capacity (hd (shards c0)))"
proof -
  note new = NewShardedLRUCache_ok[OF assms]
  define q where "q = lru_capacity (hd (shards c0))"
  have s0: "shards c0 ! i = NewLRUCache q" if "i < length (shards c0)" for i
    using new(4) that unfolding q_def[symmetric] by (metis nth_replicate)
  from sh_run_shard[OF new(1), of ops] obtain c where c: "sh_run ops c0 = Some c" "sharded_ok c"
    "shardMask c = shardMask c0" "length (shards c) = length (shards c0)"
    and sh: "\<And>i. i < length (shards c0) \<Longrightarrow>
      shards c ! i = snd (lru_run ttl (filter (routed c0 i) ops) (NewLRUCache q))"
    using s0 new(2) by auto
  have spec: "lru_ok (shards c ! i)" "lru_capacity (shards c ! i) = q"
    "contents (shards c ! i) = snd (spec_run q ttl (filter (routed c0 i) ops) [])"
    if "i < length (shards c0)" for i
    using lru_run_spec[of "NewLRUCache q" ttl "filter (routed c0 i) ops"] sh[OF that]
    by (auto simp: lru_capacity_simps prod_eq_iff)
  have get: "getShard c k = getShard c0 k" for k using c(3) by (simp add: getShard_def)
  have "map_option fst (sh_Get now k c) = Some (fst (spec_get now k (contents (shards c ! getShard c0 k))))"
    for now k
    using getShard_in_range[OF c(2), of k] spec(1)[of "getShard c0 k"] c(4)
    by (simp add: sh_Get_def Let_def get case_prod_beta lruc.get_result)
  moreover have "int (sh_Size c) \<le> int (length (shards c)) * max 0 q"
  proof -
    have "int (sum_list (map lru_Size xs)) \<le> int (length xs) * max 0 q"
      if "\<forall>s \<in> set xs. lru_ok s \<and> lru_capacity s = q" for xs
      using that
      by (induction xs) (auto simp: lru_Size_def lru_length distrib_right dest!: lru_ok_bound)
    moreover have "sh_Size c = sum_list (map lru_Size (shards c))"
      by (simp add: sh_Size_def foldl_plus_sum)
    moreover have "\<forall>s \<in> set (shards c). lru_ok s \<and> lru_capacity s = q"
      using spec(1,2) c(4) by (simp add: all_set_conv_all_nth)
    ultimately show ?thesis by simp
  qed
  ultimately show ?thesis using c(1,4) spec(3) by (auto simp: q_def[symmetric])
qed

theorem sharded_cache_is_partitioned_witness:
  "\<exists>c. sh_run [LPut 0 ''a'' GNil, LPut 1 ''b'' GNil, LGet 2 ''a''] (the (NewShardedLRUCache 8 10 3)) = Some c \<and>
     int (sh_Size c) \<le> 8"
proof -
  have "NewShardedLRUCache 8 10 3 = Some (the (NewShardedLRUCache 8 10 3))"
    and q: "length (shards (the (NewShardedLRUCache 8 10 3))) = 4"
      "lru_capacity (hd (shards (the (NewShardedLRUCache 8 10 3)))) = 2"
    by (simp_all add: NewShardedLRUCache_def nextPowerOfTwo_def Let_def lru_capacity_simps signed_divide_int_def)
  from sharded_cache_is_partitioned[OF this(1), of "[LPut 0 ''a'' GNil, LPut 1 ''b'' GNil, LGet 2 ''a'']"]
  show ?thesis unfolding q by auto
qed

end
