(* ===== verification/Concurrent.thy ===== *)
theory Concurrent
  imports Document
begin

text \<open>
  \<^verbatim>\<open>pkg/concurrent/counter.go\<close> and \<^verbatim>\<open>pkg/concurrent/stack.go\<close>: the atomic counter and Treiber's
  lock-free stack. The stack is modelled at the level of its atomic loads and
  compare-and-swaps: threads are program counters, and a schedule, a list of invocations and
  single steps of threads, is one interleaving. Nodes are never reused: the garbage
  collector keeps a node while some thread holds its address.
\<close>

unbundle bit_operations_syntax

subsection \<open>Counter\<close>

datatype counter_op =
    CInc | CAdd u64 | CDec | CSub u64 | CLoad | CStore u64 | CCas u64 u64 | CSwap u64 | CReset

definition ctr_Inc :: "u64 \<Rightarrow> u64 \<times> u64" where
  "ctr_Inc v = (v + 1, v + 1)"

definition ctr_Add :: "u64 \<Rightarrow> u64 \<Rightarrow> u64 \<times> u64" where
  "ctr_Add delta v = (v + delta, v + delta)"

definition ctr_Dec :: "u64 \<Rightarrow> u64 \<times> u64" where
  "ctr_Dec v = (v + NOT 0, v + NOT 0)"

definition ctr_Sub :: "u64 \<Rightarrow> u64 \<Rightarrow> u64 \<times> u64" where
  "ctr_Sub delta v = (v + NOT (delta - 1), v + NOT (delta - 1))"

definition ctr_Load :: "u64 \<Rightarrow> u64 \<times> u64" where
  "ctr_Load v = (v, v)"

definition ctr_Store :: "u64 \<Rightarrow> u64 \<Rightarrow> u64" where
  "ctr_Store new v = new"

definition ctr_CompareAndSwap :: "u64 \<Rightarrow> u64 \<Rightarrow> u64 \<Rightarrow> bool \<times> u64" where
  "ctr_CompareAndSwap old new v = (if v = old then (True, new) else (False, v))"

definition ctr_Swap :: "u64 \<Rightarrow> u64 \<Rightarrow> u64 \<times> u64" where
  "ctr_Swap new v = (v, new)"

definition ctr_Reset :: "u64 \<Rightarrow> u64 \<times> u64" where
  "ctr_Reset v = (v, 0)"

fun ctr_exec :: "counter_op \<Rightarrow> u64 \<Rightarrow> u64" where
  "ctr_exec CInc v = snd (ctr_Inc v)"
| "ctr_exec (CAdd d) v = snd (ctr_Add d v)"
| "ctr_exec CDec v = snd (ctr_Dec v)"
| "ctr_exec (CSub d) v = snd (ctr_Sub d v)"
| "ctr_exec CLoad v = snd (ctr_Load v)"
| "ctr_exec (CStore n) v = ctr_Store n v"
| "ctr_exec (CCas a b) v = snd (ctr_CompareAndSwap a b v)"
| "ctr_exec (CSwap n) v = snd (ctr_Swap n v)"
| "ctr_exec CReset v = snd (ctr_Reset v)"

text \<open>What the operations mean on the integers: a difference, or a new start.\<close>

fun ctr_meaning :: "counter_op \<Rightarrow> int \<Rightarrow> int" where
  "ctr_meaning CInc n = n + 1"
| "ctr_meaning (CAdd d) n = n + uint d"
| "ctr_meaning CDec n = n - 1"
| "ctr_meaning (CSub d) n = n - uint d"
| "ctr_meaning CLoad n = n"
| "ctr_meaning (CStore v) n = uint v"
| "ctr_meaning (CCas a b) n = (if n mod 2 ^ 64 = uint a then uint b else n)"
| "ctr_meaning (CSwap v) n = uint v"
| "ctr_meaning CReset n = 0"

lemma ctr_exec_meaning: "ctr_exec op (word_of_int n) = word_of_int (ctr_meaning op n)"
proof (cases op)
  case (CCas a b)
  have "(word_of_int n = a) \<longleftrightarrow> n mod 2 ^ 64 = uint a"
    by (auto simp: word_uint_eq_iff uint_word_of_int)
  then show ?thesis using CCas by (simp add: ctr_CompareAndSwap_def)
qed (simp_all add: ctr_Inc_def ctr_Add_def ctr_Dec_def ctr_Sub_def ctr_Load_def ctr_Store_def ctr_Swap_def
    ctr_Reset_def not_eq_complement of_int_add[symmetric] of_int_diff)

text \<open>
  The counter counts modulo \<open>2\<^sup>6\<^sup>4\<close>: after any interleaving of atomic operations its value is
  the integer those operations denote, reduced modulo \<open>2\<^sup>6\<^sup>4\<close>. In particular the
  two's-complement additions in \<^verbatim>\<open>Dec\<close> and \<^verbatim>\<open>Sub\<close> subtract, \<^verbatim>\<open>Sub(0)\<close> included.
\<close>

theorem counter_counts_modulo:
  "uint (fold ctr_exec ops 0) = fold ctr_meaning ops 0 mod 2 ^ 64"
proof -
  have "fold ctr_exec ops (word_of_int n) = word_of_int (fold ctr_meaning ops n)" for n
    by (induction ops arbitrary: n) (simp_all add: ctr_exec_meaning)
  from this[of 0] show ?thesis by (simp add: uint_word_of_int)
qed

subsection \<open>Treiber's stack: threads and steps\<close>

record stackNode =
  sn_value :: gval
  sn_next :: "nat option"

datatype stack_result = RUnit | RVal "gval option" | RBool bool | RNat nat

text \<open>Where a thread stands inside an operation; the comments name the statement it runs next.\<close>

datatype stack_pc =
    Idle
  | PushLoop nat
  | PushCas nat "nat option"
  | PopLoop
  | PopNext nat
  | PopCas nat "nat option"
  | PeekLoad
  | PeekRead nat
  | EmptyLoad
  | SizeStart
  | SizeLoop nat "nat option"
  | ClearStore
  | Done stack_result

datatype stack_call = Push gval | Pop | Peek | IsEmpty | Size | Clear

text \<open>An operation takes effect at one of its steps; these are the effects.\<close>

datatype stack_event = EvPush gval | EvPop "gval option" | EvPeek "gval option" | EvEmpty bool | EvClear

record LockFreeStack =
  st_nodes :: "stackNode list"
  st_head :: "nat option"
  st_pc :: "nat \<Rightarrow> stack_pc"
  st_log :: "(nat \<times> stack_event) list"

definition NewLockFreeStack :: LockFreeStack where
  "NewLockFreeStack = \<lparr>st_nodes = [], st_head = None, st_pc = (\<lambda>t. Idle), st_log = []\<rparr>"

abbreviation goto :: "nat \<Rightarrow> stack_pc \<Rightarrow> LockFreeStack \<Rightarrow> LockFreeStack" where
  "goto t pc s \<equiv> s\<lparr>st_pc := (st_pc s)(t := pc)\<rparr>"

abbreviation emit :: "nat \<Rightarrow> stack_event \<Rightarrow> LockFreeStack \<Rightarrow> LockFreeStack" where
  "emit t ev s \<equiv> s\<lparr>st_log := st_log s @ [(t, ev)]\<rparr>"

text \<open>Invoking an operation; \<^verbatim>\<open>Push\<close> allocates its node first.\<close>

fun stack_invoke :: "nat \<Rightarrow> stack_call \<Rightarrow> LockFreeStack \<Rightarrow> LockFreeStack" where
  "stack_invoke t (Push v) s =
     goto t (PushLoop (length (st_nodes s))) (s\<lparr>st_nodes := st_nodes s @ [\<lparr>sn_value = v, sn_next = None\<rparr>]\<rparr>)"
| "stack_invoke t Pop s = goto t PopLoop s"
| "stack_invoke t Peek s = goto t PeekLoad s"
| "stack_invoke t IsEmpty s = goto t EmptyLoad s"
| "stack_invoke t Size s = goto t SizeStart s"
| "stack_invoke t Clear s = goto t ClearStore s"

definition push_load :: "nat \<Rightarrow> nat \<Rightarrow> LockFreeStack \<Rightarrow> LockFreeStack" where
  "push_load t node s =
     goto t (PushCas node (st_head s))
       (s\<lparr>st_nodes := (st_nodes s)[node := (st_nodes s ! node)\<lparr>sn_next := st_head s\<rparr>]\<rparr>)"

definition push_cas :: "nat \<Rightarrow> nat \<Rightarrow> nat option \<Rightarrow> LockFreeStack \<Rightarrow> LockFreeStack" where
  "push_cas t node oldHead s =
     (if st_head s = oldHead
      then emit t (EvPush (sn_value (st_nodes s ! node))) (goto t (Done RUnit) (s\<lparr>st_head := Some node\<rparr>))
      else goto t (PushLoop node) s)"

definition pop_load :: "nat \<Rightarrow> LockFreeStack \<Rightarrow> LockFreeStack" where
  "pop_load t s =
     (case st_head s of
        None \<Rightarrow> emit t (EvPop None) (goto t (Done (RVal None)) s)
      | Some oldHead \<Rightarrow> goto t (PopNext oldHead) s)"

definition pop_next :: "nat \<Rightarrow> nat \<Rightarrow> LockFreeStack \<Rightarrow> LockFreeStack" where
  "pop_next t oldHead s = goto t (PopCas oldHead (sn_next (st_nodes s ! oldHead))) s"

definition pop_cas :: "nat \<Rightarrow> nat \<Rightarrow> nat option \<Rightarrow> LockFreeStack \<Rightarrow> LockFreeStack" where
  "pop_cas t oldHead newHead s =
     (if st_head s = Some oldHead
      then let v = sn_value (st_nodes s ! oldHead) in
        emit t (EvPop (Some v)) (goto t (Done (RVal (Some v))) (s\<lparr>st_head := newHead\<rparr>))
      else goto t PopLoop s)"

definition peek_load :: "nat \<Rightarrow> LockFreeStack \<Rightarrow> LockFreeStack" where
  "peek_load t s =
     (case st_head s of
        None \<Rightarrow> emit t (EvPeek None) (goto t (Done (RVal None)) s)
      | Some node \<Rightarrow> emit t (EvPeek (Some (sn_value (st_nodes s ! node)))) (goto t (PeekRead node) s))"

text \<open>The count is read node by node and is no snapshot; it emits no event.\<close>

definition size_step :: "nat \<Rightarrow> nat \<Rightarrow> nat option \<Rightarrow> LockFreeStack \<Rightarrow> LockFreeStack" where
  "size_step t count current s =
     (case current of
        None \<Rightarrow> goto t (Done (RNat count)) s
      | Some node \<Rightarrow> goto t (SizeLoop (Suc count) (sn_next (st_nodes s ! node))) s)"

definition stack_step :: "nat \<Rightarrow> LockFreeStack \<Rightarrow> LockFreeStack" where
  "stack_step t s =
     (case st_pc s t of
        Idle \<Rightarrow> s
      | PushLoop node \<Rightarrow> push_load t node s
      | PushCas node oldHead \<Rightarrow> push_cas t node oldHead s
      | PopLoop \<Rightarrow> pop_load t s
      | PopNext oldHead \<Rightarrow> pop_next t oldHead s
      | PopCas oldHead newHead \<Rightarrow> pop_cas t oldHead newHead s
      | PeekLoad \<Rightarrow> peek_load t s
      | PeekRead node \<Rightarrow> goto t (Done (RVal (Some (sn_value (st_nodes s ! node))))) s
      | EmptyLoad \<Rightarrow> emit t (EvEmpty (st_head s = None)) (goto t (Done (RBool (st_head s = None))) s)
      | SizeStart \<Rightarrow> goto t (SizeLoop 0 (st_head s)) s
      | SizeLoop count current \<Rightarrow> size_step t count current s
      | ClearStore \<Rightarrow> emit t EvClear (goto t (Done RUnit) (s\<lparr>st_head := None\<rparr>))
      | Done r \<Rightarrow> s)"

datatype stack_action = Invoke nat stack_call | Step nat

text \<open>A thread invokes an operation only when its last one has returned.\<close>

fun stack_act :: "stack_action \<Rightarrow> LockFreeStack \<Rightarrow> LockFreeStack" where
  "stack_act (Invoke t call) s =
     (case st_pc s t of Idle \<Rightarrow> stack_invoke t call s | Done r \<Rightarrow> stack_invoke t call s | _ \<Rightarrow> s)"
| "stack_act (Step t) s = stack_step t s"

definition stack_run :: "stack_action list \<Rightarrow> LockFreeStack" where
  "stack_run acts = fold stack_act acts NewLockFreeStack"

subsection \<open>The sequential stack\<close>

text \<open>The specification: replaying the events on a list, top first, checks every result.\<close>

fun replay :: "stack_event list \<Rightarrow> gval list \<Rightarrow> gval list option" where
  "replay [] st = Some st"
| "replay (EvPush v # es) st = replay es (v # st)"
| "replay (EvPop None # es) st = (if st = [] then replay es st else None)"
| "replay (EvPop (Some v) # es) st = (case st of [] \<Rightarrow> None | x # st' \<Rightarrow> if x = v then replay es st' else None)"
| "replay (EvPeek r # es) st = (if r = (case st of [] \<Rightarrow> None | x # st' \<Rightarrow> Some x) then replay es st else None)"
| "replay (EvEmpty b # es) st = (if b = (st = []) then replay es st else None)"
| "replay (EvClear # es) st = replay es []"

fun event_result :: "stack_event \<Rightarrow> stack_result" where
  "event_result (EvPush v) = RUnit"
| "event_result (EvPop r) = RVal r"
| "event_result (EvPeek r) = RVal r"
| "event_result (EvEmpty b) = RBool b"
| "event_result EvClear = RUnit"

lemma replay_append: "replay (a @ b) st = (case replay a st of None \<Rightarrow> None | Some st' \<Rightarrow> replay b st')"
  by (induction a st rule: replay.induct) (auto split: list.splits)

subsection \<open>The invariant\<close>

inductive chain :: "stackNode list \<Rightarrow> nat option \<Rightarrow> nat list \<Rightarrow> bool" for nodes where
  chain_Nil: "chain nodes None []"
| chain_Cons: "a < length nodes \<Longrightarrow> chain nodes (sn_next (nodes ! a)) as \<Longrightarrow> chain nodes (Some a) (a # as)"

inductive_cases chain_NoneE: "chain nodes None as"
inductive_cases chain_SomeE: "chain nodes (Some a) as"

text \<open>The node a pushing thread still owns, and the node a popping or peeking thread looks at.\<close>

fun owned :: "stack_pc \<Rightarrow> nat option" where
  "owned (PushLoop a) = Some a"
| "owned (PushCas a h) = Some a"
| "owned pc = None"

fun watched :: "stack_pc \<Rightarrow> nat option" where
  "watched (PopNext a) = Some a"
| "watched (PopCas a h) = Some a"
| "watched (PeekRead a) = Some a"
| "watched pc = None"

definition pc_ok :: "stackNode list \<Rightarrow> (nat \<times> stack_event) list \<Rightarrow> nat \<Rightarrow> stack_pc \<Rightarrow> bool" where
  "pc_ok nodes log t pc \<longleftrightarrow>
     (case pc of
        PushCas a h \<Rightarrow> sn_next (nodes ! a) = h
      | PopCas a h \<Rightarrow> sn_next (nodes ! a) = h
      | PeekRead a \<Rightarrow> map_of (rev log) t = Some (EvPeek (Some (sn_value (nodes ! a))))
      | Done (RNat n) \<Rightarrow> True
      | Done r \<Rightarrow> (case map_of (rev log) t of None \<Rightarrow> False | Some ev \<Rightarrow> event_result ev = r)
      | _ \<Rightarrow> True)"

definition stack_rel :: "LockFreeStack \<Rightarrow> nat list \<Rightarrow> bool" where
  "stack_rel s L \<longleftrightarrow>
     chain (st_nodes s) (st_head s) L \<and> distinct L \<and>
     replay (map snd (st_log s)) [] = Some (map (\<lambda>a. sn_value (st_nodes s ! a)) L) \<and>
     (\<forall>t a. owned (st_pc s t) = Some a \<longrightarrow> a < length (st_nodes s) \<and> a \<notin> set L) \<and>
     (\<forall>t u a. owned (st_pc s t) = Some a \<longrightarrow> watched (st_pc s u) \<noteq> Some a) \<and>
     (\<forall>t u a. owned (st_pc s t) = Some a \<longrightarrow> owned (st_pc s u) = Some a \<longrightarrow> t = u) \<and>
     (\<forall>t a. watched (st_pc s t) = Some a \<longrightarrow> a < length (st_nodes s)) \<and>
     (\<forall>t. pc_ok (st_nodes s) (st_log s) t (st_pc s t))"

lemma stack_rel_init: "stack_rel NewLockFreeStack []"
  by (simp add: stack_rel_def NewLockFreeStack_def chain_Nil pc_ok_def)

lemma chain_bound: "chain nodes p L \<Longrightarrow> a \<in> set L \<Longrightarrow> a < length nodes"
  by (induction rule: chain.induct) auto

lemma chain_cong:
  "chain nodes p L \<Longrightarrow> (\<And>a. a \<in> set L \<Longrightarrow> a < length nodes' \<and> sn_next (nodes' ! a) = sn_next (nodes ! a))
    \<Longrightarrow> chain nodes' p L"
  by (induction rule: chain.induct) (auto intro: chain.intros)

lemma owned_watched: "owned pc = Some a \<Longrightarrow> watched pc = None"
  by (cases pc) auto

lemma log_lookup: "map_of (rev (log @ [(t, ev)])) u = (if u = t then Some ev else map_of (rev log) u)"
  by simp

lemma pc_ok_log: "u \<noteq> t \<Longrightarrow> pc_ok nodes (log @ [(t, ev)]) u pc = pc_ok nodes log u pc"
  by (simp add: pc_ok_def split: stack_pc.splits stack_result.splits)

lemma stack_relD:
  assumes "stack_rel s L"
  shows "chain (st_nodes s) (st_head s) L" "distinct L"
    and "replay (map snd (st_log s)) [] = Some (map (\<lambda>a. sn_value (st_nodes s ! a)) L)"
    and "owned (st_pc s t) = Some a \<Longrightarrow> a < length (st_nodes s)"
    and "owned (st_pc s t) = Some a \<Longrightarrow> a \<notin> set L"
    and "owned (st_pc s t) = Some a \<Longrightarrow> watched (st_pc s u) \<noteq> Some a"
    and "owned (st_pc s t) = Some a \<Longrightarrow> owned (st_pc s u) = Some a \<Longrightarrow> t = u"
    and "watched (st_pc s t) = Some a \<Longrightarrow> a < length (st_nodes s)"
    and "pc_ok (st_nodes s) (st_log s) t (st_pc s t)"
    and "a \<in> set L \<Longrightarrow> a < length (st_nodes s)"
  using assms chain_bound unfolding stack_rel_def by blast+

lemma stack_relI:
  assumes "chain (st_nodes s) (st_head s) L" "distinct L"
    and "replay (map snd (st_log s)) [] = Some (map (\<lambda>a. sn_value (st_nodes s ! a)) L)"
    and "\<And>t a. owned (st_pc s t) = Some a \<Longrightarrow> a < length (st_nodes s) \<and> a \<notin> set L"
    and "\<And>t u a. owned (st_pc s t) = Some a \<Longrightarrow> watched (st_pc s u) = Some a \<Longrightarrow> False"
    and "\<And>t u a. owned (st_pc s t) = Some a \<Longrightarrow> owned (st_pc s u) = Some a \<Longrightarrow> t = u"
    and "\<And>t a. watched (st_pc s t) = Some a \<Longrightarrow> a < length (st_nodes s)"
    and "\<And>t. pc_ok (st_nodes s) (st_log s) t (st_pc s t)"
  shows "stack_rel s L"
  using assms unfolding stack_rel_def by blast

text \<open>A step that only moves the thread's program counter.\<close>

lemma rel_goto:
  assumes rel: "stack_rel s L" and own: "owned pc = None \<or> owned pc = owned (st_pc s t)"
    and watch: "\<And>a. watched pc = Some a \<Longrightarrow> a < length (st_nodes s) \<and> (\<forall>u. owned (st_pc s u) \<noteq> Some a)"
    and ok: "pc_ok (st_nodes s) (st_log s) t pc"
  shows "stack_rel (goto t pc s) L"
proof -
  note D = stack_relD[OF rel]
  have o: "owned (st_pc s u) = Some a" if "owned (st_pc (goto t pc s) u) = Some a" for u a
    using that own by (auto split: if_splits)
  have w: "watched (st_pc s u) = Some a \<or> watched pc = Some a"
    if "watched (st_pc (goto t pc s) u) = Some a" for u a
    using that by (auto split: if_splits)
  show ?thesis
  proof (rule stack_relI)
    show False if "owned (st_pc (goto t pc s) u) = Some a" "watched (st_pc (goto t pc s) v) = Some a" for u v a
      using o[OF that(1)] w[OF that(2)] D(6) watch by blast
    show "u = v" if "owned (st_pc (goto t pc s) u) = Some a" "owned (st_pc (goto t pc s) v) = Some a" for u v a
      using o[OF that(1)] o[OF that(2)] D(7) by blast
    show "a < length (st_nodes (goto t pc s)) \<and> a \<notin> set L"
      if "owned (st_pc (goto t pc s) u) = Some a" for u a
      using D(4,5)[OF o[OF that]] by simp
    show "a < length (st_nodes (goto t pc s))" if "watched (st_pc (goto t pc s) u) = Some a" for u a
      using w[OF that] D(8) watch by auto
    show "pc_ok (st_nodes (goto t pc s)) (st_log (goto t pc s)) u (st_pc (goto t pc s) u)" for u
      using D(9)[of u] ok by simp
  qed (use D(1-3) in simp_all)
qed

text \<open>A step that takes effect: the event, the new head and the new list of nodes.\<close>

lemma rel_emit:
  assumes rel: "stack_rel s L" and L': "chain (st_nodes s) h L'" "distinct L'"
    and sub: "\<And>a. a \<in> set L' \<Longrightarrow> a \<in> set L \<or> owned (st_pc s t) = Some a"
    and ev: "replay [ev] (map (\<lambda>a. sn_value (st_nodes s ! a)) L) = Some (map (\<lambda>a. sn_value (st_nodes s ! a)) L')"
    and pc: "owned pc = None" "\<And>a. watched pc = Some a \<Longrightarrow> a \<in> set L"
    and ok: "pc_ok (st_nodes s) (st_log s @ [(t, ev)]) t pc"
  shows "stack_rel (emit t ev (goto t pc (s\<lparr>st_head := h\<rparr>))) L'" (is "stack_rel ?s' L'")
proof -
  note D = stack_relD[OF rel]
  have o: "owned (st_pc s u) = Some a \<and> u \<noteq> t" if "owned (st_pc ?s' u) = Some a" for u a
    using that pc(1) by (auto split: if_splits)
  have w: "watched (st_pc s u) = Some a \<or> a \<in> set L" if "watched (st_pc ?s' u) = Some a" for u a
    using that pc(2) by (auto split: if_splits)
  have L'a: "a \<notin> set L'" if "owned (st_pc ?s' u) = Some a" for u a
    using o[OF that] D(5,7) sub[of a] by blast
  show ?thesis
  proof (rule stack_relI)
    show "replay (map snd (st_log ?s')) [] = Some (map (\<lambda>a. sn_value (st_nodes ?s' ! a)) L')"
      using D(3) ev by (simp add: replay_append)
    show "pc_ok (st_nodes ?s') (st_log ?s') u (st_pc ?s' u)" for u
      using D(9)[of u] ok by (simp add: pc_ok_log del: rev_append)
    show "a < length (st_nodes ?s') \<and> a \<notin> set L'" if "owned (st_pc ?s' u) = Some a" for u a
      using o[OF that] L'a[OF that] D(4) by auto
    show "a < length (st_nodes ?s')" if "watched (st_pc ?s' u) = Some a" for u a
      using w[OF that] D(8,10) by auto
    show False if "owned (st_pc ?s' u) = Some a" "watched (st_pc ?s' v) = Some a" for u v a
      using o[OF that(1)] w[OF that(2)] D(5,6) by blast
    show "u = v" if "owned (st_pc ?s' u) = Some a" "owned (st_pc ?s' v) = Some a" for u v a
      using o[OF that(1)] o[OF that(2)] D(7) by blast
  qed (use L' in simp_all)
qed

text \<open>Writing the private node of a push, and allocating one.\<close>

lemma rel_nodes:
  assumes rel: "stack_rel s L" and len: "length (st_nodes s) \<le> length nodes"
    and same: "\<And>a. a < length (st_nodes s) \<Longrightarrow> sn_value (nodes ! a) = sn_value (st_nodes s ! a) \<and>
      (owned (st_pc s t) \<noteq> Some a \<longrightarrow> nodes ! a = st_nodes s ! a)"
    and pc: "\<And>a. owned pc = Some a \<Longrightarrow> owned (st_pc s t) = Some a \<or>
      length (st_nodes s) \<le> a \<and> a < length nodes"
    and own: "owned pc \<noteq> None" and ok: "pc_ok nodes (st_log s) t pc"
  shows "stack_rel (goto t pc (s\<lparr>st_nodes := nodes\<rparr>)) L" (is "stack_rel ?s' L")
proof -
  note D = stack_relD[OF rel]
  have L: "a < length (st_nodes s) \<and> owned (st_pc s t) \<noteq> Some a" if "a \<in> set L" for a
    using D(5)[of t a] D(10)[OF that] that by blast
  have o: "u \<noteq> t \<and> owned (st_pc s u) = Some a \<or>
      u = t \<and> (owned (st_pc s t) = Some a \<or> length (st_nodes s) \<le> a \<and> a < length nodes)"
    if "owned (st_pc ?s' u) = Some a" for u a
    using that pc by (auto split: if_splits)
  have w: "watched (st_pc s u) = Some a \<and> u \<noteq> t" if "watched (st_pc ?s' u) = Some a" for u a
    using that own owned_watched[of pc] by (auto split: if_splits)
  show ?thesis
  proof (rule stack_relI)
    show "chain (st_nodes ?s') (st_head ?s') L"
      using chain_cong[OF D(1), of nodes] L same len by force
    show "replay (map snd (st_log ?s')) [] = Some (map (\<lambda>a. sn_value (st_nodes ?s' ! a)) L)"
      using D(3) same L by simp
    show "a < length (st_nodes ?s') \<and> a \<notin> set L" if "owned (st_pc ?s' u) = Some a" for u a
      using o[OF that] D(4)[of u a] D(4)[of t a] D(5) L[of a] len by auto
    show False if "owned (st_pc ?s' u) = Some a" "watched (st_pc ?s' v) = Some a" for u v a
      using o[OF that(1)] w[OF that(2)] D(6,8) by (metis not_le)
    show "u = v" if "owned (st_pc ?s' u) = Some a" "owned (st_pc ?s' v) = Some a" for u v a
      using o[OF that(1)] o[OF that(2)] D(4,7) by (metis not_le)
    show "a < length (st_nodes ?s')" if "watched (st_pc ?s' u) = Some a" for u a
      using w[OF that] D(8) len by fastforce
    show "pc_ok (st_nodes ?s') (st_log ?s') u (st_pc ?s' u)" for u
    proof (cases "u = t")
      case False
      have "nodes ! a = st_nodes s ! a"
        if "owned (st_pc s u) = Some a \<or> watched (st_pc s u) = Some a" for a
        using that False same[of a] D(4,6,7,8) by metis
      with D(9)[of u] False show ?thesis
        by (auto simp: pc_ok_def split: stack_pc.splits stack_result.splits)
    qed (use ok in simp)
  qed (use D(2) in simp)
qed

lemma step_push_load:
  assumes "stack_rel s L" "st_pc s t = PushLoop node"
  shows "stack_rel (push_load t node s) L"
  unfolding push_load_def
  by (rule rel_nodes[OF assms(1)])
    (use assms(2) stack_relD(4)[OF assms(1), of t] in \<open>auto simp: nth_list_update pc_ok_def\<close>)

lemma step_push_cas:
  assumes "stack_rel s L" "st_pc s t = PushCas node h"
  shows "\<exists>L. stack_rel (push_cas t node h s) L"
proof (cases "st_head s = h")
  case True
  note D = stack_relD[OF assms(1)]
  have o: "owned (st_pc s t) = Some node" using assms(2) by simp
  have n: "sn_next (st_nodes s ! node) = h" using D(9)[of t] assms(2) by (simp add: pc_ok_def)
  have "chain (st_nodes s) (Some node) (node # L)"
    using D(1) D(4)[OF o] n True by (intro chain_Cons) auto
  then have "stack_rel (emit t (EvPush (sn_value (st_nodes s ! node)))
      (goto t (Done RUnit) (s\<lparr>st_head := Some node\<rparr>))) (node # L)"
    by (rule rel_emit[OF assms(1)]) (use D(2) D(5)[OF o] o in \<open>auto simp: pc_ok_def\<close>)
  with True have "stack_rel (push_cas t node h s) (node # L)" by (simp add: push_cas_def)
  then show ?thesis by blast
next
  case False
  then have "stack_rel (push_cas t node h s) L"
    unfolding push_cas_def using assms(2) by (simp, intro rel_goto[OF assms(1)]) (auto simp: pc_ok_def)
  then show ?thesis by blast
qed

lemma emit_same_head: "emit t ev (goto t pc s) = emit t ev (goto t pc (s\<lparr>st_head := st_head s\<rparr>))"
  by simp

lemma head_in_list:
  assumes "stack_rel s L" "st_head s = Some a"
  shows "a \<in> set L" "a < length (st_nodes s)" "owned (st_pc s u) \<noteq> Some a"
    "\<exists>L'. L = a # L' \<and> chain (st_nodes s) (sn_next (st_nodes s ! a)) L'"
proof -
  note D = stack_relD[OF assms(1)]
  from D(1) assms(2) show ex: "\<exists>L'. L = a # L' \<and> chain (st_nodes s) (sn_next (st_nodes s ! a)) L'"
    by (auto elim: chain_SomeE)
  then show a: "a \<in> set L" by auto
  then show "a < length (st_nodes s)" "owned (st_pc s u) \<noteq> Some a" using D(5,10) by blast+
qed

lemma step_loads:
  assumes "stack_rel s L"
  shows "stack_rel (pop_load t s) L" "stack_rel (peek_load t s) L"
proof -
  note D = stack_relD[OF assms]
  have nil: "L = []" if "st_head s = None" using D(1) that by (auto elim: chain_NoneE)
  have empty: "stack_rel (emit t ev (goto t (Done (RVal None)) s)) L"
    if "st_head s = None" "ev = EvPop None \<or> ev = EvPeek None" for ev
    by (subst emit_same_head, rule rel_emit[OF assms])
      (use D(1,2) that nil in \<open>auto simp: pc_ok_def\<close>)
  show "stack_rel (pop_load t s) L"
    using empty head_in_list[OF assms]
    by (auto simp: pop_load_def pc_ok_def intro!: rel_goto[OF assms] split: option.splits)
  show "stack_rel (peek_load t s) L"
  proof (cases "st_head s")
    case (Some a)
    note h = head_in_list[OF assms Some]
    have "stack_rel (emit t (EvPeek (Some (sn_value (st_nodes s ! a)))) (goto t (PeekRead a) s)) L"
      by (subst emit_same_head, rule rel_emit[OF assms]) (use D(1,2) h in \<open>auto simp: pc_ok_def\<close>)
    with Some show ?thesis by (simp add: peek_load_def)
  next
    case None
    with empty[of "EvPeek None"] show ?thesis by (simp add: peek_load_def)
  qed
qed

lemma step_pop_cas:
  assumes "stack_rel s L" "st_pc s t = PopCas a h"
  shows "\<exists>L. stack_rel (pop_cas t a h s) L"
proof (cases "st_head s = Some a")
  case True
  note D = stack_relD[OF assms(1)]
  have n: "sn_next (st_nodes s ! a) = h" using D(9)[of t] assms(2) by (simp add: pc_ok_def)
  from head_in_list(4)[OF assms(1) True] n obtain L' where L': "L = a # L'" "chain (st_nodes s) h L'" by auto
  have "stack_rel (emit t (EvPop (Some (sn_value (st_nodes s ! a))))
      (goto t (Done (RVal (Some (sn_value (st_nodes s ! a))))) (s\<lparr>st_head := h\<rparr>))) L'"
    by (rule rel_emit[OF assms(1) L'(2)]) (use D(2) L'(1) in \<open>auto simp: pc_ok_def\<close>)
  with True have "stack_rel (pop_cas t a h s) L'" by (simp add: pop_cas_def Let_def)
  then show ?thesis by blast
next
  case False
  then have "stack_rel (pop_cas t a h s) L"
    unfolding pop_cas_def by (simp, intro rel_goto[OF assms(1)]) (auto simp: pc_ok_def)
  then show ?thesis by blast
qed

lemma step_clear:
  assumes "stack_rel s L"
  shows "stack_rel (emit t EvClear (goto t (Done RUnit) (s\<lparr>st_head := None\<rparr>))) []"
  by (rule rel_emit[OF assms chain_Nil]) (auto simp: pc_ok_def)

lemma step_empty:
  assumes "stack_rel s L"
  shows "stack_rel (emit t (EvEmpty (st_head s = None)) (goto t (Done (RBool (st_head s = None))) s)) L"
proof -
  note D = stack_relD[OF assms]
  have "st_head s = None \<longleftrightarrow> L = []" using D(1) by (cases rule: chain.cases) auto
  then show ?thesis
    by (subst emit_same_head, intro rel_emit[OF assms]) (use D(1,2) in \<open>auto simp: pc_ok_def\<close>)
qed

lemma stack_step_rel:
  assumes "stack_rel s L"
  shows "\<exists>L. stack_rel (stack_step t s) L"
proof (cases "st_pc s t")
  case (PushLoop node)
  then show ?thesis using step_push_load[OF assms PushLoop] by (auto simp: stack_step_def)
next
  case (PushCas node h)
  then show ?thesis using step_push_cas[OF assms PushCas] by (simp add: stack_step_def)
next
  case PopLoop
  then show ?thesis using step_loads(1)[OF assms] by (auto simp: stack_step_def)
next
  case (PopNext a)
  then have w: "watched (st_pc s t) = Some a" by simp
  have "stack_rel (pop_next t a s) L"
    unfolding pop_next_def
    by (rule rel_goto[OF assms])
      (use stack_relD(8)[OF assms w] stack_relD(6)[OF assms, of _ a t] w in \<open>auto simp: pc_ok_def\<close>)
  with PopNext show ?thesis by (auto simp: stack_step_def)
next
  case (PopCas a h)
  then show ?thesis using step_pop_cas[OF assms PopCas] by (simp add: stack_step_def)
next
  case PeekLoad
  then show ?thesis using step_loads(2)[OF assms] by (auto simp: stack_step_def)
next
  case (PeekRead a)
  have "map_of (rev (st_log s)) t = Some (EvPeek (Some (sn_value (st_nodes s ! a))))"
    using stack_relD(9)[OF assms, of t] PeekRead by (simp add: pc_ok_def)
  then have "stack_rel (stack_step t s) L"
    unfolding stack_step_def PeekRead by (simp, intro rel_goto[OF assms]) (auto simp: pc_ok_def)
  then show ?thesis by blast
next
  case ClearStore
  with step_clear[OF assms, of t] show ?thesis by (auto simp: stack_step_def)
next
  case EmptyLoad
  with step_empty[OF assms, of t] show ?thesis by (auto simp: stack_step_def)
next
  case (SizeLoop n c)
  have "stack_rel (size_step t n c s) L"
    by (auto simp: size_step_def pc_ok_def intro!: rel_goto[OF assms] split: option.splits)
  with SizeLoop show ?thesis by (auto simp: stack_step_def)
next
  case SizeStart
  have "stack_rel (goto t (SizeLoop 0 (st_head s)) s) L"
    by (rule rel_goto[OF assms]) (auto simp: pc_ok_def)
  with SizeStart show ?thesis by (auto simp: stack_step_def)
qed (use assms in \<open>auto simp: stack_step_def\<close>)

lemma stack_invoke_rel:
  assumes "stack_rel s L" "st_pc s t = Idle \<or> (\<exists>r. st_pc s t = Done r)"
  shows "\<exists>L. stack_rel (stack_invoke t call s) L"
proof (cases call)
  case (Push v)
  have "stack_rel (goto t (PushLoop (length (st_nodes s)))
      (s\<lparr>st_nodes := st_nodes s @ [\<lparr>sn_value = v, sn_next = None\<rparr>]\<rparr>)) L"
    by (rule rel_nodes[OF assms(1)]) (auto simp: nth_append pc_ok_def)
  with Push show ?thesis by auto
qed (auto simp: pc_ok_def intro!: exI[of _ L] rel_goto[OF assms(1)])

lemma stack_run_rel: "\<exists>L. stack_rel (stack_run acts) L"
proof -
  have "\<exists>L. stack_rel s L \<Longrightarrow> \<exists>L. stack_rel (fold stack_act acts s) L" for s
  proof (induction acts arbitrary: s)
    case (Cons act acts)
    then have "\<exists>L. stack_rel (stack_act act s) L"
      using stack_step_rel stack_invoke_rel
      by (cases act) (fastforce split: stack_pc.splits)+
    with Cons.IH show ?case by simp
  qed simp
  then show ?thesis using stack_rel_init unfolding stack_run_def by blast
qed

text \<open>
  C14. The stack is linearizable. In every interleaving of any number of threads, pushes,
  pops, peeks, emptiness tests and clears take effect one at a time, each between its
  invocation and its return: replaying the effects in the order they happened on a
  sequential stack is legal, so every pop and peek returned the top at its moment and nothing
  is lost or popped twice; the nodes linked from the head are the stack that is left; and a
  thread that has returned (other than from \<^verbatim>\<open>Size\<close>) returned the result of its last effect.
\<close>

theorem stack_linearizable:
  "\<exists>L. chain (st_nodes (stack_run acts)) (st_head (stack_run acts)) L \<and> distinct L \<and>
     replay (map snd (st_log (stack_run acts))) []
       = Some (map (\<lambda>a. sn_value (st_nodes (stack_run acts) ! a)) L) \<and>
     (\<forall>t r. st_pc (stack_run acts) t = Done r \<longrightarrow> (\<exists>n. r = RNat n) \<or>
        (\<exists>ev. map_of (rev (st_log (stack_run acts))) t = Some ev \<and> event_result ev = r))"
proof -
  obtain L where rel: "stack_rel (stack_run acts) L" using stack_run_rel by blast
  have "(\<exists>n. r = RNat n) \<or> (\<exists>ev. map_of (rev (st_log (stack_run acts))) t = Some ev \<and> event_result ev = r)"
    if "st_pc (stack_run acts) t = Done r" for t r
    using stack_relD(9)[OF rel, of t] that
    by (auto simp: pc_ok_def split: stack_result.splits option.splits)
  with stack_relD(1-3)[OF rel] show ?thesis by blast
qed

definition race :: "stack_action list" where
  "race = [Invoke 0 (Push (GInt32 1)), Invoke 1 (Push (GInt32 2)), Step 0, Step 1, Step 0, Step 1,
     Step 1, Step 1, Invoke 0 Pop, Step 0, Step 0, Step 0]"

theorem stack_linearizable_witness:
  "st_pc (stack_run race) 0 = Done (RVal (Some (GInt32 2))) \<and>
   (\<exists>ev. map_of (rev (st_log (stack_run race))) 0 = Some ev \<and> event_result ev = RVal (Some (GInt32 2)))"
proof
  show pc: "st_pc (stack_run race) 0 = Done (RVal (Some (GInt32 2)))"
    by (simp add: race_def stack_run_def NewLockFreeStack_def stack_step_def push_load_def push_cas_def
        pop_load_def pop_next_def pop_cas_def Let_def)
  from stack_linearizable[of race] pc
  show "\<exists>ev. map_of (rev (st_log (stack_run race))) 0 = Some ev \<and> event_result ev = RVal (Some (GInt32 2))"
    by blast
qed

end
