(* ===== verification/Page.thy ===== *)
theory Page
  imports Prelude
begin

text \<open>
  \<^verbatim>\<open>pkg/storage/page.go\<close> and \<^verbatim>\<open>pkg/storage/free_page.go\<close>: pages of 4096 bytes with a 16-byte
  header, and the pages of the free list, which hold a link, a count and up to 1018 page ids.
  A Go slice expression out of range is the panic \<open>PagePanic\<close>.
\<close>

subsection \<open>Pages\<close>

abbreviation (input) PageSize :: nat where "PageSize \<equiv> 4096"
abbreviation (input) PageHeaderSize :: nat where "PageHeaderSize \<equiv> 16"

abbreviation (input) PageTypeData :: byte where "PageTypeData \<equiv> 0"
abbreviation (input) PageTypeIndex :: byte where "PageTypeIndex \<equiv> 1"
abbreviation (input) PageTypeFreeList :: byte where "PageTypeFreeList \<equiv> 2"
abbreviation (input) PageTypeOverflow :: byte where "PageTypeOverflow \<equiv> 3"

definition pagetype_String :: "byte \<Rightarrow> string" where
  "pagetype_String pt =
     (if pt = PageTypeData then ''data'' else if pt = PageTypeIndex then ''index''
      else if pt = PageTypeFreeList then ''freelist'' else if pt = PageTypeOverflow then ''overflow''
      else ''unknown'')"

record Page =
  pg_ID :: u32
  pg_Type :: byte
  pg_Flags :: byte
  pg_LSN :: u64
  pg_Data :: bytes
  pg_IsDirty :: bool
  pg_PinCount :: int

datatype page_error =
    PageBadSize nat
  | FreePageBadType byte
  | FreePageTooSmall
  | FreePageBadIndex u32
  | FreePageBadOffset nat
  | PagePanic

definition NewPage :: "u32 \<Rightarrow> byte \<Rightarrow> Page" where
  "NewPage i t = \<lparr>pg_ID = i, pg_Type = t, pg_Flags = 0, pg_LSN = 0,
     pg_Data = replicate (PageSize - PageHeaderSize) 0, pg_IsDirty = False, pg_PinCount = 0\<rparr>"

text \<open>\<^verbatim>\<open>copy(dst, src)\<close> writes as many bytes as both sides have.\<close>

definition go_copy :: "bytes \<Rightarrow> bytes \<Rightarrow> bytes" where
  "go_copy dst src = take (length dst) src @ drop (length src) dst"

definition Serialize :: "Page \<Rightarrow> bytes" where
  "Serialize p =
     le_bytes 4 (pg_ID p) @ [pg_Type p, pg_Flags p] @ le_bytes 8 (pg_LSN p) @ [0, 0] @
     go_copy (replicate (PageSize - PageHeaderSize) 0) (pg_Data p)"

definition Deserialize :: "bytes \<Rightarrow> Page \<Rightarrow> page_error + Page" where
  "Deserialize bs p =
     (if length bs \<noteq> PageSize then Inl (PageBadSize (length bs))
      else Inr (p\<lparr>pg_ID := le_word (read_at 0 4 bs), pg_Type := bs ! 4, pg_Flags := bs ! 5,
             pg_LSN := le_word (read_at 6 8 bs),
             pg_Data := go_copy (replicate (PageSize - PageHeaderSize) 0) (drop PageHeaderSize bs)\<rparr>))"

definition Pin :: "Page \<Rightarrow> Page" where
  "Pin p = p\<lparr>pg_PinCount := pg_PinCount p + 1\<rparr>"

definition Unpin :: "Page \<Rightarrow> Page" where
  "Unpin p = (if pg_PinCount p > 0 then p\<lparr>pg_PinCount := pg_PinCount p - 1\<rparr> else p)"

definition IsPinned :: "Page \<Rightarrow> bool" where
  "IsPinned p \<longleftrightarrow> pg_PinCount p > 0"

definition MarkDirty :: "Page \<Rightarrow> Page" where
  "MarkDirty p = p\<lparr>pg_IsDirty := True\<rparr>"

definition page_FreeSpace :: "Page \<Rightarrow> nat" where
  "page_FreeSpace p = length (pg_Data p)"

definition page_ok :: "Page \<Rightarrow> bool" where
  "page_ok p \<longleftrightarrow> length (pg_Data p) = PageSize - PageHeaderSize"

lemma page_ok_NewPage [simp]: "page_ok (NewPage i t)"
  by (simp add: page_ok_def NewPage_def)

lemma length_Serialize [simp]: "length (Serialize p) = PageSize"
  by (simp add: Serialize_def go_copy_def)

lemma Deserialize_Serialize:
  "page_ok p \<Longrightarrow> Deserialize (Serialize p) q =
     Inr (p\<lparr>pg_IsDirty := pg_IsDirty q, pg_PinCount := pg_PinCount q\<rparr>)"
  by (simp add: Deserialize_def Serialize_def go_copy_def page_ok_def read_at_def nth_append)

text \<open>
  A page survives the disk format: deserializing a serialized page restores id, type,
  flags, sequence number and data, and keeps the dirty flag and pin count of the page object
  it is read into; a block of any other size than 4096 bytes is an error.
\<close>

theorem page_roundtrip:
  assumes "page_ok p"
  shows "Deserialize (Serialize p) q = Inr (p\<lparr>pg_IsDirty := pg_IsDirty q, pg_PinCount := pg_PinCount q\<rparr>) \<and>
    (length bs \<noteq> PageSize \<longrightarrow> Deserialize bs q = Inl (PageBadSize (length bs)))"
  using Deserialize_Serialize[OF assms] by (simp add: Deserialize_def)

theorem page_roundtrip_witness:
  "Deserialize (Serialize (NewPage 7 PageTypeIndex)) (NewPage 9 PageTypeData) = Inr (NewPage 7 PageTypeIndex) \<and>
   Deserialize [1, 2, 3] (NewPage 9 PageTypeData) = Inl (PageBadSize 3)"
  using page_roundtrip[of "NewPage 7 PageTypeIndex" "NewPage 9 PageTypeData" "[1, 2, 3]"]
  by (simp add: NewPage_def page_ok_def)

subsection \<open>Pages of the free list\<close>

abbreviation (input) FreePageHeaderSize :: nat where "FreePageHeaderSize \<equiv> 8"
abbreviation (input) MaxFreePageEntries :: u32 where "MaxFreePageEntries \<equiv> 1018"

record FreePageHeader =
  fh_NextFreeListPage :: u32
  fh_EntryCount :: u32

definition SerializeFreePageHeader :: "Page \<Rightarrow> FreePageHeader \<Rightarrow> page_error + Page" where
  "SerializeFreePageHeader p h =
     (if pg_Type p \<noteq> PageTypeFreeList then Inr p
      else if length (pg_Data p) < 8 then Inl PagePanic
      else Inr (p\<lparr>pg_Data := write_at 4 (le_bytes 4 (fh_EntryCount h))
                    (write_at 0 (le_bytes 4 (fh_NextFreeListPage h)) (pg_Data p))\<rparr>))"

definition DeserializeFreePageHeader :: "Page \<Rightarrow> page_error + FreePageHeader" where
  "DeserializeFreePageHeader p =
     (if pg_Type p \<noteq> PageTypeFreeList then Inl (FreePageBadType (pg_Type p))
      else if length (pg_Data p) < FreePageHeaderSize then Inl FreePageTooSmall
      else Inr \<lparr>fh_NextFreeListPage = le_word (read_at 0 4 (pg_Data p)),
                fh_EntryCount = le_word (read_at 4 4 (pg_Data p))\<rparr>)"

definition WriteFreePageEntry :: "Page \<Rightarrow> u32 \<Rightarrow> u32 \<Rightarrow> page_error + Page" where
  "WriteFreePageEntry p index pid =
     (if pg_Type p \<noteq> PageTypeFreeList then Inl (FreePageBadType (pg_Type p))
      else if index \<ge> MaxFreePageEntries then Inl (FreePageBadIndex index)
      else let offset = FreePageHeaderSize + unat index * 4 in
        if offset + 4 > length (pg_Data p) then Inl (FreePageBadOffset offset)
        else Inr (p\<lparr>pg_Data := write_at offset (le_bytes 4 pid) (pg_Data p)\<rparr>))"

definition ReadFreePageEntry :: "Page \<Rightarrow> u32 \<Rightarrow> page_error + u32" where
  "ReadFreePageEntry p index =
     (if pg_Type p \<noteq> PageTypeFreeList then Inl (FreePageBadType (pg_Type p))
      else if index \<ge> MaxFreePageEntries then Inl (FreePageBadIndex index)
      else let offset = FreePageHeaderSize + unat index * 4 in
        if offset + 4 > length (pg_Data p) then Inl (FreePageBadOffset offset)
        else Inr (le_word (read_at offset 4 (pg_Data p))))"

fun read_entries :: "Page \<Rightarrow> u32 list \<Rightarrow> page_error + u32 list" where
  "read_entries p [] = Inr []"
| "read_entries p (i # is) =
     (case ReadFreePageEntry p i of
        Inl e \<Rightarrow> Inl e
      | Inr x \<Rightarrow> (case read_entries p is of Inl e \<Rightarrow> Inl e | Inr xs \<Rightarrow> Inr (x # xs)))"

definition ReadAllFreePageEntries :: "Page \<Rightarrow> page_error + u32 list" where
  "ReadAllFreePageEntries p =
     (case DeserializeFreePageHeader p of
        Inl e \<Rightarrow> Inl e
      | Inr h \<Rightarrow> read_entries p (map of_nat [0..<unat (fh_EntryCount h)]))"

definition InitializeFreeListPage :: "Page \<Rightarrow> page_error + Page" where
  "InitializeFreeListPage p =
     (case SerializeFreePageHeader (p\<lparr>pg_Type := PageTypeFreeList\<rparr>)
             \<lparr>fh_NextFreeListPage = 0, fh_EntryCount = 0\<rparr> of
        Inl e \<Rightarrow> Inl e | Inr p' \<Rightarrow> Inr (MarkDirty p'))"

definition AddFreePageToList :: "Page \<Rightarrow> u32 \<Rightarrow> page_error + bool \<times> Page" where
  "AddFreePageToList p pid =
     (case DeserializeFreePageHeader p of
        Inl e \<Rightarrow> Inl e
      | Inr h \<Rightarrow>
         if fh_EntryCount h \<ge> MaxFreePageEntries then Inr (False, p)
         else case WriteFreePageEntry p (fh_EntryCount h) pid of
           Inl e \<Rightarrow> Inl e
         | Inr p1 \<Rightarrow>
            (case SerializeFreePageHeader p1 (h\<lparr>fh_EntryCount := fh_EntryCount h + 1\<rparr>) of
               Inl e \<Rightarrow> Inl e | Inr p2 \<Rightarrow> Inr (True, MarkDirty p2)))"

definition RemoveFreePageFromList :: "Page \<Rightarrow> page_error + u32 option \<times> Page" where
  "RemoveFreePageFromList p =
     (case DeserializeFreePageHeader p of
        Inl e \<Rightarrow> Inl e
      | Inr h \<Rightarrow>
         if fh_EntryCount h = 0 then Inr (None, p)
         else let h' = h\<lparr>fh_EntryCount := fh_EntryCount h - 1\<rparr> in
           case ReadFreePageEntry p (fh_EntryCount h') of
             Inl e \<Rightarrow> Inl e
           | Inr pid \<Rightarrow>
              (case SerializeFreePageHeader p h' of
                 Inl e \<Rightarrow> Inl e | Inr p1 \<Rightarrow> Inr (Some pid, MarkDirty p1)))"

definition IsFreeListPageFull :: "Page \<Rightarrow> page_error + bool" where
  "IsFreeListPageFull p =
     (case DeserializeFreePageHeader p of Inl e \<Rightarrow> Inl e | Inr h \<Rightarrow> Inr (fh_EntryCount h \<ge> MaxFreePageEntries))"

definition IsFreeListPageEmpty :: "Page \<Rightarrow> page_error + bool" where
  "IsFreeListPageEmpty p =
     (case DeserializeFreePageHeader p of Inl e \<Rightarrow> Inl e | Inr h \<Rightarrow> Inr (fh_EntryCount h = 0))"

subsection \<open>A free-list page is a bounded stack\<close>

definition fl_ok :: "Page \<Rightarrow> bool" where
  "fl_ok p \<longleftrightarrow> pg_Type p = PageTypeFreeList \<and> page_ok p \<and>
     (le_word (read_at 4 4 (pg_Data p)) :: u32) \<le> MaxFreePageEntries"

definition fl_count :: "Page \<Rightarrow> nat" where
  "fl_count p = unat (le_word (read_at 4 4 (pg_Data p)) :: u32)"

definition fl_next :: "Page \<Rightarrow> u32" where
  "fl_next p = le_word (read_at 0 4 (pg_Data p))"

definition fl_entry :: "Page \<Rightarrow> nat \<Rightarrow> u32" where
  "fl_entry p i = le_word (read_at (8 + i * 4) 4 (pg_Data p))"

definition fl_list :: "Page \<Rightarrow> u32 list" where
  "fl_list p = map (fl_entry p) [0..<fl_count p]"

lemma length_fl_list [simp]: "length (fl_list p) = fl_count p"
  by (simp add: fl_list_def)

lemma fl_count_bound: "fl_ok p \<Longrightarrow> fl_count p \<le> 1018"
  by (simp add: fl_ok_def fl_count_def word_le_nat_alt)

lemma fl_header: "fl_ok p \<Longrightarrow> DeserializeFreePageHeader p
    = Inr \<lparr>fh_NextFreeListPage = fl_next p, fh_EntryCount = of_nat (fl_count p)\<rparr>"
  by (simp add: fl_ok_def DeserializeFreePageHeader_def page_ok_def fl_next_def fl_count_def)

text \<open>Writing a header or an entry, seen through the page's view.\<close>

lemma fl_put_header:
  assumes "pg_Type p = PageTypeFreeList" "page_ok p" "c \<le> 1018"
  assumes p'_def: "p' = p\<lparr>pg_Data := write_at 4 (le_bytes 4 (of_nat c :: u32)) (write_at 0 (le_bytes 4 nx) (pg_Data p))\<rparr>"
  shows "SerializeFreePageHeader p \<lparr>fh_NextFreeListPage = nx, fh_EntryCount = of_nat c\<rparr> = Inr p'"
    and "fl_ok p'" "fl_count p' = c" "fl_next p' = nx" "i < 1018 \<Longrightarrow> fl_entry p' i = fl_entry p i"
proof -
  have len: "length (pg_Data p) = 4080" using assms(2) by (simp add: page_ok_def)
  have c: "unat (of_nat c :: u32) = c" using assms(3) by (intro unat_of_nat_small(2)) simp
  have rd: "read_at 4 4 (pg_Data p') = le_bytes 4 (of_nat c :: u32)" "read_at 0 4 (pg_Data p') = le_bytes 4 nx"
    using len read_write_same[of 4 "le_bytes 4 (of_nat c :: u32)"] read_write_same[of 0 "le_bytes 4 nx"]
    by (simp_all add: p'_def read_write_other)
  show "SerializeFreePageHeader p \<lparr>fh_NextFreeListPage = nx, fh_EntryCount = of_nat c\<rparr> = Inr p'"
    using assms(1) len by (simp add: SerializeFreePageHeader_def p'_def)
  show "fl_count p' = c" "fl_next p' = nx" using rd c by (simp_all add: fl_count_def fl_next_def)
  show "fl_ok p'" using rd c assms(1,3) len by (simp add: fl_ok_def page_ok_def word_le_nat_alt) (simp add: p'_def)
  show "i < 1018 \<Longrightarrow> fl_entry p' i = fl_entry p i"
    using len by (simp add: fl_entry_def p'_def read_write_other)
qed

lemma fl_put_entry:
  assumes "fl_ok p" "i < 1018"
  assumes p'_def: "p' = p\<lparr>pg_Data := write_at (8 + i * 4) (le_bytes 4 x) (pg_Data p)\<rparr>"
  shows "WriteFreePageEntry p (of_nat i) x = Inr p'"
    and "fl_ok p'" "fl_count p' = fl_count p" "fl_next p' = fl_next p"
    and "j < 1018 \<Longrightarrow> fl_entry p' j = (if j = i then x else fl_entry p j)"
proof -
  have len: "length (pg_Data p) = 4080" and ty: "pg_Type p = PageTypeFreeList"
    using assms(1) by (simp_all add: fl_ok_def page_ok_def)
  have i: "unat (of_nat i :: u32) = i" using assms(2) by (intro unat_of_nat_small(2)) simp
  then have "\<not> (of_nat i :: u32) \<ge> 1018" using assms(2) by (simp add: word_le_nat_alt)
  then show "WriteFreePageEntry p (of_nat i) x = Inr p'"
    using i len ty assms(2) by (simp add: WriteFreePageEntry_def p'_def Let_def)
  have rd: "read_at 4 4 (pg_Data p') = read_at 4 4 (pg_Data p)" "read_at 0 4 (pg_Data p') = read_at 0 4 (pg_Data p)"
    using len assms(2) by (simp_all add: p'_def read_write_other)
  then show "fl_count p' = fl_count p" "fl_next p' = fl_next p" by (simp_all add: fl_count_def fl_next_def)
  show "fl_ok p'" using rd assms len by (simp add: fl_ok_def page_ok_def p'_def)
  show "fl_entry p' j = (if j = i then x else fl_entry p j)" if "j < 1018"
  proof (cases "j = i")
    case True
    with len assms(2) read_write_same[of "8 + i * 4" "le_bytes 4 x" "pg_Data p"] show ?thesis
      by (simp add: fl_entry_def p'_def)
  next
    case False
    then have "8 + j * 4 + 4 \<le> 8 + i * 4 \<or> 8 + i * 4 + 4 \<le> 8 + j * 4" by linarith
    with that len assms(2) False show ?thesis by (simp add: fl_entry_def p'_def read_write_other)
  qed
qed

lemma fl_get_entry:
  assumes "fl_ok p" "i < 1018"
  shows "ReadFreePageEntry p (of_nat i) = Inr (fl_entry p i)"
proof -
  have len: "length (pg_Data p) = 4080" and ty: "pg_Type p = PageTypeFreeList"
    using assms(1) by (simp_all add: fl_ok_def page_ok_def)
  have i: "unat (of_nat i :: u32) = i" using assms(2) by (intro unat_of_nat_small(2)) simp
  then have "\<not> (of_nat i :: u32) \<ge> 1018" using assms(2) by (simp add: word_le_nat_alt)
  with i len ty assms(2) show ?thesis by (simp add: ReadFreePageEntry_def Let_def fl_entry_def)
qed

lemma fl_list_cong:
  assumes "fl_count p' = n" "n \<le> 1018" "\<And>i. i < n \<Longrightarrow> fl_entry p' i = xs ! i" "length xs = n"
  shows "fl_list p' = xs"
  by (rule nth_equalityI) (use assms in \<open>simp_all add: fl_list_def\<close>)

lemma fl_view_MarkDirty [simp]:
  "fl_ok (MarkDirty p) = fl_ok p" "fl_list (MarkDirty p) = fl_list p"
  "fl_next (MarkDirty p) = fl_next p" "fl_count (MarkDirty p) = fl_count p"
  "pg_ID (MarkDirty p) = pg_ID p" "fl_entry (MarkDirty p) = fl_entry p"
proof -
  show "fl_entry (MarkDirty p) = fl_entry p" by (rule ext) (simp add: fl_entry_def MarkDirty_def)
  then show "fl_list (MarkDirty p) = fl_list p" by (simp add: fl_list_def fl_count_def MarkDirty_def)
qed (simp_all add: fl_ok_def fl_next_def fl_count_def MarkDirty_def page_ok_def)

lemma AddFreePageToList_full:
  "fl_ok p \<Longrightarrow> fl_count p = 1018 \<Longrightarrow> AddFreePageToList p x = Inr (False, p)"
  by (simp add: AddFreePageToList_def fl_header)

lemma AddFreePageToList_push:
  assumes "fl_ok p" "fl_count p < 1018"
  obtains p' where "AddFreePageToList p x = Inr (True, p')" "fl_ok p'" "fl_next p' = fl_next p"
    "fl_list p' = fl_list p @ [x]" "pg_ID p' = pg_ID p" "pg_IsDirty p'"
proof -
  define p1 where "p1 = p\<lparr>pg_Data := write_at (8 + fl_count p * 4) (le_bytes 4 x) (pg_Data p)\<rparr>"
  note e = fl_put_entry[OF assms p1_def]
  have "pg_Type p1 = PageTypeFreeList" "page_ok p1" using e(2) by (simp_all add: fl_ok_def)
  note h = fl_put_header[OF this _ refl, where c = "Suc (fl_count p)" and nx = "fl_next p"]
  have "\<not> (of_nat (fl_count p) :: u32) \<ge> 1018"
    using assms(2) unat_of_nat_small(2)[of "fl_count p"] by (simp add: word_le_nat_alt)
  then have "AddFreePageToList p x = Inr (True, MarkDirty (p1\<lparr>pg_Data := write_at 4 (le_bytes 4 (of_nat (Suc (fl_count p)) :: u32))
      (write_at 0 (le_bytes 4 (fl_next p)) (pg_Data p1))\<rparr>))" (is "_ = Inr (True, ?p)")
    using assms e(1) h(1) by (simp add: AddFreePageToList_def fl_header add.commute)
  moreover have "fl_ok ?p" "fl_next ?p = fl_next p" using h assms(2) by simp_all
  moreover have "fl_list ?p = fl_list p @ [x]"
    by (rule fl_list_cong[of _ "Suc (fl_count p)"])
       (use assms(2) h(3,5) e(5) in \<open>simp_all add: nth_append fl_list_def\<close>)
  moreover have "pg_ID ?p = pg_ID p" "pg_IsDirty ?p" by (simp_all add: p1_def) (simp add: MarkDirty_def)
  ultimately show thesis by (rule that)
qed

lemma RemoveFreePageFromList_empty:
  "fl_ok p \<Longrightarrow> fl_list p = [] \<Longrightarrow> RemoveFreePageFromList p = Inr (None, p)"
  by (simp add: RemoveFreePageFromList_def fl_header fl_list_def)

lemma RemoveFreePageFromList_pop:
  assumes "fl_ok p" "fl_list p = xs @ [x]"
  obtains p' where "RemoveFreePageFromList p = Inr (Some x, p')" "fl_ok p'" "fl_next p' = fl_next p"
    "fl_list p' = xs" "pg_ID p' = pg_ID p" "pg_IsDirty p'"
proof -
  have c: "fl_count p = Suc (length xs)" using assms(2) length_fl_list[of p] by simp
  have b: "length xs < 1018" using c fl_count_bound[OF assms(1)] by simp
  have pt: "pg_Type p = PageTypeFreeList" "page_ok p" using assms(1) by (simp_all add: fl_ok_def)
  note h = fl_put_header[OF pt _ refl, where c = "length xs" and nx = "fl_next p"]
  have en: "fl_entry p i = (xs @ [x]) ! i" if "i \<le> length xs" for i
    using arg_cong[OF assms(2), of "\<lambda>l. l ! i"] c that by (simp add: fl_list_def del: upt_Suc)
  have x: "fl_entry p (length xs) = x" by (simp add: en)
  have nz: "(1 + of_nat (length xs) :: u32) \<noteq> 0"
  proof
    assume "(1 + of_nat (length xs) :: u32) = 0"
    then have "unat (of_nat (Suc (length xs)) :: u32) = 0" by simp
    with unat_of_nat_small(2)[of "Suc (length xs)"] b show False by simp
  qed
  have "RemoveFreePageFromList p = Inr (Some x, MarkDirty (p\<lparr>pg_Data := write_at 4 (le_bytes 4 (of_nat (length xs) :: u32))
      (write_at 0 (le_bytes 4 (fl_next p)) (pg_Data p))\<rparr>))" (is "_ = Inr (Some x, ?p)")
    using assms h(1) b nz x fl_get_entry[OF assms(1) b] by (simp add: RemoveFreePageFromList_def fl_header c)
  moreover have "fl_ok ?p" "fl_next ?p = fl_next p" using h b by simp_all
  moreover have "fl_list ?p = xs"
    by (rule fl_list_cong[of _ "length xs"])
       (use b h(3,5) en in \<open>simp_all add: nth_append\<close>)
  moreover have "pg_ID ?p = pg_ID p" "pg_IsDirty ?p" by (simp_all) (simp add: MarkDirty_def)
  ultimately show thesis by (rule that)
qed

lemma InitializeFreeListPage_ok:
  assumes "page_ok p"
  obtains p' where "InitializeFreeListPage p = Inr p'" "fl_ok p'" "fl_next p' = 0" "fl_list p' = []"
    "pg_ID p' = pg_ID p" "pg_IsDirty p'"
proof -
  have pt: "pg_Type (p\<lparr>pg_Type := PageTypeFreeList\<rparr>) = PageTypeFreeList" "page_ok (p\<lparr>pg_Type := PageTypeFreeList\<rparr>)"
    using assms by (simp_all add: page_ok_def)
  note h = fl_put_header[OF pt _ refl, where c = 0 and nx = 0]
  show thesis
  proof (rule that)
    show "InitializeFreeListPage p = Inr (MarkDirty (p\<lparr>pg_Type := PageTypeFreeList,
        pg_Data := write_at 4 (le_bytes 4 (of_nat 0 :: u32)) (write_at 0 (le_bytes 4 (0 :: u32)) (pg_Data p))\<rparr>))"
      using h(1) by (simp add: InitializeFreeListPage_def)
  qed (use h(2-4) in \<open>simp_all add: fl_list_def\<close>, simp add: MarkDirty_def)
qed

lemma le_word_zeros [simp]: "le_word (replicate n 0) = 0"
  by (induction n) simp_all

lemma fl_NewPage: "fl_ok (NewPage i PageTypeFreeList)" "fl_list (NewPage i PageTypeFreeList) = []"
  "fl_next (NewPage i PageTypeFreeList) = 0"
  by (simp_all add: fl_ok_def fl_list_def fl_next_def fl_count_def NewPage_def page_ok_def read_at_def)

lemma IsFreeListPage_answers:
  assumes "fl_ok p"
  shows "IsFreeListPageFull p = Inr (length (fl_list p) = 1018)"
    and "IsFreeListPageEmpty p = Inr (fl_list p = [])"
proof -
  have c: "unat (of_nat (fl_count p) :: u32) = fl_count p" and b: "fl_count p \<le> 1018"
    using fl_count_bound[OF assms] by (simp_all add: unat_of_nat_small(2))
  from c b show "IsFreeListPageFull p = Inr (length (fl_list p) = 1018)"
    using assms by (auto simp: IsFreeListPageFull_def fl_header word_le_nat_alt)
  have "(of_nat (fl_count p) :: u32) = 0 \<longleftrightarrow> fl_count p = 0"
    by (subst word_unat_eq_iff) (simp add: c)
  then show "IsFreeListPageEmpty p = Inr (fl_list p = [])"
    using assms by (simp add: IsFreeListPageEmpty_def fl_header fl_list_def)
qed

lemma read_entries_map:
  "fl_ok p \<Longrightarrow> \<forall>i \<in> set is. i < 1018 \<Longrightarrow> read_entries p (map of_nat is) = Inr (map (fl_entry p) is)"
  by (induction "is") (simp_all add: fl_get_entry)

lemma ReadAllFreePageEntries_list:
  assumes "fl_ok p" shows "ReadAllFreePageEntries p = Inr (fl_list p)"
  using assms fl_count_bound[OF assms] read_entries_map[OF assms, of "[0..<fl_count p]"]
  by (simp add: ReadAllFreePageEntries_def fl_header unat_of_nat_small(2) fl_list_def)

text \<open>
  A free-list page is a stack of at most 1018 page ids behind a link: initialising a page
  makes it the empty stack, adding pushes an id unless the page is full (then it answers
  \<open>False\<close> and changes nothing), removing pops the id added last or answers \<open>None\<close> on an
  empty page, reading lists the ids in the order they were added, and none of them touches
  the link or reports an error.
\<close>

theorem free_list_page_is_stack:
  assumes "fl_ok p"
  shows "(length (fl_list p) = 1018 \<longrightarrow> AddFreePageToList p x = Inr (False, p)) \<and>
    (length (fl_list p) < 1018 \<longrightarrow> (\<exists>p'. AddFreePageToList p x = Inr (True, p') \<and> fl_ok p' \<and>
       fl_list p' = fl_list p @ [x] \<and> fl_next p' = fl_next p \<and> pg_ID p' = pg_ID p)) \<and>
    (fl_list p = [] \<longrightarrow> RemoveFreePageFromList p = Inr (None, p)) \<and>
    (fl_list p \<noteq> [] \<longrightarrow> (\<exists>p'. RemoveFreePageFromList p = Inr (Some (last (fl_list p)), p') \<and> fl_ok p' \<and>
       fl_list p' = butlast (fl_list p) \<and> fl_next p' = fl_next p \<and> pg_ID p' = pg_ID p)) \<and>
    ReadAllFreePageEntries p = Inr (fl_list p) \<and>
    IsFreeListPageFull p = Inr (length (fl_list p) = 1018) \<and> IsFreeListPageEmpty p = Inr (fl_list p = [])"
proof (intro conjI impI)
  show "\<exists>p'. AddFreePageToList p x = Inr (True, p') \<and> fl_ok p' \<and>
       fl_list p' = fl_list p @ [x] \<and> fl_next p' = fl_next p \<and> pg_ID p' = pg_ID p"
    if l: "length (fl_list p) < 1018"
  proof -
    from l have "fl_count p < 1018" by simp
    from AddFreePageToList_push[OF assms this, of x] show ?thesis by blast
  qed
  show "\<exists>p'. RemoveFreePageFromList p = Inr (Some (last (fl_list p)), p') \<and> fl_ok p' \<and>
       fl_list p' = butlast (fl_list p) \<and> fl_next p' = fl_next p \<and> pg_ID p' = pg_ID p"
    if n: "fl_list p \<noteq> []"
  proof -
    from n have "fl_list p = butlast (fl_list p) @ [last (fl_list p)]" by simp
    from RemoveFreePageFromList_pop[OF assms this] show ?thesis by blast
  qed
qed (use assms in \<open>simp_all add: AddFreePageToList_full RemoveFreePageFromList_empty
      ReadAllFreePageEntries_list IsFreeListPage_answers\<close>)

theorem free_list_page_is_stack_witness:
  "\<exists>p'. AddFreePageToList (NewPage 5 PageTypeFreeList) 9 = Inr (True, p') \<and> fl_list p' = [9]"
  using free_list_page_is_stack[OF fl_NewPage(1), of 5 9] by (auto simp: fl_NewPage)

end
