(* ===== verification/DiskManager.thy ===== *)
theory DiskManager
  imports Page
begin

text \<open>
  \<^verbatim>\<open>pkg/storage/disk_manager.go\<close>: pages in a data file, and the allocator that reuses freed
  pages through a chain of free-list pages. The file is its bytes; reads and writes through
  \<^verbatim>\<open>os.File\<close> succeed, so the error branches left are those of the page format. The mutex makes
  every operation one step. \<open>file_page\<close> is what a read of a page shows, and \<open>alloc_inv\<close> says
  that the chain, the free pages it lists and the pages held by a client are disjoint.
\<close>

subsection \<open>The data file\<close>

text \<open>\<^verbatim>\<open>File.ReadAt\<close> returns the bytes there are; \<^verbatim>\<open>File.WriteAt\<close> past the end leaves a gap of zeros.\<close>

definition file_WriteAt :: "nat \<Rightarrow> bytes \<Rightarrow> bytes \<Rightarrow> bytes" where
  "file_WriteAt off bs f = write_at off bs (f @ replicate (off + length bs - length f) 0)"

record FreePageList =
  fpl_HeadPageID :: u32
  fpl_PageCount :: u32

definition NewFreePageList :: FreePageList where
  "NewFreePageList = \<lparr>fpl_HeadPageID = 0, fpl_PageCount = 0\<rparr>"

record DiskManager =
  dm_dataFile :: bytes
  dm_nextPageID :: u32
  dm_freePageList :: FreePageList
  dm_totalReads :: u64
  dm_totalWrites :: u64

datatype disk_error = DiskPage page_error | DiskBadPageID u32

definition loadFreePageList :: "DiskManager \<Rightarrow> DiskManager" where
  "loadFreePageList dm = dm\<lparr>dm_freePageList := NewFreePageList\<rparr>"

definition NewDiskManager :: "bytes \<Rightarrow> DiskManager" where
  "NewDiskManager file =
     (let nextPageID = of_nat (length file div PageSize);
          dm = \<lparr>dm_dataFile = file, dm_nextPageID = nextPageID, dm_freePageList = NewFreePageList,
                dm_totalReads = 0, dm_totalWrites = 0\<rparr>
      in if nextPageID > 0 then loadFreePageList dm else dm)"

definition readPageInternal :: "DiskManager \<Rightarrow> u32 \<Rightarrow> disk_error + Page \<times> DiskManager" where
  "readPageInternal dm pageID =
     (let data = read_at (unat pageID * PageSize) PageSize (dm_dataFile dm)
      in if length data < PageSize then Inr (NewPage pageID PageTypeData, dm)
         else case Deserialize data (NewPage pageID PageTypeData) of
           Inl e \<Rightarrow> Inl (DiskPage e)
         | Inr page \<Rightarrow> Inr (page, dm\<lparr>dm_totalReads := dm_totalReads dm + 1\<rparr>))"

definition writePageInternal :: "DiskManager \<Rightarrow> Page \<Rightarrow> DiskManager" where
  "writePageInternal dm page =
     dm\<lparr>dm_dataFile := file_WriteAt (unat (pg_ID page) * PageSize) (Serialize page) (dm_dataFile dm),
        dm_totalWrites := dm_totalWrites dm + 1\<rparr>"

definition ReadPage :: "DiskManager \<Rightarrow> u32 \<Rightarrow> disk_error + Page \<times> DiskManager" where
  "ReadPage dm pageID = readPageInternal dm pageID"

definition WritePage :: "DiskManager \<Rightarrow> Page \<Rightarrow> DiskManager" where
  "WritePage dm page = writePageInternal dm page"

definition set_free :: "u32 \<Rightarrow> u32 \<Rightarrow> DiskManager \<Rightarrow> DiskManager" where
  "set_free h c dm = dm\<lparr>dm_freePageList := \<lparr>fpl_HeadPageID = h, fpl_PageCount = c\<rparr>\<rparr>"

text \<open>
  The source drops the error of \<^verbatim>\<open>InitializeFreeListPage\<close> and \<^verbatim>\<open>SerializeFreePageHeader\<close>, which
  return none; a panic in them would end the call.
\<close>

definition pushFreePage :: "DiskManager \<Rightarrow> u32 \<Rightarrow> disk_error + DiskManager" where
  "pushFreePage dm pageID =
     (let head = fpl_HeadPageID (dm_freePageList dm); cnt = fpl_PageCount (dm_freePageList dm)
      in if head = 0 then
           let freeListPageID = dm_nextPageID dm;
               dm1 = dm\<lparr>dm_nextPageID := dm_nextPageID dm + 1\<rparr>
           in case InitializeFreeListPage (NewPage freeListPageID PageTypeFreeList) of
                Inl e \<Rightarrow> Inl (DiskPage e)
              | Inr page \<Rightarrow>
                 (case AddFreePageToList page pageID of
                    Inl e \<Rightarrow> Inl (DiskPage e)
                  | Inr (_, page') \<Rightarrow> Inr (set_free freeListPageID 1 (writePageInternal dm1 page')))
         else case readPageInternal dm head of
           Inl e \<Rightarrow> Inl e
         | Inr (headPage, dm1) \<Rightarrow>
            (case AddFreePageToList headPage pageID of
               Inl e \<Rightarrow> Inl (DiskPage e)
             | Inr (added, headPage') \<Rightarrow>
                if added then Inr (set_free head (cnt + 1) (writePageInternal dm1 headPage'))
                else case InitializeFreeListPage (NewPage pageID PageTypeFreeList) of
                  Inl e \<Rightarrow> Inl (DiskPage e)
                | Inr newHead \<Rightarrow>
                   (case SerializeFreePageHeader newHead \<lparr>fh_NextFreeListPage = head, fh_EntryCount = 0\<rparr> of
                      Inl e \<Rightarrow> Inl (DiskPage e)
                    | Inr newHead' \<Rightarrow> Inr (set_free pageID cnt (writePageInternal dm1 newHead')))))"

definition popFreePage :: "DiskManager \<Rightarrow> disk_error + u32 option \<times> DiskManager" where
  "popFreePage dm =
     (let head = fpl_HeadPageID (dm_freePageList dm); cnt = fpl_PageCount (dm_freePageList dm)
      in if head = 0 \<or> cnt = 0 then Inr (None, dm)
         else case readPageInternal dm head of
           Inl e \<Rightarrow> Inl e
         | Inr (headPage, dm1) \<Rightarrow>
            (case RemoveFreePageFromList headPage of
               Inl e \<Rightarrow> Inl (DiskPage e)
             | Inr (None, headPage') \<Rightarrow>
                (case DeserializeFreePageHeader headPage' of
                   Inl e \<Rightarrow> Inl (DiskPage e)
                 | Inr h \<Rightarrow> Inr (Some head, set_free (fh_NextFreeListPage h) cnt dm1))
             | Inr (Some pageID, headPage') \<Rightarrow>
                Inr (Some pageID, set_free head (cnt - 1) (writePageInternal dm1 headPage'))))"

definition fresh_page :: "DiskManager \<Rightarrow> u32 \<times> DiskManager" where
  "fresh_page dm = (dm_nextPageID dm, dm\<lparr>dm_nextPageID := dm_nextPageID dm + 1\<rparr>)"

definition AllocatePage :: "DiskManager \<Rightarrow> disk_error + u32 \<times> DiskManager" where
  "AllocatePage dm =
     (if fpl_PageCount (dm_freePageList dm) > 0 \<or> fpl_HeadPageID (dm_freePageList dm) \<noteq> 0 then
        case popFreePage dm of
          Inl e \<Rightarrow> Inl e
        | Inr (Some pageID, dm1) \<Rightarrow> Inr (pageID, dm1)
        | Inr (None, dm1) \<Rightarrow> Inr (fresh_page dm1)
      else Inr (fresh_page dm))"

definition DeallocatePage :: "DiskManager \<Rightarrow> u32 \<Rightarrow> disk_error + DiskManager" where
  "DeallocatePage dm pageID =
     (if pageID \<ge> dm_nextPageID dm then Inl (DiskBadPageID pageID) else pushFreePage dm pageID)"

subsection \<open>What a read shows\<close>

definition on_disk :: "bytes \<Rightarrow> u32 \<Rightarrow> bool" where
  "on_disk f q \<longleftrightarrow> (unat q + 1) * PageSize \<le> length f"

definition block :: "bytes \<Rightarrow> u32 \<Rightarrow> bytes" where
  "block f q = read_at (unat q * PageSize) PageSize f"

definition clean :: "Page \<Rightarrow> Page" where
  "clean p = p\<lparr>pg_IsDirty := False, pg_PinCount := 0\<rparr>"

definition file_page :: "bytes \<Rightarrow> u32 \<Rightarrow> Page" where
  "file_page f q =
     (if on_disk f q then
        \<lparr>pg_ID = le_word (read_at 0 4 (block f q)), pg_Type = block f q ! 4, pg_Flags = block f q ! 5,
         pg_LSN = le_word (read_at 6 8 (block f q)), pg_Data = drop PageHeaderSize (block f q),
         pg_IsDirty = False, pg_PinCount = 0\<rparr>
      else NewPage q PageTypeData)"

lemma length_block: "on_disk f q \<Longrightarrow> length (block f q) = PageSize"
  by (simp add: on_disk_def block_def read_at_def)

lemma short_block: "length (block f q) < PageSize \<longleftrightarrow> \<not> on_disk f q"
  by (auto simp: on_disk_def block_def read_at_def)

lemma page_ok_file_page [simp]: "page_ok (file_page f q)"
  by (cases "on_disk f q") (simp_all add: file_page_def page_ok_def length_block NewPage_def)

lemma file_page_clean [simp]: "pg_IsDirty (file_page f q) = False" "pg_PinCount (file_page f q) = 0"
  by (simp_all add: file_page_def NewPage_def)

lemma readPageInternal_eq:
  "readPageInternal dm q = Inr (file_page (dm_dataFile dm) q,
     if on_disk (dm_dataFile dm) q then dm\<lparr>dm_totalReads := dm_totalReads dm + 1\<rparr> else dm)"
proof (cases "on_disk (dm_dataFile dm) q")
  case True
  note l = length_block[OF True]
  then show ?thesis using True
    by (simp add: readPageInternal_def Let_def block_def[symmetric] Deserialize_def file_page_def
        NewPage_def go_copy_def)
next
  case False
  then show ?thesis
    using short_block[of "dm_dataFile dm" q]
    by (simp add: readPageInternal_def Let_def block_def[symmetric] file_page_def)
qed

lemma length_file_WriteAt: "length (file_WriteAt off bs f) = max (length f) (off + length bs)"
  by (simp add: file_WriteAt_def)

lemma file_WriteAt_nth:
  assumes "i < max (length f) (off + length bs)"
  shows "file_WriteAt off bs f ! i = (if off \<le> i \<and> i < off + length bs then bs ! (i - off)
    else if i < length f then f ! i else 0)"
  using assms by (simp add: file_WriteAt_def write_at_nth nth_append)

lemma block_WriteAt_same:
  assumes "length bs = PageSize"
  shows "block (file_WriteAt (unat q * PageSize) bs f) q = bs" "on_disk (file_WriteAt (unat q * PageSize) bs f) q"
  using assms read_write_same[of "unat q * PageSize" bs]
  by (simp_all add: block_def file_WriteAt_def on_disk_def)

lemma block_WriteAt_other:
  assumes "length bs = PageSize" "r \<noteq> q" "on_disk f r"
  shows "block (file_WriteAt (unat q * PageSize) bs f) r = block f r" "on_disk (file_WriteAt (unat q * PageSize) bs f) r"
proof -
  have "unat r \<noteq> unat q" using assms(2) by (simp add: word_unat_eq_iff)
  then have "unat r * PageSize + PageSize \<le> unat q * PageSize \<or> unat q * PageSize + PageSize \<le> unat r * PageSize"
    by linarith
  with assms show "block (file_WriteAt (unat q * PageSize) bs f) r = block f r"
    by (simp add: block_def file_WriteAt_def read_write_other on_disk_def) (simp add: read_at_def)
  show "on_disk (file_WriteAt (unat q * PageSize) bs f) r"
    using assms by (simp add: on_disk_def length_file_WriteAt)
qed

lemma file_page_of_block:
  assumes "on_disk f q" "block f q = Serialize p" "page_ok p"
  shows "file_page f q = clean p"
proof -
  have "readPageInternal \<lparr>dm_dataFile = f, dm_nextPageID = 0, dm_freePageList = NewFreePageList,
      dm_totalReads = 0, dm_totalWrites = 0\<rparr> q = Inr (clean p, \<lparr>dm_dataFile = f, dm_nextPageID = 0,
      dm_freePageList = NewFreePageList, dm_totalReads = 1, dm_totalWrites = 0\<rparr>)"
    using assms by (simp add: readPageInternal_def block_def[symmetric] Deserialize_Serialize clean_def NewPage_def)
  then show ?thesis by (simp add: readPageInternal_eq assms)
qed

lemma file_page_written:
  assumes "page_ok p"
  shows "file_page (dm_dataFile (writePageInternal dm p)) (pg_ID p) = clean p"
    and "on_disk (dm_dataFile (writePageInternal dm p)) (pg_ID p)"
  using assms block_WriteAt_same[of "Serialize p" "pg_ID p" "dm_dataFile dm"]
  by (simp_all add: writePageInternal_def file_page_of_block)

lemma file_page_kept:
  assumes "on_disk (dm_dataFile dm) r" "r \<noteq> pg_ID p"
  shows "file_page (dm_dataFile (writePageInternal dm p)) r = file_page (dm_dataFile dm) r"
    and "on_disk (dm_dataFile (writePageInternal dm p)) r"
  using assms block_WriteAt_other[of "Serialize p" r "pg_ID p" "dm_dataFile dm"]
  by (simp_all add: writePageInternal_def file_page_def)

subsection \<open>Interface: a store of pages\<close>

text \<open>
  What the buffer pool relies on: a stored page reads back as it was written last, until it is
  written again. \<open>st\<close> says which pages are stored.
\<close>

locale page_store =
  fixes rd :: "'d \<Rightarrow> u32 \<Rightarrow> Page"
    and wr :: "'d \<Rightarrow> Page \<Rightarrow> 'd"
    and st :: "'d \<Rightarrow> u32 \<Rightarrow> bool"
  assumes rd_written: "page_ok p \<Longrightarrow> st (wr d p) (pg_ID p) \<and> rd (wr d p) (pg_ID p) = clean p"
    and rd_other: "st d q \<Longrightarrow> q \<noteq> pg_ID p \<Longrightarrow> st (wr d p) q \<and> rd (wr d p) q = rd d q"
begin

lemma rd_unwritten:
  "st d q \<Longrightarrow> q \<notin> pg_ID ` set ps \<Longrightarrow> st (fold (\<lambda>p d. wr d p) ps d) q \<and> rd (fold (\<lambda>p d. wr d p) ps d) q = rd d q"
  by (induction ps arbitrary: d) (auto simp: rd_other)

text \<open>Writing a batch of pages with distinct ids stores each of them.\<close>

lemma rd_batch:
  assumes "\<forall>p \<in> set ps. page_ok p" "distinct (map pg_ID ps)" "p \<in> set ps"
  shows "st (fold (\<lambda>p d. wr d p) ps d) (pg_ID p) \<and> rd (fold (\<lambda>p d. wr d p) ps d) (pg_ID p) = clean p"
  using assms
proof (induction ps arbitrary: d)
  case (Cons r ps)
  show ?case
  proof (cases "p = r")
    case True
    with Cons.prems have "st (wr d p) (pg_ID p)" "rd (wr d p) (pg_ID p) = clean p" "pg_ID p \<notin> pg_ID ` set ps"
      by (simp_all add: rd_written)
    with rd_unwritten[of "wr d p" "pg_ID p" ps] True show ?thesis by simp
  qed (use Cons in auto)
qed simp

end

interpretation pstore: page_store "\<lambda>dm q. file_page (dm_dataFile dm) q" WritePage "\<lambda>dm q. on_disk (dm_dataFile dm) q"
  by unfold_locales (simp_all add: WritePage_def file_page_written file_page_kept)

text \<open>A page in the gap before a write past the end of the file reads as zeros, its id included.\<close>

lemma file_page_gap:
  assumes "\<not> on_disk (dm_dataFile dm) r" "length (dm_dataFile dm) \<le> unat r * PageSize" "r < pg_ID p"
  shows "file_page (dm_dataFile (writePageInternal dm p)) r = NewPage 0 PageTypeData"
proof -
  let ?f = "dm_dataFile (writePageInternal dm p)"
  have lt: "unat r < unat (pg_ID p)" using assms(3) by (simp add: word_less_nat_alt)
  then have le: "unat r * PageSize + PageSize \<le> unat (pg_ID p) * PageSize" by linarith
  have on: "on_disk ?f r" using le by (simp add: on_disk_def writePageInternal_def length_file_WriteAt)
  have "block ?f r = replicate PageSize 0"
  proof (rule nth_equalityI)
    show "length (block ?f r) = length (replicate PageSize 0 :: bytes)" using length_block[OF on] by simp
  next
    fix i assume "i < length (block ?f r)"
    then have i: "i < PageSize" using length_block[OF on] by simp
    have "block ?f r ! i = ?f ! (unat r * PageSize + i)"
      using i on by (simp add: block_def read_at_def on_disk_def)
    also have "\<dots> = 0"
      using i le assms(2) unfolding writePageInternal_def by (simp add: file_WriteAt_nth)
    finally show "block ?f r ! i = replicate PageSize 0 ! i" using i by simp
  qed
  with on show ?thesis by (simp add: file_page_def NewPage_def read_at_def)
qed

subsection \<open>The chain of free-list pages\<close>

fun fl_chain :: "bytes \<Rightarrow> u32 \<Rightarrow> u32 list \<Rightarrow> bool" where
  "fl_chain f h [] \<longleftrightarrow> h = 0"
| "fl_chain f h (i # ids) \<longleftrightarrow> h = i \<and> i \<noteq> 0 \<and> on_disk f i \<and> fl_ok (file_page f i) \<and>
     pg_ID (file_page f i) = i \<and> fl_chain f (fl_next (file_page f i)) ids"

definition entries :: "bytes \<Rightarrow> u32 list \<Rightarrow> u32 list" where
  "entries f ids = concat (map (\<lambda>i. fl_list (file_page f i)) ids)"

lemma entries_simps [simp]: "entries f [] = []"
  "entries f (i # ids) = fl_list (file_page f i) @ entries f ids"
  by (simp_all add: entries_def)

lemma fl_chain_kept:
  assumes "fl_chain (dm_dataFile dm) h ids" "pg_ID p \<notin> set ids"
  shows "fl_chain (dm_dataFile (writePageInternal dm p)) h ids"
    and "entries (dm_dataFile (writePageInternal dm p)) ids = entries (dm_dataFile dm) ids"
  using assms by (induction ids arbitrary: h) (auto simp: file_page_kept)

lemma fl_view_clean [simp]: "fl_ok (clean p) = fl_ok p" "fl_list (clean p) = fl_list p"
  "fl_next (clean p) = fl_next p" "pg_ID (clean p) = pg_ID p"
proof -
  have "fl_entry (clean p) = fl_entry p" by (rule ext) (simp add: fl_entry_def clean_def)
  then show "fl_list (clean p) = fl_list p" by (simp add: fl_list_def fl_count_def clean_def)
qed (simp_all add: fl_ok_def fl_next_def clean_def page_ok_def)

text \<open>Writing the head page of a chain whose tail is elsewhere.\<close>

lemma fl_chain_write_head:
  assumes "fl_chain (dm_dataFile dm) (fl_next p) ids" "fl_ok p" "pg_ID p \<noteq> 0" "pg_ID p \<notin> set ids"
  shows "fl_chain (dm_dataFile (writePageInternal dm p)) (pg_ID p) (pg_ID p # ids)"
    and "entries (dm_dataFile (writePageInternal dm p)) (pg_ID p # ids) = fl_list p @ entries (dm_dataFile dm) ids"
  using assms fl_chain_kept[OF assms(1,4)] file_page_written[of p dm]
  by (simp_all add: fl_ok_def) (simp_all add: fl_ok_def[symmetric])

lemma length_below: "distinct qs \<Longrightarrow> \<forall>q \<in> set qs. q < n \<Longrightarrow> length qs \<le> unat (n :: u32)"
proof -
  assume d: "distinct qs" and n: "\<forall>q \<in> set qs. q < n"
  have "length qs = card (unat ` set qs)"
    using distinct_card[OF d] card_image[of unat "set qs"] by (simp add: inj_on_def word_unat_eq_iff)
  also have "\<dots> \<le> card {0..<unat n}"
    by (rule card_mono) (use n in \<open>auto simp: word_less_nat_alt\<close>)
  finally show ?thesis by simp
qed

subsection \<open>The allocator\<close>

text \<open>
  \<open>m\<close> is the client's view: the pages it holds, with the page it wrote last (\<open>Some p\<close>) or
  \<open>None\<close> while it has written nothing.
\<close>

type_synonym client = "u32 \<rightharpoonup> Page option"

definition alloc_chain :: "DiskManager \<Rightarrow> client \<Rightarrow> u32 list \<Rightarrow> bool" where
  "alloc_chain dm m ids \<longleftrightarrow>
     (let f = dm_dataFile dm; fl = dm_freePageList dm; es = entries f ids
      in fl_chain f (fpl_HeadPageID fl) ids \<and> distinct (ids @ es) \<and>
         (\<forall>q \<in> set (ids @ es) \<union> dom m. q < dm_nextPageID dm) \<and> dom m \<inter> set (ids @ es) = {} \<and>
         (fpl_HeadPageID fl \<noteq> 0 \<longrightarrow> unat (fpl_PageCount fl) = length es) \<and>
         (\<forall>q p. m q = Some (Some p) \<longrightarrow> on_disk f q \<and> file_page f q = clean p))"

definition alloc_inv :: "DiskManager \<Rightarrow> client \<Rightarrow> bool" where
  "alloc_inv dm m \<longleftrightarrow> (\<exists>ids. alloc_chain dm m ids)"

lemma alloc_chainI:
  assumes "fl_chain (dm_dataFile dm) (fpl_HeadPageID (dm_freePageList dm)) ids"
    and "es = entries (dm_dataFile dm) ids" "distinct (ids @ es)"
    and "\<And>q. q \<in> set ids \<Longrightarrow> q < dm_nextPageID dm" "\<And>q. q \<in> set es \<Longrightarrow> q < dm_nextPageID dm"
    and "\<And>q. q \<in> dom m \<Longrightarrow> q < dm_nextPageID dm" "\<And>q. q \<in> dom m \<Longrightarrow> q \<notin> set ids \<and> q \<notin> set es"
    and "fpl_HeadPageID (dm_freePageList dm) \<noteq> 0 \<Longrightarrow> unat (fpl_PageCount (dm_freePageList dm)) = length es"
    and "\<And>q p. m q = Some (Some p) \<Longrightarrow> on_disk (dm_dataFile dm) q \<and> file_page (dm_dataFile dm) q = clean p"
  shows "alloc_inv dm m"
  unfolding alloc_inv_def alloc_chain_def Let_def
proof (intro exI[of _ ids] conjI ballI allI impI)
  show "q < dm_nextPageID dm" if "q \<in> set (ids @ entries (dm_dataFile dm) ids) \<union> dom m" for q
    using that assms(2,4-6) by (metis UnE set_append)
  show "dom m \<inter> set (ids @ entries (dm_dataFile dm) ids) = {}" using assms(2,7) by auto
qed (use assms(1,2,3,8,9) in simp_all)

lemma alloc_chainD:
  assumes "alloc_chain dm m ids"
  shows "fl_chain (dm_dataFile dm) (fpl_HeadPageID (dm_freePageList dm)) ids"
    and "distinct ids" "distinct (entries (dm_dataFile dm) ids)" "set ids \<inter> set (entries (dm_dataFile dm) ids) = {}"
    and "q \<in> set ids \<Longrightarrow> q < dm_nextPageID dm" "q \<in> set (entries (dm_dataFile dm) ids) \<Longrightarrow> q < dm_nextPageID dm"
    and "q \<in> dom m \<Longrightarrow> q < dm_nextPageID dm" "q \<in> dom m \<Longrightarrow> q \<notin> set ids \<and> q \<notin> set (entries (dm_dataFile dm) ids)"
    and "fpl_HeadPageID (dm_freePageList dm) \<noteq> 0 \<Longrightarrow>
       unat (fpl_PageCount (dm_freePageList dm)) = length (entries (dm_dataFile dm) ids)"
    and "m q = Some (Some p) \<Longrightarrow> on_disk (dm_dataFile dm) q \<and> file_page (dm_dataFile dm) q = clean p"
  using assms unfolding alloc_chain_def Let_def by auto

lemma set_free_simps [simp]:
  "dm_dataFile (set_free h c dm) = dm_dataFile dm" "dm_nextPageID (set_free h c dm) = dm_nextPageID dm"
  "fpl_HeadPageID (dm_freePageList (set_free h c dm)) = h" "fpl_PageCount (dm_freePageList (set_free h c dm)) = c"
  by (simp_all add: set_free_def)

lemma writePageInternal_simps [simp]:
  "dm_nextPageID (writePageInternal dm p) = dm_nextPageID dm"
  "dm_freePageList (writePageInternal dm p) = dm_freePageList dm"
  by (simp_all add: writePageInternal_def)

lemma alloc_inv_reads [simp]: "alloc_inv (dm\<lparr>dm_totalReads := n\<rparr>) m = alloc_inv dm m"
  by (simp add: alloc_inv_def alloc_chain_def)

lemma alloc_inv_write:
  assumes inv: "alloc_inv dm m" and p: "pg_ID p \<in> dom m" "page_ok p"
  shows "alloc_inv (WritePage dm p) (m(pg_ID p \<mapsto> Some p))"
proof -
  obtain ids where "alloc_chain dm m ids" using inv by (auto simp: alloc_inv_def)
  note a = alloc_chainD[OF this]
  note k = fl_chain_kept[OF a(1), of p]
  show ?thesis
  proof (rule alloc_chainI[where ids = ids and es = "entries (dm_dataFile dm) ids"])
    show "on_disk (dm_dataFile (WritePage dm p)) q \<and> file_page (dm_dataFile (WritePage dm p)) q = clean r"
      if "(m(pg_ID p \<mapsto> Some p)) q = Some (Some r)" for q r
      using that a(10)[of q r] p(2) file_page_kept[of dm q p] file_page_written[of p dm]
      by (auto simp: WritePage_def split: if_splits)
    show "q < dm_nextPageID (WritePage dm p)" if "q \<in> dom (m(pg_ID p \<mapsto> Some p))" for q
      using that a(7)[of q] p(1) by (auto simp: WritePage_def)
    show "q \<notin> set ids \<and> q \<notin> set (entries (dm_dataFile dm) ids)" if "q \<in> dom (m(pg_ID p \<mapsto> Some p))" for q
      using that a(8)[of q] p(1) by auto
  qed (use k a(2-6,9) a(8)[OF p(1)] in \<open>simp_all add: WritePage_def\<close>)
qed

lemma next_page_less:
  assumes "unat (n :: u32) + 1 < 2 ^ 32"
  shows "q < n \<Longrightarrow> q < n + 1" "n < n + 1" "n + 1 \<noteq> 0" "unat (n + 1) = unat n + 1"
  using assms by (simp_all add: word_less_nat_alt unat_word_ariths word_unat_eq_iff)

lemma alloc_inv_fresh:
  assumes inv: "alloc_inv dm m" and w: "unat (dm_nextPageID dm) + 1 < 2 ^ 32"
  shows "m (dm_nextPageID dm) = None" "alloc_inv (snd (fresh_page dm)) (m(dm_nextPageID dm \<mapsto> None))"
proof -
  obtain ids where "alloc_chain dm m ids" using inv by (auto simp: alloc_inv_def)
  note a = alloc_chainD[OF this] and l = next_page_less[OF w]
  show n: "m (dm_nextPageID dm) = None" using a(7)[of "dm_nextPageID dm"] by auto
  show "alloc_inv (snd (fresh_page dm)) (m(dm_nextPageID dm \<mapsto> None))"
  proof (rule alloc_chainI[where ids = ids and es = "entries (dm_dataFile dm) ids"])
    show "q < dm_nextPageID (snd (fresh_page dm))" if "q \<in> dom (m(dm_nextPageID dm \<mapsto> None))" for q
      using that a(7)[of q] l(1)[of q] l(2) by (auto simp: fresh_page_def)
    show "q \<notin> set ids \<and> q \<notin> set (entries (dm_dataFile dm) ids)" if "q \<in> dom (m(dm_nextPageID dm \<mapsto> None))" for q
      using that a(8)[of q] a(5)[of q] a(6)[of q] by auto
  qed (use a(1-4,9,10) a(5,6)[THEN l(1)] in \<open>auto simp: fresh_page_def split: if_splits\<close>)
qed

text \<open>A non-empty chain, taken apart at its head page.\<close>

lemma alloc_headE:
  assumes "alloc_inv dm m" "fpl_HeadPageID (dm_freePageList dm) = h" "h \<noteq> 0"
  obtains ids where "alloc_chain dm m (h # ids)" "on_disk (dm_dataFile dm) h" "fl_ok (file_page (dm_dataFile dm) h)"
    "pg_ID (file_page (dm_dataFile dm) h) = h" "fl_chain (dm_dataFile dm) (fl_next (file_page (dm_dataFile dm) h)) ids"
proof -
  obtain ids where ac: "alloc_chain dm m ids" using assms(1) by (auto simp: alloc_inv_def)
  then show thesis using alloc_chainD(1)[OF ac] assms(2,3) that by (cases ids) auto
qed

lemma pop_head_page:
  assumes inv: "alloc_inv dm m" and h: "fpl_HeadPageID (dm_freePageList dm) = h" "h \<noteq> 0" "fpl_PageCount (dm_freePageList dm) \<noteq> 0"
    and e: "fl_list (file_page (dm_dataFile dm) h) = []"
  shows "\<exists>dm'. popFreePage dm = Inr (Some h, dm') \<and> m h = None \<and> alloc_inv dm' (m(h \<mapsto> None)) \<and>
    dm_nextPageID dm' = dm_nextPageID dm"
proof -
  let ?f = "dm_dataFile dm" and ?c = "fpl_PageCount (dm_freePageList dm)"
  obtain ids where "alloc_chain dm m (h # ids)" and ch: "on_disk ?f h" "fl_ok (file_page ?f h)"
      "pg_ID (file_page ?f h) = h" "fl_chain ?f (fl_next (file_page ?f h)) ids"
    by (rule alloc_headE[OF inv h(1,2)])
  note a = alloc_chainD[OF this(1)]
  let ?d = "set_free (fl_next (file_page ?f h)) ?c (dm\<lparr>dm_totalReads := dm_totalReads dm + 1\<rparr>)"
  have "popFreePage dm = Inr (Some h, ?d)"
    using h ch e by (simp add: popFreePage_def readPageInternal_eq RemoveFreePageFromList_empty fl_header)
  moreover have "m h = None" using a(8)[of h] by auto
  moreover have "alloc_inv ?d (m(h \<mapsto> None))"
  proof (rule alloc_chainI[where ids = ids and es = "entries ?f ids"])
    show "q \<notin> set ids \<and> q \<notin> set (entries ?f ids)" if "q \<in> dom (m(h \<mapsto> None))" for q
      using that a(8)[of q] a(2-4) e by auto
  qed (use ch a(2-7,9,10) e h in \<open>auto split: if_splits\<close>)
  ultimately show ?thesis by simp
qed

lemma pop_entry:
  assumes inv: "alloc_inv dm m" and h: "fpl_HeadPageID (dm_freePageList dm) = h" "h \<noteq> 0" "fpl_PageCount (dm_freePageList dm) \<noteq> 0"
    and xs: "fl_list (file_page (dm_dataFile dm) h) = xs @ [x]"
  shows "\<exists>dm'. popFreePage dm = Inr (Some x, dm') \<and> m x = None \<and> alloc_inv dm' (m(x \<mapsto> None)) \<and>
    dm_nextPageID dm' = dm_nextPageID dm"
proof -
  let ?f = "dm_dataFile dm" and ?c = "fpl_PageCount (dm_freePageList dm)"
  obtain ids where "alloc_chain dm m (h # ids)" and ch: "on_disk ?f h" "fl_ok (file_page ?f h)"
      "pg_ID (file_page ?f h) = h" "fl_chain ?f (fl_next (file_page ?f h)) ids"
    by (rule alloc_headE[OF inv h(1,2)])
  note a = alloc_chainD[OF this(1)]
  obtain p' where p': "RemoveFreePageFromList (file_page ?f h) = Inr (Some x, p')" "fl_ok p'"
      "fl_next p' = fl_next (file_page ?f h)" "fl_list p' = xs" "pg_ID p' = h"
    by (rule RemoveFreePageFromList_pop[OF ch(2) xs]) (use ch(3) in auto)
  let ?e = "dm\<lparr>dm_totalReads := dm_totalReads dm + 1\<rparr>"
  let ?d = "set_free h (?c - 1) (writePageInternal ?e p')"
  have nh: "pg_ID p' \<notin> set ids" "fl_chain (dm_dataFile ?e) (fl_next p') ids" "pg_ID p' \<noteq> 0"
    using a(2) p'(3,5) ch(4) h by simp_all
  note wh = fl_chain_write_head[OF nh(2) p'(2) nh(3,1)]
  have "popFreePage dm = Inr (Some x, ?d)"
    using h ch p'(1) by (simp add: popFreePage_def readPageInternal_eq)
  moreover have "m x = None" using a(8)[of x] xs by auto
  moreover have "alloc_inv ?d (m(x \<mapsto> None))"
  proof (rule alloc_chainI[where ids = "h # ids" and es = "xs @ entries ?f ids"])
    show "q \<notin> set (h # ids) \<and> q \<notin> set (xs @ entries ?f ids)" if "q \<in> dom (m(x \<mapsto> None))" for q
      using that a(8)[of q] a(2-4) xs by auto
    show "unat (fpl_PageCount (dm_freePageList ?d)) = length (xs @ entries ?f ids)"
      using a(9) h xs by (simp add: unat_sub word_le_nat_alt)
    show "on_disk (dm_dataFile ?d) q \<and> file_page (dm_dataFile ?d) q = clean r"
      if "(m(x \<mapsto> None)) q = Some (Some r)" for q r
      using that a(10)[of q r] a(8)[of q] file_page_kept[of ?e q p'] p'(5) by (auto split: if_splits)
  qed (use wh p'(4,5) a(2-7) xs in \<open>auto\<close>)
  ultimately show ?thesis by simp
qed

lemma alloc_inv_alloc:
  assumes inv: "alloc_inv dm m" and w: "unat (dm_nextPageID dm) + 1 < 2 ^ 32"
  shows "\<exists>q dm'. AllocatePage dm = Inr (q, dm') \<and> m q = None \<and> alloc_inv dm' (m(q \<mapsto> None)) \<and>
    unat (dm_nextPageID dm') \<le> unat (dm_nextPageID dm) + 1"
proof (cases "fpl_HeadPageID (dm_freePageList dm) = 0 \<or> fpl_PageCount (dm_freePageList dm) = 0")
  case True
  then have "AllocatePage dm = Inr (fresh_page dm)" by (auto simp: AllocatePage_def popFreePage_def)
  with alloc_inv_fresh[OF inv w] next_page_less(4)[OF w] show ?thesis by (simp add: fresh_page_def)
next
  case False
  have "\<exists>q dm'. popFreePage dm = Inr (Some q, dm') \<and> m q = None \<and> alloc_inv dm' (m(q \<mapsto> None)) \<and>
    dm_nextPageID dm' = dm_nextPageID dm"
  proof (cases "fl_list (file_page (dm_dataFile dm) (fpl_HeadPageID (dm_freePageList dm)))" rule: rev_cases)
    case Nil
    with pop_head_page[OF inv refl] False show ?thesis by blast
  next
    case (snoc xs x)
    with pop_entry[OF inv refl _ _ snoc] False show ?thesis by blast
  qed
  with False show ?thesis by (auto simp: AllocatePage_def)
qed

lemma fl_chain_zero: "fl_chain f 0 ids \<longleftrightarrow> ids = []"
  by (cases ids) auto

lemma push_first:
  assumes inv: "alloc_inv dm m" and q: "q \<in> dom m" and h: "fpl_HeadPageID (dm_freePageList dm) = 0"
    and w: "unat (dm_nextPageID dm) + 1 < 2 ^ 32"
  shows "\<exists>dm'. pushFreePage dm q = Inr dm' \<and> alloc_inv dm' (m(q := None)) \<and>
    dm_nextPageID dm' = dm_nextPageID dm + 1"
proof -
  let ?n = "dm_nextPageID dm" and ?e = "dm\<lparr>dm_nextPageID := dm_nextPageID dm + 1\<rparr>"
  obtain ids where "alloc_chain dm m ids" using inv by (auto simp: alloc_inv_def)
  note a = alloc_chainD[OF this] and l = next_page_less[OF w]
  have n0: "?n \<noteq> 0" using a(7)[OF q] by auto
  obtain p where p: "InitializeFreeListPage (NewPage ?n PageTypeFreeList) = Inr p" "fl_ok p" "fl_next p = 0"
      "fl_list p = []" "pg_ID p = ?n"
    by (rule InitializeFreeListPage_ok[OF page_ok_NewPage, of ?n PageTypeFreeList]) (auto simp: NewPage_def)
  obtain r where r: "AddFreePageToList p q = Inr (True, r)" "fl_ok r" "fl_next r = 0" "fl_list r = [q]" "pg_ID r = ?n"
    by (rule AddFreePageToList_push[OF p(2), of q])
      (use p(3-5) length_fl_list[of p] in auto)
  let ?d = "set_free ?n 1 (writePageInternal ?e r)"
  have "pushFreePage dm q = Inr ?d" using h p(1) r(1) by (simp add: pushFreePage_def Let_def)
  moreover have "alloc_inv ?d (m(q := None))"
  proof (rule alloc_chainI[where ids = "[?n]" and es = "[q]"])
    note wh = fl_chain_write_head[of ?e r "[]"]
    show "fl_chain (dm_dataFile ?d) (fpl_HeadPageID (dm_freePageList ?d)) [?n]" "[q] = entries (dm_dataFile ?d) [?n]"
      using wh r n0 by simp_all
    show "on_disk (dm_dataFile ?d) s \<and> file_page (dm_dataFile ?d) s = clean t" if "(m(q := None)) s = Some (Some t)" for s t
      using that a(10)[of s t] a(7)[of s] file_page_kept[of ?e s r] r(5) by (auto split: if_splits)
    show "s < dm_nextPageID ?d" if "s \<in> dom (m(q := None))" for s
      using that a(7)[of s] l(1)[of s] by auto
    show "s \<notin> set [?n] \<and> s \<notin> set [q]" if "s \<in> dom (m(q := None))" for s
      using that a(7)[of s] by auto
  qed (use l a(7)[OF q] l(1)[OF a(7)[OF q]] in auto)
  ultimately show ?thesis by simp
qed

lemma push_entry:
  assumes inv: "alloc_inv dm m" and q: "q \<in> dom m" and h: "fpl_HeadPageID (dm_freePageList dm) = h" "h \<noteq> 0"
    and c: "fl_count (file_page (dm_dataFile dm) h) < 1018"
  shows "\<exists>dm'. pushFreePage dm q = Inr dm' \<and> alloc_inv dm' (m(q := None)) \<and>
    dm_nextPageID dm' = dm_nextPageID dm"
proof -
  let ?f = "dm_dataFile dm" and ?c = "fpl_PageCount (dm_freePageList dm)"
  obtain ids where "alloc_chain dm m (h # ids)" and ch: "on_disk ?f h" "fl_ok (file_page ?f h)"
      "pg_ID (file_page ?f h) = h" "fl_chain ?f (fl_next (file_page ?f h)) ids"
    by (rule alloc_headE[OF inv h])
  note a = alloc_chainD[OF this(1)]
  obtain r where r: "AddFreePageToList (file_page ?f h) q = Inr (True, r)" "fl_ok r"
      "fl_next r = fl_next (file_page ?f h)" "fl_list r = fl_list (file_page ?f h) @ [q]" "pg_ID r = h"
    by (rule AddFreePageToList_push[OF ch(2) c, of q]) (use ch(3) in auto)
  let ?e = "dm\<lparr>dm_totalReads := dm_totalReads dm + 1\<rparr>"
  let ?d = "set_free h (?c + 1) (writePageInternal ?e r)"
  have nh: "pg_ID r \<notin> set ids" "fl_chain (dm_dataFile ?e) (fl_next r) ids" "pg_ID r \<noteq> 0"
    using a(2) r(3,5) ch(4) h by simp_all
  note wh = fl_chain_write_head[OF nh(2) r(2) nh(3,1)]
  have "length (q # entries ?f (h # ids)) \<le> unat (dm_nextPageID dm)"
    using a(3,6) a(7,8)[OF q] by (intro length_below) auto
  moreover have "unat (dm_nextPageID dm) < 2 ^ LENGTH(32)" by (rule unsigned_less)
  ultimately have cnt: "unat (?c + 1) = unat ?c + 1"
    using a(9) h by (simp add: unat_word_ariths)
  have "pushFreePage dm q = Inr ?d" using h r(1) ch(1) by (simp add: pushFreePage_def readPageInternal_eq Let_def)
  moreover have "alloc_inv ?d (m(q := None))"
  proof (rule alloc_chainI[where ids = "h # ids" and es = "fl_list (file_page ?f h) @ [q] @ entries ?f ids"])
    show "on_disk (dm_dataFile ?d) s \<and> file_page (dm_dataFile ?d) s = clean t" if "(m(q := None)) s = Some (Some t)" for s t
      using that a(10)[of s t] a(8)[of s] file_page_kept[of ?e s r] r(5) by (auto split: if_splits)
    show "s \<notin> set (h # ids) \<and> s \<notin> set (fl_list (file_page ?f h) @ [q] @ entries ?f ids)" if "s \<in> dom (m(q := None))" for s
      using that a(8)[of s] by auto
  qed (use wh r(4,5) a(2-7,9) a(7,8)[OF q] cnt h in auto)
  ultimately show ?thesis by simp
qed

lemma push_new_head:
  assumes inv: "alloc_inv dm m" and q: "q \<in> dom m" and h: "fpl_HeadPageID (dm_freePageList dm) = h" "h \<noteq> 0"
    and c: "fl_count (file_page (dm_dataFile dm) h) = 1018"
  shows "\<exists>dm'. pushFreePage dm q = Inr dm' \<and> alloc_inv dm' (m(q := None)) \<and>
    dm_nextPageID dm' = dm_nextPageID dm"
proof -
  let ?f = "dm_dataFile dm" and ?c = "fpl_PageCount (dm_freePageList dm)"
  obtain ids where "alloc_chain dm m (h # ids)" and ch: "on_disk ?f h" "fl_ok (file_page ?f h)"
      "pg_ID (file_page ?f h) = h" "fl_chain ?f (fl_next (file_page ?f h)) ids"
    by (rule alloc_headE[OF inv h])
  note a = alloc_chainD[OF this(1)]
  obtain p where p: "InitializeFreeListPage (NewPage q PageTypeFreeList) = Inr p" "fl_ok p" "pg_ID p = q"
    by (rule InitializeFreeListPage_ok[OF page_ok_NewPage, of q PageTypeFreeList]) (auto simp: NewPage_def)
  from p(2) have "pg_Type p = PageTypeFreeList" "page_ok p" by (simp_all add: fl_ok_def)
  then obtain r where r: "SerializeFreePageHeader p \<lparr>fh_NextFreeListPage = h, fh_EntryCount = 0\<rparr> = Inr r"
      "fl_ok r" "fl_next r = h" "fl_list r = []" "pg_ID r = q"
    using fl_put_header[of p 0 _ h, OF _ _ _ refl] p(3) by (auto simp: fl_list_def)
  let ?e = "dm\<lparr>dm_totalReads := dm_totalReads dm + 1\<rparr>"
  let ?d = "set_free q ?c (writePageInternal ?e r)"
  have nh: "pg_ID r \<notin> set (h # ids)" "fl_chain (dm_dataFile ?e) (fl_next r) (h # ids)"
    using a(1) a(8)[OF q] r(3,5) h by simp_all
  note wh = fl_chain_write_head[OF nh(2) r(2) _ nh(1)]
  have push: "pushFreePage dm q = Inr ?d" using h p(1) r(1) ch(1) AddFreePageToList_full[OF ch(2) c]
    by (simp add: pushFreePage_def readPageInternal_eq Let_def)
  have keep: "on_disk (dm_dataFile ?d) s \<and> file_page (dm_dataFile ?d) s = clean t" if "(m(q := None)) s = Some (Some t)" for s t
    using that a(10)[of s t] file_page_kept[of ?e s r] r(5) by (auto split: if_splits)
  have "alloc_inv ?d (m(q := None))"
  proof (cases "q = 0")
    case True
    show ?thesis
      by (rule alloc_chainI[where ids = "[]" and es = "[]"]) (use True keep a(7) in \<open>auto split: if_splits\<close>)
  next
    case False
    show ?thesis
    proof (rule alloc_chainI[where ids = "q # h # ids" and es = "entries ?f (h # ids)"])
      show "s \<notin> set (q # h # ids) \<and> s \<notin> set (entries ?f (h # ids))" if "s \<in> dom (m(q := None))" for s
        using that a(8)[of s] by auto
    qed (use keep wh r(4,5) False a(2-7,9) a(7,8)[OF q] h in auto)
  qed
  with push show ?thesis by simp
qed

lemma alloc_inv_free:
  assumes inv: "alloc_inv dm m" and q: "q \<in> dom m" and w: "unat (dm_nextPageID dm) + 1 < 2 ^ 32"
  shows "\<exists>dm'. DeallocatePage dm q = Inr dm' \<and> alloc_inv dm' (m(q := None)) \<and>
    unat (dm_nextPageID dm') \<le> unat (dm_nextPageID dm) + 1"
proof -
  let ?h = "fpl_HeadPageID (dm_freePageList dm)"
  have "q < dm_nextPageID dm" using inv q by (auto simp: alloc_inv_def dest: alloc_chainD(7))
  then have d: "DeallocatePage dm q = pushFreePage dm q" by (metis DeallocatePage_def leD)
  show ?thesis
  proof (cases "?h = 0")
    case True
    from push_first[OF inv q True w] next_page_less(4)[OF w] d show ?thesis by auto
  next
    case False
    obtain ids where "fl_ok (file_page (dm_dataFile dm) ?h)" by (rule alloc_headE[OF inv refl False])
    from fl_count_bound[OF this] consider "fl_count (file_page (dm_dataFile dm) ?h) < 1018"
      | "fl_count (file_page (dm_dataFile dm) ?h) = 1018" by linarith
    then show ?thesis
      by cases (use push_entry[OF inv q refl False] push_new_head[OF inv q refl False] d in fastforce)+
  qed
qed

subsection \<open>Runs of a client\<close>

text \<open>
  A client that frees, writes and reads only pages it holds. \<open>client_safe\<close> says of a run that
  no operation fails, every allocation returns a page the client does not hold, and every
  read returns what the client wrote there last.
\<close>

datatype disk_op = OpAlloc | OpFree u32 | OpWrite Page | OpRead u32

fun client_safe :: "disk_op list \<Rightarrow> DiskManager \<Rightarrow> client \<Rightarrow> bool" where
  "client_safe [] dm m = True"
| "client_safe (OpAlloc # ops) dm m =
     (case AllocatePage dm of Inl _ \<Rightarrow> False
      | Inr (q, dm') \<Rightarrow> m q = None \<and> client_safe ops dm' (m(q \<mapsto> None)))"
| "client_safe (OpFree q # ops) dm m =
     (q \<in> dom m \<longrightarrow> (case DeallocatePage dm q of Inl _ \<Rightarrow> False | Inr dm' \<Rightarrow> client_safe ops dm' (m(q := None))))"
| "client_safe (OpWrite p # ops) dm m =
     (pg_ID p \<in> dom m \<and> page_ok p \<longrightarrow> client_safe ops (WritePage dm p) (m(pg_ID p \<mapsto> Some p)))"
| "client_safe (OpRead q # ops) dm m =
     (q \<in> dom m \<longrightarrow> (case ReadPage dm q of Inl _ \<Rightarrow> False
      | Inr (p, dm') \<Rightarrow> (\<forall>w. m q = Some (Some w) \<longrightarrow> p = clean w) \<and> client_safe ops dm' m))"

lemma WritePage_nextPageID [simp]: "dm_nextPageID (WritePage dm p) = dm_nextPageID dm"
  by (simp add: WritePage_def)

lemma alloc_inv_safe:
  "alloc_inv dm m \<Longrightarrow> unat (dm_nextPageID dm) + length ops < 2 ^ 32 \<Longrightarrow> client_safe ops dm m"
proof (induction ops arbitrary: dm m)
  case (Cons op ops)
  then have w: "unat (dm_nextPageID dm) + 1 < 2 ^ 32" by simp
  show ?case
  proof (cases op)
    case OpAlloc
    from alloc_inv_alloc[OF Cons.prems(1) w] Cons.IH Cons.prems(2) show ?thesis
      by (fastforce simp: OpAlloc)
  next
    case (OpFree q)
    from alloc_inv_free[OF Cons.prems(1) _ w, of q] Cons.IH Cons.prems(2) show ?thesis
      by (fastforce simp: OpFree)
  next
    case (OpWrite p)
    have "client_safe ops (WritePage dm p) (m(pg_ID p \<mapsto> Some p))" if "pg_ID p \<in> dom m" "page_ok p"
      by (rule Cons.IH[OF alloc_inv_write[OF Cons.prems(1) that]]) (use Cons.prems(2) in simp)
    then show ?thesis by (simp add: OpWrite)
  next
    case (OpRead q)
    have "file_page (dm_dataFile dm) q = clean p" if "m q = Some (Some p)" for p
      using Cons.prems(1) that by (auto simp: alloc_inv_def dest: alloc_chainD(10))
    with Cons.IH Cons.prems show ?thesis by (auto simp: OpRead ReadPage_def readPageInternal_eq)
  qed
qed simp

lemma alloc_inv_New:
  assumes "length file div PageSize < 2 ^ 32"
    and "\<And>q x. m q = Some x \<Longrightarrow> on_disk file q \<and> (\<forall>p. x = Some p \<longrightarrow> file_page file q = clean p)"
  shows "alloc_inv (NewDiskManager file) m"
proof (rule alloc_chainI[where ids = "[]" and es = "[]"])
  have n: "unat (of_nat (length file div PageSize) :: u32) = length file div PageSize"
    using assms(1) by (rule unat_of_nat_small(2))
  show "q < dm_nextPageID (NewDiskManager file)" if "q \<in> dom m" for q
  proof -
    from that assms(2) have "(unat q + 1) * PageSize \<le> length file" by (auto simp: on_disk_def)
    then have "unat q + 1 \<le> length file div PageSize" by (subst less_eq_div_iff_mult_less_eq) simp_all
    with n show ?thesis by (simp add: NewDiskManager_def loadFreePageList_def Let_def word_less_nat_alt)
  qed
qed (use assms(2) in \<open>auto simp: NewDiskManager_def loadFreePageList_def NewFreePageList_def Let_def\<close>)

text \<open>
  C4. Opening a data file and then allocating, freeing, writing and reading pages, in any
  order, for a client that holds some pages of the file and touches only pages it holds: no
  operation reports an error, no page is handed out while the client holds it, and a page
  reads back as the client wrote it last, however the free list grew, spilled into new list
  pages and was reclaimed in between (page ids not exhausted).
\<close>

theorem disk_client_safe:
  assumes "length file div PageSize + length ops < 2 ^ 32"
    and "\<And>q x. m q = Some x \<Longrightarrow> on_disk file q \<and> (\<forall>p. x = Some p \<longrightarrow> file_page file q = clean p)"
  shows "client_safe ops (NewDiskManager file) m"
proof (rule alloc_inv_safe)
  show "alloc_inv (NewDiskManager file) m" by (rule alloc_inv_New) (use assms in auto)
  show "unat (dm_nextPageID (NewDiskManager file)) + length ops < 2 ^ 32"
    using assms(1) unat_of_nat_small(2)[of "length file div PageSize"]
    by (simp add: NewDiskManager_def loadFreePageList_def Let_def)
qed

theorem disk_client_safe_witness:
  "client_safe [OpAlloc, OpAlloc, OpWrite (NewPage 1 PageTypeIndex), OpFree 0, OpAlloc, OpRead 1]
     (NewDiskManager []) Map.empty"
  by (rule disk_client_safe) simp_all

text \<open>
  C35. Writing a page that lies past the end of the file turns the page ids it skips into
  zero-filled blocks: such a page, which before the write read as an empty page with its own
  id, now reads as page 0, so that writing it back would overwrite page 0.
\<close>

theorem skipped_page_reads_as_page_0:
  assumes "length (dm_dataFile dm) \<le> unat r * PageSize" "r < pg_ID p"
  shows "(\<exists>dm1. ReadPage dm r = Inr (NewPage r PageTypeData, dm1)) \<and>
    (\<exists>dm1. ReadPage (WritePage dm p) r = Inr (NewPage 0 PageTypeData, dm1))"
proof -
  have "\<not> on_disk (dm_dataFile dm) r" using assms(1) by (simp add: on_disk_def)
  with file_page_gap[OF this assms] show ?thesis
    by (simp add: ReadPage_def WritePage_def readPageInternal_eq file_page_def[of "dm_dataFile dm"])
qed

theorem skipped_page_reads_as_page_0_witness:
  "\<exists>dm1. ReadPage (WritePage (NewDiskManager []) (NewPage 7 PageTypeIndex)) 5 = Inr (NewPage 0 PageTypeData, dm1)"
  using skipped_page_reads_as_page_0[of "NewDiskManager []" 5 "NewPage 7 PageTypeIndex"]
  by (simp add: NewDiskManager_def) (simp add: NewPage_def)

end
