(* ===== verification/SlottedPage.thy ===== *)
theory SlottedPage
  imports Page "HOL-Library.Monad_Syntax"
begin

text \<open>
  \<^verbatim>\<open>pkg/storage/slotted_page.go\<close>: variable-length records in a data page, with a slot directory
  that grows from the header and record data that grows from the end of the page. All header
  arithmetic is on 16-bit words, as in the source. \<open>None\<close> inside an operation is an index or
  slice out of range, reported as \<open>SlotPanic\<close>; every operation returns its result or error
  together with the slotted page it leaves, since some errors come after a change.
\<close>

subsection \<open>Slots, header, page\<close>

record SlotEntry =
  se_Offset :: u16
  se_Length :: u16
  se_Flags :: byte

abbreviation (input) SlotFlagDeleted :: byte where "SlotFlagDeleted \<equiv> 1"
abbreviation (input) SlotFlagOverflow :: byte where "SlotFlagOverflow \<equiv> 2"
abbreviation (input) SlotFlagUpdated :: byte where "SlotFlagUpdated \<equiv> 4"

definition slot_IsDeleted :: "SlotEntry \<Rightarrow> bool" where
  "slot_IsDeleted se \<longleftrightarrow> se_Flags se AND SlotFlagDeleted \<noteq> 0"

definition slot_IsOverflow :: "SlotEntry \<Rightarrow> bool" where
  "slot_IsOverflow se \<longleftrightarrow> se_Flags se AND SlotFlagOverflow \<noteq> 0"

definition slot_IsUpdated :: "SlotEntry \<Rightarrow> bool" where
  "slot_IsUpdated se \<longleftrightarrow> se_Flags se AND SlotFlagUpdated \<noteq> 0"

record SlottedPageHeader =
  sh_SlotCount :: u16
  sh_FreeSpaceStart :: u16
  sh_FreeSpaceEnd :: u16
  sh_FragmentedSpace :: u16
  sh_Flags :: u16
  sh_Reserved :: u16

record SlottedPage =
  sp_page :: Page
  sp_header :: SlottedPageHeader
  sp_slots :: "SlotEntry list"

datatype slot_error =
    SlotBadType byte
  | SlotHeaderTooSmall
  | SlotDirectoryBeyondPage
  | SlotEmptyData
  | SlotNoSpace
  | SlotBadID u16
  | SlotDeleted u16
  | SlotPanic

abbreviation sp_Data :: "SlottedPage \<Rightarrow> bytes" where
  "sp_Data sp \<equiv> pg_Data (sp_page sp)"

definition set_Data :: "bytes \<Rightarrow> SlottedPage \<Rightarrow> SlottedPage" where
  "set_Data d sp = sp\<lparr>sp_page := (sp_page sp)\<lparr>pg_Data := d\<rparr>\<rparr>"

definition sp_MarkDirty :: "SlottedPage \<Rightarrow> SlottedPage" where
  "sp_MarkDirty sp = sp\<lparr>sp_page := MarkDirty (sp_page sp)\<rparr>"

definition header_bytes :: "SlottedPageHeader \<Rightarrow> bytes" where
  "header_bytes h = le_bytes 2 (sh_SlotCount h) @ le_bytes 2 (sh_FreeSpaceStart h) @
     le_bytes 2 (sh_FreeSpaceEnd h) @ le_bytes 2 (sh_FragmentedSpace h) @
     le_bytes 2 (sh_Flags h) @ le_bytes 2 (sh_Reserved h)"

definition slot_bytes :: "SlotEntry \<Rightarrow> bytes" where
  "slot_bytes s = le_bytes 2 (se_Offset s) @ le_bytes 2 (se_Length s) @ [se_Flags s]"

definition serializeHeader :: "SlottedPage \<Rightarrow> SlottedPage option" where
  "serializeHeader sp =
     (if length (sp_Data sp) < 12 then None
      else Some (set_Data (write_at 0 (header_bytes (sp_header sp)) (sp_Data sp)) sp))"

definition deserializeHeader :: "Page \<Rightarrow> slot_error + SlottedPageHeader" where
  "deserializeHeader p =
     (if length (pg_Data p) < 12 then Inl SlotHeaderTooSmall
      else Inr \<lparr>sh_SlotCount = le_word (read_at 0 2 (pg_Data p)),
                sh_FreeSpaceStart = le_word (read_at 2 2 (pg_Data p)),
                sh_FreeSpaceEnd = le_word (read_at 4 2 (pg_Data p)),
                sh_FragmentedSpace = le_word (read_at 6 2 (pg_Data p)),
                sh_Flags = le_word (read_at 8 2 (pg_Data p)),
                sh_Reserved = le_word (read_at 10 2 (pg_Data p))\<rparr>)"

definition serializeSlot :: "u16 \<Rightarrow> SlotEntry \<Rightarrow> SlottedPage \<Rightarrow> SlottedPage option" where
  "serializeSlot slotID slot sp =
     (let offset = 12 + unat slotID * 5
      in if offset + 5 > length (sp_Data sp) then None
         else Some (set_Data (write_at offset (slot_bytes slot) (sp_Data sp)) sp))"

definition read_slot :: "bytes \<Rightarrow> nat \<Rightarrow> SlotEntry" where
  "read_slot d i =
     (let offset = 12 + i * 5
      in \<lparr>se_Offset = le_word (read_at offset 2 d), se_Length = le_word (read_at (offset + 2) 2 d),
          se_Flags = d ! (offset + 4)\<rparr>)"

fun read_slots :: "bytes \<Rightarrow> nat list \<Rightarrow> slot_error + SlotEntry list" where
  "read_slots d [] = Inr []"
| "read_slots d (i # is) =
     (if 12 + i * 5 + 5 > length d then Inl SlotDirectoryBeyondPage
      else case read_slots d is of Inl e \<Rightarrow> Inl e | Inr ss \<Rightarrow> Inr (read_slot d i # ss))"

definition deserializeSlots :: "Page \<Rightarrow> SlottedPageHeader \<Rightarrow> slot_error + SlotEntry list" where
  "deserializeSlots p h = read_slots (pg_Data p) [0..<unat (sh_SlotCount h)]"

definition NewSlottedPage :: "Page \<Rightarrow> slot_error + SlottedPage" where
  "NewSlottedPage page =
     (if pg_Type page \<noteq> PageTypeData then Inl (SlotBadType (pg_Type page))
      else let h = \<lparr>sh_SlotCount = 0, sh_FreeSpaceStart = 0, sh_FreeSpaceEnd = of_nat (length (pg_Data page)),
                    sh_FragmentedSpace = 0, sh_Flags = 0, sh_Reserved = 0\<rparr>
           in case serializeHeader \<lparr>sp_page = page, sp_header = h, sp_slots = []\<rparr> of
                None \<Rightarrow> Inl SlotPanic | Some sp \<Rightarrow> Inr sp)"

definition LoadSlottedPage :: "Page \<Rightarrow> slot_error + SlottedPage" where
  "LoadSlottedPage page =
     (if pg_Type page \<noteq> PageTypeData then Inl (SlotBadType (pg_Type page))
      else case deserializeHeader page of
        Inl e \<Rightarrow> Inl e
      | Inr h \<Rightarrow> (case deserializeSlots page h of
          Inl e \<Rightarrow> Inl e | Inr ss \<Rightarrow> Inr \<lparr>sp_page = page, sp_header = h, sp_slots = ss\<rparr>))"

subsection \<open>Free space\<close>

definition ContiguousFreeSpace :: "SlottedPage \<Rightarrow> u16" where
  "ContiguousFreeSpace sp =
     (if sh_FreeSpaceEnd (sp_header sp) < sh_FreeSpaceStart (sp_header sp) then 0
      else sh_FreeSpaceEnd (sp_header sp) - sh_FreeSpaceStart (sp_header sp))"

definition TotalFreeSpace :: "SlottedPage \<Rightarrow> u16" where
  "TotalFreeSpace sp = ContiguousFreeSpace sp + sh_FragmentedSpace (sp_header sp)"

text \<open>
  \<^verbatim>\<open>float64(fragmented) / 4068 > 0.25\<close>: the quotient is correctly rounded and \<open>0.25 = 1017 / 4068\<close>
  is exact, so the comparison is \<open>fragmented > 1017\<close>.
\<close>

definition NeedsCompaction :: "SlottedPage \<Rightarrow> bool" where
  "NeedsCompaction sp \<longleftrightarrow>
     (if sh_FragmentedSpace (sp_header sp) = 0 then False
      else unat (sh_FragmentedSpace (sp_header sp)) * 4 > 4068)"

subsection \<open>Compaction\<close>

text \<open>\<^verbatim>\<open>copy(dst[lo:hi], src)\<close> with 16-bit bounds.\<close>

definition copy_into :: "u16 \<Rightarrow> u16 \<Rightarrow> bytes \<Rightarrow> bytes \<Rightarrow> bytes option" where
  "copy_into lo hi src dst =
     (if lo \<le> hi \<and> unat hi \<le> length dst
      then Some (write_at (unat lo) (take (unat hi - unat lo) src) dst) else None)"

fun compact_move :: "bytes \<Rightarrow> SlotEntry list \<Rightarrow> u16 \<Rightarrow> bytes \<Rightarrow> (SlotEntry list \<times> u16 \<times> bytes) option" where
  "compact_move src [] newDataEnd tempData = Some ([], newDataEnd, tempData)"
| "compact_move src (slot # ss) newDataEnd tempData =
     (if slot_IsDeleted slot then do {
        (ss', e, t) \<leftarrow> compact_move src ss newDataEnd tempData;
        Some (slot # ss', e, t) }
      else do {
        oldData \<leftarrow> go_slice src (unat (se_Offset slot)) (unat (se_Offset slot + se_Length slot));
        let newOffset = newDataEnd - se_Length slot;
        tempData' \<leftarrow> copy_into newOffset newDataEnd oldData tempData;
        (ss', e, t) \<leftarrow> compact_move src ss newOffset tempData';
        Some (slot\<lparr>se_Offset := newOffset\<rparr> # ss', e, t) })"

fun serializeSlots :: "nat \<Rightarrow> SlotEntry list \<Rightarrow> SlottedPage \<Rightarrow> SlottedPage option" where
  "serializeSlots i [] sp = Some sp"
| "serializeSlots i (s # ss) sp = do { sp' \<leftarrow> serializeSlot (of_nat i) s sp; serializeSlots (Suc i) ss sp' }"

definition compact_steps :: "SlottedPage \<Rightarrow> SlottedPage option" where
  "compact_steps sp =
     (if length (sp_slots sp) < unat (sh_SlotCount (sp_header sp)) then None
      else let newSlots = filter (\<lambda>s. \<not> slot_IsDeleted s) (take (unat (sh_SlotCount (sp_header sp))) (sp_slots sp))
           in if newSlots = [] then
                serializeHeader (sp\<lparr>sp_header := (sp_header sp)\<lparr>sh_SlotCount := 0, sh_FreeSpaceStart := 12,
                    sh_FreeSpaceEnd := of_nat (length (sp_Data sp)), sh_FragmentedSpace := 0\<rparr>, sp_slots := []\<rparr>)
              else do {
                (rev_slots, newDataEnd, tempData) \<leftarrow> compact_move (sp_Data sp) (rev newSlots)
                   (of_nat (length (sp_Data sp))) (replicate (length (sp_Data sp)) 0);
                let count = of_nat (length newSlots);
                sp1 \<leftarrow> serializeHeader (set_Data tempData (sp\<lparr>sp_header := (sp_header sp)\<lparr>sh_SlotCount := count,
                    sh_FreeSpaceStart := 12 + count * 5, sh_FreeSpaceEnd := newDataEnd, sh_FragmentedSpace := 0\<rparr>,
                    sp_slots := rev rev_slots\<rparr>));
                serializeSlots 0 (rev rev_slots) sp1 })"

definition Compact :: "SlottedPage \<Rightarrow> (slot_error + unit) \<times> SlottedPage" where
  "Compact sp = (case compact_steps sp of None \<Rightarrow> (Inl SlotPanic, sp) | Some sp' \<Rightarrow> (Inr (), sp_MarkDirty sp'))"

subsection \<open>Operations on slots\<close>

definition insert_steps :: "bytes \<Rightarrow> u16 \<Rightarrow> SlottedPage \<Rightarrow> SlottedPage option" where
  "insert_steps data spaceNeeded sp =
     (let h = sp_header sp; slotID = sh_SlotCount h; dataOffset = sh_FreeSpaceEnd h - spaceNeeded;
          h' = h\<lparr>sh_SlotCount := slotID + 1, sh_FreeSpaceStart := 12 + (slotID + 1) * 5, sh_FreeSpaceEnd := dataOffset\<rparr>;
          slot = \<lparr>se_Offset = dataOffset, se_Length = of_nat (length data), se_Flags = 0\<rparr>
      in do {
        d \<leftarrow> copy_into dataOffset (dataOffset + spaceNeeded) data (sp_Data sp);
        sp1 \<leftarrow> serializeSlot slotID slot (set_Data d (sp\<lparr>sp_header := h', sp_slots := sp_slots sp @ [slot]\<rparr>));
        serializeHeader sp1 })"

definition insert_into :: "bytes \<Rightarrow> SlottedPage \<Rightarrow> (slot_error + u16) \<times> SlottedPage" where
  "insert_into data sp =
     (let spaceNeeded = of_nat (length data) :: u16
      in if unat (ContiguousFreeSpace sp) < unat spaceNeeded + 5 then (Inl SlotNoSpace, sp)
         else case insert_steps data spaceNeeded sp of
           None \<Rightarrow> (Inl SlotPanic, sp)
         | Some sp' \<Rightarrow> (Inr (sh_SlotCount (sp_header sp)), sp_MarkDirty sp'))"

definition InsertSlot :: "bytes \<Rightarrow> SlottedPage \<Rightarrow> (slot_error + u16) \<times> SlottedPage" where
  "InsertSlot data sp =
     (if length data = 0 then (Inl SlotEmptyData, sp)
      else case (if NeedsCompaction sp then Compact sp else (Inr (), sp)) of
        (Inl e, sp1) \<Rightarrow> (Inl e, sp1)
      | (Inr _, sp1) \<Rightarrow> insert_into data sp1)"

text \<open>The slot of an id, as the guards of the operations find it.\<close>

definition find_slot :: "u16 \<Rightarrow> SlottedPage \<Rightarrow> slot_error + SlotEntry" where
  "find_slot slotID sp =
     (if slotID \<ge> sh_SlotCount (sp_header sp) then Inl (SlotBadID slotID)
      else if unat slotID \<ge> length (sp_slots sp) then Inl SlotPanic
      else if slot_IsDeleted (sp_slots sp ! unat slotID) then Inl (SlotDeleted slotID)
      else Inr (sp_slots sp ! unat slotID))"

definition GetSlot :: "u16 \<Rightarrow> SlottedPage \<Rightarrow> slot_error + bytes" where
  "GetSlot slotID sp =
     (case find_slot slotID sp of
        Inl e \<Rightarrow> Inl e
      | Inr slot \<Rightarrow> (case go_slice (sp_Data sp) (unat (se_Offset slot)) (unat (se_Offset slot + se_Length slot)) of
          None \<Rightarrow> Inl SlotPanic
        | Some src \<Rightarrow> Inr (go_copy (replicate (unat (se_Length slot)) 0) src)))"

definition set_slot :: "u16 \<Rightarrow> SlotEntry \<Rightarrow> SlottedPage \<Rightarrow> SlottedPage" where
  "set_slot slotID slot sp = sp\<lparr>sp_slots := (sp_slots sp)[unat slotID := slot]\<rparr>"

definition add_fragmented :: "u16 \<Rightarrow> SlottedPage \<Rightarrow> SlottedPage" where
  "add_fragmented n sp = sp\<lparr>sp_header := (sp_header sp)\<lparr>sh_FragmentedSpace := sh_FragmentedSpace (sp_header sp) + n\<rparr>\<rparr>"

text \<open>Writing the slot and the header back, as the last steps of an update or delete.\<close>

definition save_slot :: "u16 \<Rightarrow> SlotEntry \<Rightarrow> SlottedPage \<Rightarrow> SlottedPage option" where
  "save_slot slotID slot sp = do { sp1 \<leftarrow> serializeSlot slotID slot sp; serializeHeader sp1 }"

definition update_in_place :: "u16 \<Rightarrow> SlotEntry \<Rightarrow> bytes \<Rightarrow> u16 \<Rightarrow> SlottedPage \<Rightarrow> SlottedPage option" where
  "update_in_place slotID slot data dataLen sp = do {
     d \<leftarrow> copy_into (se_Offset slot) (se_Offset slot + dataLen) data (sp_Data sp);
     let slot' = (if dataLen < se_Length slot then slot\<lparr>se_Length := dataLen\<rparr> else slot);
     let sp1 = set_Data d sp;
     let sp2 = (if dataLen < se_Length slot then add_fragmented (se_Length slot - dataLen) sp1 else sp1);
     save_slot slotID slot' (set_slot slotID slot' sp2) }"

text \<open>
  The new space for a record that does not fit. \<open>compacted\<close> tells whether \<^verbatim>\<open>Compact\<close> has run
  since the slot was looked up: it replaces the slice \<^verbatim>\<open>sp.slots\<close>, so the pointer \<^verbatim>\<open>slot\<close> then
  points into the old slice and assigning through it leaves \<^verbatim>\<open>sp.slots\<close> as it is.
\<close>

definition update_moved :: "bool \<Rightarrow> u16 \<Rightarrow> SlotEntry \<Rightarrow> bytes \<Rightarrow> u16 \<Rightarrow> SlottedPage \<Rightarrow> SlottedPage option" where
  "update_moved compacted slotID slot data dataLen sp =
     (let dataOffset = sh_FreeSpaceEnd (sp_header sp) - dataLen;
          slot' = \<lparr>se_Offset = dataOffset, se_Length = dataLen, se_Flags = se_Flags slot OR SlotFlagUpdated\<rparr>;
          sp1 = sp\<lparr>sp_header := (sp_header sp)\<lparr>sh_FreeSpaceEnd := dataOffset\<rparr>\<rparr>
      in do {
        d \<leftarrow> copy_into dataOffset (dataOffset + dataLen) data (sp_Data sp1);
        save_slot slotID slot' ((if compacted then id else set_slot slotID slot') (set_Data d sp1)) })"

definition UpdateSlot :: "u16 \<Rightarrow> bytes \<Rightarrow> SlottedPage \<Rightarrow> (slot_error + unit) \<times> SlottedPage" where
  "UpdateSlot slotID data sp =
     (case find_slot slotID sp of
        Inl e \<Rightarrow> (Inl e, sp)
      | Inr slot \<Rightarrow>
         let dataLen = of_nat (length data) :: u16
         in if dataLen \<le> se_Length slot then
              (case update_in_place slotID slot data dataLen sp of
                 None \<Rightarrow> (Inl SlotPanic, sp) | Some sp' \<Rightarrow> (Inr (), sp_MarkDirty sp'))
            else let sp1 = add_fragmented (se_Length slot) sp
              in if dataLen > TotalFreeSpace sp1 then (Inl SlotNoSpace, sp1)
                 else case (if NeedsCompaction sp1 then Compact sp1 else (Inr (), sp1)) of
                   (Inl e, sp2) \<Rightarrow> (Inl e, sp2)
                 | (Inr _, sp2) \<Rightarrow>
                    if dataLen > ContiguousFreeSpace sp2 then (Inl SlotNoSpace, sp2)
                    else case update_moved (NeedsCompaction sp1) slotID slot data dataLen sp2 of
                      None \<Rightarrow> (Inl SlotPanic, sp2) | Some sp' \<Rightarrow> (Inr (), sp_MarkDirty sp'))"

definition DeleteSlot :: "u16 \<Rightarrow> SlottedPage \<Rightarrow> (slot_error + unit) \<times> SlottedPage" where
  "DeleteSlot slotID sp =
     (case find_slot slotID sp of
        Inl e \<Rightarrow> (Inl e, sp)
      | Inr slot \<Rightarrow>
         let slot' = slot\<lparr>se_Flags := se_Flags slot OR SlotFlagDeleted, se_Offset := 0\<rparr>
         in case save_slot slotID slot' (set_slot slotID slot' (add_fragmented (se_Length slot) sp)) of
              None \<Rightarrow> (Inl SlotPanic, sp) | Some sp' \<Rightarrow> (Inr (), sp_MarkDirty sp'))"

definition sp_SlotCount :: "SlottedPage \<Rightarrow> u16" where
  "sp_SlotCount sp = sh_SlotCount (sp_header sp)"

definition sp_FragmentedSpace :: "SlottedPage \<Rightarrow> u16" where
  "sp_FragmentedSpace sp = sh_FragmentedSpace (sp_header sp)"

subsection \<open>The layout invariant\<close>

definition in_page :: "nat \<Rightarrow> SlotEntry \<Rightarrow> bool" where
  "in_page e s \<longleftrightarrow> slot_IsDeleted s \<or> (e \<le> unat (se_Offset s) \<and> unat (se_Offset s) + unat (se_Length s) \<le> 4080)"

definition apart :: "SlotEntry \<Rightarrow> SlotEntry \<Rightarrow> bool" where
  "apart s t \<longleftrightarrow> slot_IsDeleted s \<or> slot_IsDeleted t \<or>
     unat (se_Offset s) + unat (se_Length s) \<le> unat (se_Offset t) \<or>
     unat (se_Offset t) + unat (se_Length t) \<le> unat (se_Offset s)"

definition slot_len :: "SlotEntry \<Rightarrow> nat" where
  "slot_len s = (if slot_IsDeleted s then 0 else unat (se_Length s))"

definition live_len :: "SlotEntry list \<Rightarrow> nat" where
  "live_len ss = sum_list (map slot_len ss)"

definition layout_ok :: "SlottedPageHeader \<Rightarrow> SlotEntry list \<Rightarrow> bool" where
  "layout_ok h ss \<longleftrightarrow> length ss = unat (sh_SlotCount h) \<and>
     12 + length ss * 5 \<le> unat (sh_FreeSpaceEnd h) \<and> unat (sh_FreeSpaceEnd h) \<le> 4080 \<and>
     (unat (sh_FreeSpaceStart h) = 12 + length ss * 5 \<or> sh_FreeSpaceStart h = 0 \<and> ss = []) \<and>
     (\<forall>s \<in> set ss. in_page (unat (sh_FreeSpaceEnd h)) s) \<and> sorted_wrt apart ss \<and>
     unat (sh_FreeSpaceEnd h) + live_len ss \<le> 4080"

definition saved :: "bytes \<Rightarrow> SlottedPageHeader \<Rightarrow> SlotEntry list \<Rightarrow> bool" where
  "saved d h ss \<longleftrightarrow> length d = 4080 \<and> read_at 0 12 d = header_bytes h \<and>
     (\<forall>i < length ss. read_at (12 + i * 5) 5 d = slot_bytes (ss ! i))"

definition sp_ok :: "SlottedPage \<Rightarrow> bool" where
  "sp_ok sp \<longleftrightarrow> pg_Type (sp_page sp) = PageTypeData \<and> layout_ok (sp_header sp) (sp_slots sp) \<and>
     saved (sp_Data sp) (sp_header sp) (sp_slots sp)"

definition sp_laid_out :: "SlottedPage \<Rightarrow> bool" where
  "sp_laid_out sp \<longleftrightarrow> pg_Type (sp_page sp) = PageTypeData \<and> layout_ok (sp_header sp) (sp_slots sp) \<and>
     length (sp_Data sp) = 4080"

text \<open>What the page holds: for each slot its record, or \<open>None\<close> once deleted.\<close>

definition slot_content :: "bytes \<Rightarrow> SlotEntry \<Rightarrow> bytes option" where
  "slot_content d s = (if slot_IsDeleted s then None else Some (read_at (unat (se_Offset s)) (unat (se_Length s)) d))"

definition contents :: "SlottedPage \<Rightarrow> bytes option list" where
  "contents sp = map (slot_content (sp_Data sp)) (sp_slots sp)"

lemma set_Data_simps [simp]:
  "sp_Data (set_Data d sp) = d" "sp_header (set_Data d sp) = sp_header sp" "sp_slots (set_Data d sp) = sp_slots sp"
  "pg_Type (sp_page (set_Data d sp)) = pg_Type (sp_page sp)" "set_Data e (set_Data d sp) = set_Data e sp"
  by (simp_all add: set_Data_def)

lemma sp_MarkDirty_simps [simp]:
  "sp_Data (sp_MarkDirty sp) = sp_Data sp" "sp_header (sp_MarkDirty sp) = sp_header sp"
  "sp_slots (sp_MarkDirty sp) = sp_slots sp" "pg_Type (sp_page (sp_MarkDirty sp)) = pg_Type (sp_page sp)"
  by (simp_all add: sp_MarkDirty_def MarkDirty_def)

lemma sp_ok_MarkDirty [simp]: "sp_ok (sp_MarkDirty sp) = sp_ok sp" "contents (sp_MarkDirty sp) = contents sp"
  by (simp_all add: sp_ok_def contents_def)

lemma length_header_bytes [simp]: "length (header_bytes h) = 12"
  by (simp add: header_bytes_def)

lemma length_slot_bytes [simp]: "length (slot_bytes s) = 5"
  by (simp add: slot_bytes_def)

lemma saved_write_data:
  "saved d h ss \<Longrightarrow> 12 + length ss * 5 \<le> off \<Longrightarrow> off + length bs \<le> 4080 \<Longrightarrow> saved (write_at off bs d) h ss"
  by (auto simp: saved_def read_write_other)

lemma saved_write_slot:
  assumes "saved d h0 ss" "i \<le> length ss" "12 + i * 5 + 5 \<le> 4080"
  shows "saved (write_at 0 (header_bytes h) (write_at (12 + i * 5) (slot_bytes s) d)) h
    (if i < length ss then ss[i := s] else ss @ [s])" (is "saved ?d h ?ss")
proof -
  have len: "length d = 4080" using assms(1) by (simp add: saved_def)
  have hd: "read_at 0 12 ?d = header_bytes h" using len read_write_same[of 0 "header_bytes h"] assms(3) by simp
  have sl: "read_at (12 + j * 5) 5 ?d = (if j = i then slot_bytes s else read_at (12 + j * 5) 5 d)"
    if "12 + j * 5 + 5 \<le> 4080" for j
  proof (cases "j = i")
    case True
    with len that read_write_same[of "12 + i * 5" "slot_bytes s" d] show ?thesis
      by (simp add: read_write_other)
  next
    case False
    then have "12 + j * 5 + 5 \<le> 12 + i * 5 \<or> 12 + i * 5 + 5 \<le> 12 + j * 5" by linarith
    with len that assms(3) False show ?thesis by (simp add: read_write_other)
  qed
  have "read_at (12 + j * 5) 5 ?d = slot_bytes (?ss ! j)" if "j < length ?ss" for j
  proof (cases "j = i")
    case True
    with assms(2,3) that sl[of j] show ?thesis by (auto simp: nth_append)
  next
    case False
    with that assms(2) have j: "j < length ss" by (auto split: if_splits)
    with assms(1) have r: "read_at (12 + j * 5) 5 d = slot_bytes (ss ! j)" by (simp add: saved_def)
    have "12 + j * 5 + 5 \<le> 4080"
    proof (rule ccontr)
      assume "\<not> ?thesis"
      then have "length (read_at (12 + j * 5) 5 d) < 5" using len by (simp add: read_at_def)
      with r show False by simp
    qed
    from sl[OF this] False r j show ?thesis by (simp add: nth_append)
  qed
  with hd len assms(3) show ?thesis by (simp add: saved_def)
qed

lemma read_at_read_at: "a + n \<le> m \<Longrightarrow> read_at a n (read_at o' m d) = read_at (o' + a) n d"
  by (simp add: read_at_def drop_take min_def add.commute)

lemma read_slot_saved:
  assumes "length d = 4080" "read_at (12 + i * 5) 5 d = slot_bytes s"
  shows "12 + i * 5 + 5 \<le> 4080 \<and> read_slot d i = s"
proof -
  have b: "12 + i * 5 + 5 \<le> 4080"
    using arg_cong[OF assms(2), of length] assms(1) by (simp add: read_at_def split: if_splits)
  have r: "read_at (12 + i * 5 + a) n d = read_at a n (slot_bytes s)" if "a + n \<le> 5" for a n
    using read_at_read_at[OF that, of "12 + i * 5" d] assms(2) by simp
  have "d ! (12 + i * 5 + 4) = hd (read_at (12 + i * 5 + 4) 1 d)"
    using b assms(1) by (simp add: read_at_def hd_drop_conv_nth take_Suc)
  with b r[of 0 2] r[of 2 2] r[of 4 1] show ?thesis
    by (simp add: read_slot_def Let_def slot_bytes_def read_at_def)
qed

lemma load_saved:
  assumes "sp_ok sp" shows "LoadSlottedPage (sp_page sp) = Inr sp"
proof -
  let ?d = "sp_Data sp" and ?h = "sp_header sp" and ?ss = "sp_slots sp"
  have s: "length ?d = 4080" "read_at 0 12 ?d = header_bytes ?h"
    "\<And>i. i < length ?ss \<Longrightarrow> read_at (12 + i * 5) 5 ?d = slot_bytes (?ss ! i)"
    and n: "unat (sh_SlotCount ?h) = length ?ss" and t: "pg_Type (sp_page sp) = PageTypeData"
    using assms by (auto simp: sp_ok_def saved_def layout_ok_def)
  have r: "read_at a n ?d = read_at a n (header_bytes ?h)" if "a + n \<le> 12" for a n
    using read_at_read_at[OF that, of 0 ?d] s(2) by simp
  have "deserializeHeader (sp_page sp) = Inr ?h"
    using r[of 0 2] r[of 2 2] r[of 4 2] r[of 6 2] r[of 8 2] r[of 10 2] s(1)
    by (simp add: deserializeHeader_def header_bytes_def read_at_def)
  moreover have "read_slots ?d is = Inr (map (\<lambda>i. ?ss ! i) is)" if "\<forall>i \<in> set is. i < length ?ss" for "is"
    using that
  proof (induction "is")
    case (Cons i "is")
    then have "12 + i * 5 + 5 \<le> 4080 \<and> read_slot ?d i = ?ss ! i"
      using read_slot_saved[OF s(1) s(3)[of i]] by simp
    with Cons s(1) show ?case by simp
  qed simp
  then have "deserializeSlots (sp_page sp) ?h = Inr ?ss"
    by (simp add: deserializeSlots_def n map_nth)
  ultimately show ?thesis by (simp add: LoadSlottedPage_def t)
qed

subsection \<open>What a write leaves alone\<close>

lemma slot_content_write:
  assumes "length d = 4080" "in_page e s" "off + length bs \<le> e" "e \<le> 4080"
  shows "slot_content (write_at off bs d) s = slot_content d s"
  using assms by (auto simp: slot_content_def in_page_def read_write_other)

lemma slot_content_write_apart:
  assumes "length d = 4080" "in_page e s" "off + length bs \<le> 4080"
    and "slot_IsDeleted s \<or> unat (se_Offset s) + unat (se_Length s) \<le> off \<or> off + length bs \<le> unat (se_Offset s)"
  shows "slot_content (write_at off bs d) s = slot_content d s"
  using assms by (auto simp: slot_content_def in_page_def read_write_other)

lemma in_page_mono: "in_page e s \<Longrightarrow> e' \<le> e \<Longrightarrow> in_page e' s"
  by (auto simp: in_page_def)

lemma u16_sub: "b \<le> a \<Longrightarrow> unat (a - b :: u16) = unat a - unat b"
  by (simp add: unat_sub)

lemma u16_less: "unat (w :: u16) < 65536"
proof -
  have "unat w < 2 ^ LENGTH(16)" by (rule unsigned_less)
  then show ?thesis by simp
qed

lemma u16_of_nat: "n < 65536 \<Longrightarrow> unat (of_nat n :: u16) = n"
  using unat_of_nat_small(1)[of n] by simp

lemma u16_add: "unat a + unat b < 65536 \<Longrightarrow> unat (a + b :: u16) = unat a + unat b"
  by (simp add: unat_word_ariths)

lemma u16_directory_end: "12 + n * 5 < 65536 \<Longrightarrow> unat (12 + of_nat n * 5 :: u16) = 12 + n * 5"
  using u16_of_nat[of "12 + n * 5"] by (simp add: of_nat_mult)

lemma live_slot_0 [simp]: "\<not> slot_IsDeleted \<lparr>se_Offset = a, se_Length = l, se_Flags = 0\<rparr>"
  by (simp add: slot_IsDeleted_def)

lemma live_len_simps [simp]: "live_len [] = 0"
  "live_len (s # ss) = slot_len s + live_len ss"
  "live_len (ss @ ts) = live_len ss + live_len ts"
  by (simp_all add: live_len_def)

lemma live_len_update:
  "i < length ss \<Longrightarrow> live_len (ss[i := s]) + slot_len (ss ! i) = live_len ss + slot_len s"
  by (induction ss arbitrary: i) (simp_all split: nat.splits)

lemma apart_sym: "apart s t \<Longrightarrow> apart t s"
  by (auto simp: apart_def)

lemma apart_update:
  assumes "sorted_wrt apart ss" "i < length ss" "\<And>j. j < length ss \<Longrightarrow> j \<noteq> i \<Longrightarrow> apart s (ss ! j)"
  shows "sorted_wrt apart (ss[i := s])"
  using assms apart_sym by (fastforce simp: sorted_wrt_iff_nth_less nth_list_update)

lemma in_set_updateD: "t \<in> set (xs[i := x]) \<Longrightarrow> t = x \<or> t \<in> set xs"
  using set_update_subset_insert[of xs i x] by auto

text \<open>Replacing one slot, with the data area possibly extended downwards.\<close>

lemma layout_ok_update:
  assumes "layout_ok h ss" "i < length ss" "sh_SlotCount h' = sh_SlotCount h" "sh_FreeSpaceStart h' = sh_FreeSpaceStart h"
    and e: "unat (sh_FreeSpaceEnd h') \<le> unat (sh_FreeSpaceEnd h)" "12 + length ss * 5 \<le> unat (sh_FreeSpaceEnd h')"
    and s: "in_page (unat (sh_FreeSpaceEnd h')) s" "\<And>j. j < length ss \<Longrightarrow> j \<noteq> i \<Longrightarrow> apart s (ss ! j)"
    and l: "unat (sh_FreeSpaceEnd h') + slot_len s \<le> unat (sh_FreeSpaceEnd h) + slot_len (ss ! i)"
  shows "layout_ok h' (ss[i := s])"
  unfolding layout_ok_def
proof (intro conjI ballI)
  show "in_page (unat (sh_FreeSpaceEnd h')) t" if "t \<in> set (ss[i := s])" for t
    using in_set_updateD[OF that] s(1) assms(1) e(1) in_page_mono by (auto simp: layout_ok_def)
  show "sorted_wrt apart (ss[i := s])" using assms(1) by (intro apart_update assms(2) s(2)) (auto simp: layout_ok_def)
  show "unat (sh_FreeSpaceEnd h') + live_len (ss[i := s]) \<le> 4080"
    using live_len_update[OF assms(2), of s] l assms(1) by (simp add: layout_ok_def)
qed (use assms in \<open>auto simp: layout_ok_def\<close>)

subsection \<open>Insertion\<close>

lemma insert_steps_ok:
  assumes ok: "sp_ok sp" and n: "data \<noteq> []"
    and fit: "12 + Suc (length (sp_slots sp)) * 5 + length data \<le> unat (sh_FreeSpaceEnd (sp_header sp))"
  obtains sp' where "insert_steps data (of_nat (length data)) sp = Some sp'" "sp_ok sp'"
    "contents sp' = contents sp @ [Some data]" "sh_FreeSpaceStart (sp_header sp') \<noteq> 0"
    "sh_FragmentedSpace (sp_header sp') = sh_FragmentedSpace (sp_header sp)"
    "unat (sh_FreeSpaceEnd (sp_header sp')) = unat (sh_FreeSpaceEnd (sp_header sp)) - length data"
proof -
  define h where "h = sp_header sp"
  define k where "k = (of_nat (length data) :: u16)"
  define off where "off = sh_FreeSpaceEnd h - k"
  define slot where "slot = \<lparr>se_Offset = off, se_Length = k, se_Flags = 0\<rparr>"
  define h' where "h' = h\<lparr>sh_SlotCount := sh_SlotCount h + 1, sh_FreeSpaceStart := 12 + (sh_SlotCount h + 1) * 5,
    sh_FreeSpaceEnd := off\<rparr>"
  define c where "c = length (sp_slots sp)"
  have l: "layout_ok h (sp_slots sp)" and sv: "saved (sp_Data sp) h (sp_slots sp)" and ty: "pg_Type (sp_page sp) = 0"
    using ok by (simp_all add: sp_ok_def h_def)
  have cnt: "unat (sh_SlotCount h) = c" and e: "unat (sh_FreeSpaceEnd h) \<le> 4080" and d: "length (sp_Data sp) = 4080"
    using l sv by (simp_all add: layout_ok_def saved_def c_def)
  have fit': "12 + Suc c * 5 + length data \<le> unat (sh_FreeSpaceEnd h)" using fit by (simp add: h_def c_def)
  have k: "unat k = length data" using fit' e by (simp add: k_def u16_of_nat)
  have o1: "unat off = unat (sh_FreeSpaceEnd h) - length data"
    using fit' k by (simp add: off_def u16_sub word_le_nat_alt)
  have o2: "off + k = sh_FreeSpaceEnd h" by (simp add: off_def)
  have cid: "sh_SlotCount h = of_nat c" by (simp flip: cnt)
  have st: "unat (12 + (sh_SlotCount h + 1) * 5) = 12 + Suc c * 5"
    using u16_directory_end[of "Suc c"] fit' e by (simp add: cid algebra_simps)
  define D where "D = write_at 0 (header_bytes h') (write_at (12 + c * 5) (slot_bytes slot) (write_at (unat off) data (sp_Data sp)))"
  define sp' where "sp' = set_Data D (sp\<lparr>sp_header := h', sp_slots := sp_slots sp @ [slot]\<rparr>)"
  have ci: "copy_into off (off + k) data (sp_Data sp) = Some (write_at (unat off) data (sp_Data sp))"
    using o1 o2 e d k fit' by (simp add: copy_into_def word_le_nat_alt)
  have "insert_steps data (of_nat (length data)) sp = do {
      d \<leftarrow> copy_into off (off + k) data (sp_Data sp);
      sp1 \<leftarrow> serializeSlot (sh_SlotCount h) slot (set_Data d (sp\<lparr>sp_header := h', sp_slots := sp_slots sp @ [slot]\<rparr>));
      serializeHeader sp1 }"
    by (simp only: insert_steps_def Let_def h_def k_def off_def slot_def h'_def)
  then have "insert_steps data (of_nat (length data)) sp = Some sp'"
    using d fit' e o1 by (simp add: ci serializeSlot_def serializeHeader_def sp'_def D_def cnt)
  moreover have sv': "saved D h' (sp_slots sp @ [slot])"
    using saved_write_slot[OF saved_write_data[OF sv, of "unat off" data], of "length (sp_slots sp)" h' slot] fit' o1 e
    by (simp add: D_def c_def)
  moreover have "layout_ok h' (sp_slots sp @ [slot])"
    using l fit' o1 e k st unfolding layout_ok_def
    by (auto simp: h'_def c_def cnt unat_word_ariths sorted_wrt_append slot_def slot_len_def in_page_def apart_def dest: in_page_mono)
  moreover have "slot_content D s = slot_content (sp_Data sp) s" if "s \<in> set (sp_slots sp)" for s
    using that l fit' o1 d e slot_content_write[of _ "unat (sh_FreeSpaceEnd h)" s]
    by (simp add: D_def layout_ok_def)
  moreover have "slot_content D slot = Some data"
    using read_write_same[of "unat off" data "sp_Data sp"] fit' o1 d e k
    by (simp add: D_def slot_content_def slot_def read_write_other)
  moreover have "sh_FreeSpaceStart h' \<noteq> 0"
  proof
    assume "sh_FreeSpaceStart h' = 0"
    then have "12 + (sh_SlotCount h + 1) * 5 = 0" by (simp add: h'_def)
    with st show False by simp
  qed
  moreover have "sh_FragmentedSpace h' = sh_FragmentedSpace (sp_header sp)" by (simp add: h'_def h_def)
  moreover have "unat (sh_FreeSpaceEnd h') = unat (sh_FreeSpaceEnd (sp_header sp)) - length data"
    using o1 by (simp add: h'_def h_def)
  ultimately show thesis
    using that[of sp'] ty by (simp add: sp'_def sp_ok_def contents_def)
qed

subsection \<open>Lookups\<close>

lemma length_records [simp]: "length (contents sp) = length (sp_slots sp)"
  by (simp add: contents_def)

lemma sp_okD:
  assumes "sp_ok sp"
  shows "length (sp_Data sp) = 4080" "unat (sh_SlotCount (sp_header sp)) = length (sp_slots sp)"
    and "12 + length (sp_slots sp) * 5 \<le> unat (sh_FreeSpaceEnd (sp_header sp))"
    and "unat (sh_FreeSpaceEnd (sp_header sp)) \<le> 4080"
    and "saved (sp_Data sp) (sp_header sp) (sp_slots sp)" "layout_ok (sp_header sp) (sp_slots sp)"
    and "pg_Type (sp_page sp) = PageTypeData"
    and "i < length (sp_slots sp) \<Longrightarrow> in_page (unat (sh_FreeSpaceEnd (sp_header sp))) (sp_slots sp ! i)"
  using assms by (auto simp: sp_ok_def layout_ok_def saved_def)

lemma find_slot_eq:
  assumes "sp_ok sp"
  shows "find_slot i sp =
    (if unat i \<ge> length (contents sp) then Inl (SlotBadID i)
     else if contents sp ! unat i = None then Inl (SlotDeleted i) else Inr (sp_slots sp ! unat i))"
  using sp_okD(2)[OF assms] by (simp add: find_slot_def word_le_nat_alt contents_def slot_content_def)

lemma live_span:
  assumes "in_page e s" "\<not> slot_IsDeleted s" "n \<le> unat (se_Length s)"
  shows "unat (se_Offset s) + n \<le> 4080" "e \<le> unat (se_Offset s)" "n = unat k \<Longrightarrow> unat (se_Offset s + k) = unat (se_Offset s) + n"
  using assms by (simp_all add: in_page_def u16_add)

lemma GetSlot_eq:
  assumes "sp_ok sp"
  shows "GetSlot i sp =
    (if unat i \<ge> length (contents sp) then Inl (SlotBadID i)
     else case contents sp ! unat i of None \<Rightarrow> Inl (SlotDeleted i) | Some d \<Rightarrow> Inr d)"
proof (cases "unat i < length (sp_slots sp) \<and> \<not> slot_IsDeleted (sp_slots sp ! unat i)")
  case True
  let ?s = "sp_slots sp ! unat i"
  have ip: "in_page (unat (sh_FreeSpaceEnd (sp_header sp))) ?s" using sp_okD(8)[OF assms] True by simp
  note sp = live_span[OF ip _ le_refl] and len = sp_okD(1)[OF assms]
  have "go_slice (sp_Data sp) (unat (se_Offset ?s)) (unat (se_Offset ?s + se_Length ?s))
    = Some (read_at (unat (se_Offset ?s)) (unat (se_Length ?s)) (sp_Data sp))"
    using sp True len by (simp add: go_slice_read)
  moreover have "length (read_at (unat (se_Offset ?s)) (unat (se_Length ?s)) (sp_Data sp)) = unat (se_Length ?s)"
    using sp True len by (simp add: length_read_at)
  ultimately show ?thesis using True find_slot_eq[OF assms, of i]
    by (simp add: GetSlot_def contents_def slot_content_def go_copy_def)
next
  case False
  then show ?thesis using find_slot_eq[OF assms, of i] by (auto simp: GetSlot_def contents_def slot_content_def)
qed

subsection \<open>Deletion and update\<close>

lemma add_fragmented_simps [simp]:
  "sp_slots (add_fragmented n sp) = sp_slots sp" "sp_page (add_fragmented n sp) = sp_page sp"
  "sh_SlotCount (sp_header (add_fragmented n sp)) = sh_SlotCount (sp_header sp)"
  "sh_FreeSpaceStart (sp_header (add_fragmented n sp)) = sh_FreeSpaceStart (sp_header sp)"
  "sh_FreeSpaceEnd (sp_header (add_fragmented n sp)) = sh_FreeSpaceEnd (sp_header sp)"
  by (simp_all add: add_fragmented_def)

lemma layout_ok_frag: "layout_ok (h\<lparr>sh_FragmentedSpace := n\<rparr>) ss = layout_ok h ss"
  by (simp add: layout_ok_def)

lemma set_slot_simps [simp]:
  "sp_slots (set_slot i s sp) = (sp_slots sp)[unat i := s]" "sp_page (set_slot i s sp) = sp_page sp"
  "sp_header (set_slot i s sp) = sp_header sp"
  by (simp_all add: set_slot_def)

text \<open>The common end of an update: the slot and the header are written to the directory.\<close>

lemma save_slot_ok:
  assumes sv: "saved (sp_Data sp) h0 ss" and ss: "sp_slots sp = ss[unat i := s]" and i: "unat i < length ss"
    and lay: "layout_ok (sp_header sp) (sp_slots sp)" and ty: "pg_Type (sp_page sp) = PageTypeData"
  obtains sp' where "save_slot i s sp = Some sp'" "sp_ok sp'" "contents sp' = contents sp"
    "sp_header sp' = sp_header sp" "sp_slots sp' = sp_slots sp"
proof -
  let ?d = "sp_Data sp" and ?h = "sp_header sp"
  define D where "D = write_at 0 (header_bytes ?h) (write_at (12 + unat i * 5) (slot_bytes s) ?d)"
  have len: "length ?d = 4080" using sv by (simp add: saved_def)
  have dir: "12 + length ss * 5 \<le> unat (sh_FreeSpaceEnd ?h)" "unat (sh_FreeSpaceEnd ?h) \<le> 4080"
    and ip: "\<And>t. t \<in> set (sp_slots sp) \<Longrightarrow> in_page (unat (sh_FreeSpaceEnd ?h)) t"
    using lay by (simp_all add: layout_ok_def ss)
  have b: "12 + unat i * 5 + 5 \<le> unat (sh_FreeSpaceEnd ?h)" using i dir by simp
  have "save_slot i s sp = Some (set_Data D sp)"
    using len b dir by (simp add: save_slot_def serializeSlot_def serializeHeader_def D_def)
  moreover have "saved D ?h (sp_slots sp)"
    using saved_write_slot[OF sv, of "unat i" ?h s] i b dir by (simp add: D_def ss)
  moreover have "slot_content D t = slot_content ?d t" if "t \<in> set (sp_slots sp)" for t
    using slot_content_write[OF _ ip[OF that]] len b dir by (simp add: D_def)
  ultimately show thesis using that[of "set_Data D sp"] lay ty by (simp add: sp_ok_def contents_def)
qed

lemma deleted_flag [simp]:
  "slot_IsDeleted (s\<lparr>se_Flags := f OR 1\<rparr>)"
  "slot_IsDeleted \<lparr>se_Offset = a, se_Length = l, se_Flags = f OR 4\<rparr> \<longleftrightarrow> f AND 1 \<noteq> 0"
  "slot_IsDeleted (s\<lparr>se_Length := n\<rparr>) = slot_IsDeleted s"
  "slot_IsDeleted (s\<lparr>se_Offset := a\<rparr>) = slot_IsDeleted s"
  by (simp_all add: slot_IsDeleted_def bit.conj_disj_distrib2)

lemma DeleteSlot_ok:
  assumes ok: "sp_ok sp" and i: "unat i < length (contents sp)" "contents sp ! unat i \<noteq> None"
  obtains sp' where "DeleteSlot i sp = (Inr (), sp')" "sp_ok sp'" "contents sp' = (contents sp)[unat i := None]"
    "sh_FreeSpaceStart (sp_header sp') = sh_FreeSpaceStart (sp_header sp)"
proof -
  let ?s = "sp_slots sp ! unat i"
  define s where "s = ?s\<lparr>se_Flags := se_Flags ?s OR SlotFlagDeleted, se_Offset := 0\<rparr>"
  define sp1 where "sp1 = set_slot i s (add_fragmented (se_Length ?s) sp)"
  note k = sp_okD[OF ok]
  have del: "slot_IsDeleted s" by (simp add: s_def)
  have lay: "layout_ok (sp_header sp1) (sp_slots sp1)"
    using layout_ok_update[OF k(6), of "unat i" "sp_header sp1" s] i(1) del k(3)
    by (simp add: sp1_def slot_len_def apart_def in_page_def)
  obtain sp' where s': "save_slot i s sp1 = Some sp'" "sp_ok sp'" "contents sp' = contents sp1"
      "sp_header sp' = sp_header sp1"
    by (rule save_slot_ok[of sp1 "sp_header sp" "sp_slots sp" i s]) (use k(5,7) i lay in \<open>auto simp: sp1_def\<close>)
  have "contents sp1 = (contents sp)[unat i := None]"
    by (simp add: contents_def sp1_def map_update slot_content_def[of _ s] del)
  moreover have "find_slot i sp = Inr ?s" using find_slot_eq[OF ok, of i] i by auto
  then have "DeleteSlot i sp = (Inr (), sp_MarkDirty sp')"
    by (simp only: DeleteSlot_def sum.case Let_def s_def[symmetric] sp1_def[symmetric] s'(1) option.case)
  ultimately show thesis using that[of "sp_MarkDirty sp'"] s' by (simp add: sp1_def)
qed

lemma update_in_place_ok:
  assumes ok: "sp_ok sp" and i: "unat i < length (sp_slots sp)" "\<not> slot_IsDeleted (sp_slots sp ! unat i)"
    and n: "length data \<le> unat (se_Length (sp_slots sp ! unat i))"
  obtains sp' where "update_in_place i (sp_slots sp ! unat i) data (of_nat (length data)) sp = Some sp'" "sp_ok sp'"
    "contents sp' = (contents sp)[unat i := Some data]"
    "sh_FreeSpaceStart (sp_header sp') = sh_FreeSpaceStart (sp_header sp)"
proof -
  let ?s = "sp_slots sp ! unat i" and ?ss = "sp_slots sp"
  define k where "k = (of_nat (length data) :: u16)"
  define s where "s = (if k < se_Length ?s then ?s\<lparr>se_Length := k\<rparr> else ?s)"
  define d where "d = write_at (unat (se_Offset ?s)) data (sp_Data sp)"
  define sp2 where "sp2 = (if k < se_Length ?s then add_fragmented (se_Length ?s - k) (set_Data d sp) else set_Data d sp)"
  note w = sp_okD[OF ok]
  have ip: "in_page (unat (sh_FreeSpaceEnd (sp_header sp))) ?s" using w(8) i(1) .
  have k: "unat k = length data" using n u16_less[of "se_Length ?s"] by (simp add: k_def u16_of_nat)
  note span = live_span(1,2)[OF ip i(2) n] live_span(3)[OF ip i(2) n k[symmetric]]
  have s: "se_Offset s = se_Offset ?s" "unat (se_Length s) = length data" "\<not> slot_IsDeleted s"
    using k n i(2) by (auto simp: s_def word_less_nat_alt)
  have ci: "copy_into (se_Offset ?s) (se_Offset ?s + k) data (sp_Data sp) = Some d"
    using span k w(1) by (simp add: copy_into_def d_def word_le_nat_alt)
  have v: "sp_Data sp2 = d" "sp_slots sp2 = ?ss" "pg_Type (sp_page sp2) = 0"
    "sh_SlotCount (sp_header sp2) = sh_SlotCount (sp_header sp)" "sh_FreeSpaceEnd (sp_header sp2) = sh_FreeSpaceEnd (sp_header sp)"
    "sh_FreeSpaceStart (sp_header sp2) = sh_FreeSpaceStart (sp_header sp)"
    using w(7) by (simp_all add: sp2_def)
  have ap: "apart ?s (?ss ! j)" if "j < length ?ss" "j \<noteq> unat i" for j
    using w(6) that i(1) apart_sym by (auto simp: layout_ok_def sorted_wrt_iff_nth_less) (metis linorder_neqE_nat)
  have lay: "layout_ok (sp_header sp2) (?ss[unat i := s])"
  proof (rule layout_ok_update[OF w(6) i(1)])
    show "apart s (?ss ! j)" if "j < length ?ss" "j \<noteq> unat i" for j
      using ap[OF that] s n i(2) by (auto simp: apart_def)
  qed (use s n i(2) ip w(3) in \<open>auto simp: v slot_len_def in_page_def\<close>)
  have sv: "saved d (sp_header sp) ?ss"
    using saved_write_data[OF w(5), of "unat (se_Offset ?s)" data] span w(3) by (simp add: d_def)
  obtain sp' where s': "save_slot i s (set_slot i s sp2) = Some sp'" "sp_ok sp'"
      "contents sp' = contents (set_slot i s sp2)" "sp_header sp' = sp_header (set_slot i s sp2)"
    by (rule save_slot_ok[of "set_slot i s sp2" "sp_header sp" ?ss i s]) (use sv v i lay in auto)
  have "update_in_place i ?s data (of_nat (length data)) sp = Some sp'"
    using s'(1) by (simp add: update_in_place_def k_def[symmetric] ci s_def[symmetric] sp2_def[symmetric] Let_def)
  moreover have "contents (set_slot i s sp2) = (contents sp)[unat i := Some data]"
  proof (rule nth_equalityI)
    fix j assume "j < length (contents (set_slot i s sp2))"
    then have j: "j < length ?ss" by (simp add: v)
    show "contents (set_slot i s sp2) ! j = (contents sp)[unat i := Some data] ! j"
    proof (cases "j = unat i")
      case True
      with i(1) read_write_same[of "unat (se_Offset ?s)" data "sp_Data sp"] span w(1) s show ?thesis
        by (simp add: contents_def v d_def slot_content_def)
    next
      case False
      with slot_content_write_apart[OF w(1) w(8)[OF j], of "unat (se_Offset ?s)" data] ap[OF j False] j span n i(2) show ?thesis
        by (auto simp: contents_def v d_def apart_def)
    qed
  qed (simp add: v)
  ultimately show thesis using that[of sp'] s' v by simp
qed

lemma update_moved_ok:
  assumes ok: "sp_ok sp" and i: "unat i < length (sp_slots sp)" "\<not> slot_IsDeleted (sp_slots sp ! unat i)"
    and n: "length data < 65536" and fit: "12 + length (sp_slots sp) * 5 + length data \<le> unat (sh_FreeSpaceEnd (sp_header sp))"
  obtains sp' where "update_moved False i (sp_slots sp ! unat i) data (of_nat (length data)) (add_fragmented f sp) = Some sp'" "sp_ok sp'"
    "contents sp' = (contents sp)[unat i := Some data]"
    "sh_FreeSpaceStart (sp_header sp') = sh_FreeSpaceStart (sp_header sp)"
proof -
  let ?s = "sp_slots sp ! unat i" and ?ss = "sp_slots sp" and ?e = "sh_FreeSpaceEnd (sp_header sp)"
  define k where "k = (of_nat (length data) :: u16)"
  define off where "off = ?e - k"
  define s where "s = \<lparr>se_Offset = off, se_Length = k, se_Flags = se_Flags ?s OR SlotFlagUpdated\<rparr>"
  define d where "d = write_at (unat off) data (sp_Data sp)"
  define sp1 where "sp1 = (add_fragmented f sp)\<lparr>sp_header := (sp_header (add_fragmented f sp))\<lparr>sh_FreeSpaceEnd := off\<rparr>\<rparr>"
  note w = sp_okD[OF ok]
  have k: "unat k = length data" using n by (simp add: k_def u16_of_nat)
  have o1: "unat off = unat ?e - length data" using fit k by (simp add: off_def u16_sub word_le_nat_alt)
  have o2: "off + k = ?e" by (simp add: off_def)
  have ci: "copy_into off (off + k) data (sp_Data sp) = Some d"
    using o1 o2 k w(1,4) fit by (simp add: copy_into_def d_def word_le_nat_alt)
  have s: "\<not> slot_IsDeleted s" "se_Offset s = off" "unat (se_Length s) = length data"
    using i(2) k by (simp_all add: s_def slot_IsDeleted_def[of ?s])
  have v: "sp_page sp1 = sp_page sp" "sp_slots sp1 = ?ss" "sh_SlotCount (sp_header sp1) = sh_SlotCount (sp_header sp)"
    "sh_FreeSpaceStart (sp_header sp1) = sh_FreeSpaceStart (sp_header sp)" "sh_FreeSpaceEnd (sp_header sp1) = off"
    by (simp_all add: sp1_def)
  have ap: "apart s (?ss ! j)" if "j < length ?ss" for j
    using w(8)[OF that] s o1 fit by (auto simp: apart_def in_page_def)
  have lay: "layout_ok (sp_header sp1) (?ss[unat i := s])"
    by (rule layout_ok_update[OF w(6) i(1)]) (use s o1 fit w(3,4) ap in \<open>auto simp: v slot_len_def in_page_def\<close>)
  have sv: "saved d (sp_header sp) ?ss"
    using saved_write_data[OF w(5), of "unat off" data] o1 fit w(4) by (simp add: d_def)
  obtain sp' where s': "save_slot i s (set_slot i s (set_Data d sp1)) = Some sp'" "sp_ok sp'"
      "contents sp' = contents (set_slot i s (set_Data d sp1))" "sp_header sp' = sp_header (set_slot i s (set_Data d sp1))"
    by (rule save_slot_ok[of "set_slot i s (set_Data d sp1)" "sp_header sp" ?ss i s])
       (use sv v i lay w(7) in \<open>auto simp: set_Data_def\<close>)
  have "update_moved False i ?s data (of_nat (length data)) (add_fragmented f sp) = do {
      d \<leftarrow> copy_into off (off + k) data (sp_Data sp1); save_slot i s (set_slot i s (set_Data d sp1)) }"
    by (simp only: update_moved_def Let_def k_def off_def s_def sp1_def add_fragmented_simps if_False id_apply)
  then have "update_moved False i ?s data (of_nat (length data)) (add_fragmented f sp) = Some sp'"
    using s'(1) ci v(1) by simp
  moreover have "contents (set_slot i s (set_Data d sp1)) = (contents sp)[unat i := Some data]"
  proof (rule nth_equalityI)
    fix j assume "j < length (contents (set_slot i s (set_Data d sp1)))"
    then have j: "j < length ?ss" by (simp add: v)
    show "contents (set_slot i s (set_Data d sp1)) ! j = (contents sp)[unat i := Some data] ! j"
    proof (cases "j = unat i")
      case True
      with i(1) read_write_same[of "unat off" data "sp_Data sp"] o1 fit w(1,4) s show ?thesis
        by (simp add: contents_def v d_def slot_content_def)
    next
      case False
      with slot_content_write_apart[OF w(1) w(8)[OF j], of "unat off" data] ap[OF j] j s o1 fit w(4) show ?thesis
        by (auto simp: contents_def v d_def apart_def)
    qed
  qed (simp add: v)
  ultimately show thesis using that[of sp'] s' v by simp
qed

subsection \<open>Compaction keeps the records\<close>

definition moved :: "bytes \<Rightarrow> bytes \<Rightarrow> SlotEntry \<Rightarrow> SlotEntry \<Rightarrow> bool" where
  "moved src t s s' \<longleftrightarrow> \<not> slot_IsDeleted s' \<and> slot_len s' = slot_len s \<and> slot_content t s' = slot_content src s"

lemma compact_move_ok:
  assumes "\<forall>s \<in> set ss. \<not> slot_IsDeleted s \<and> in_page 0 s" "live_len ss \<le> unat e" "unat e \<le> 4080"
    and "length src = 4080" "length tmp = 4080"
  shows "\<exists>ss' e' t. compact_move src ss e tmp = Some (ss', e', t) \<and> unat e' = unat e - live_len ss \<and>
    length t = 4080 \<and> list_all2 (moved src t) ss ss' \<and>
    (\<forall>s \<in> set ss'. unat e' \<le> unat (se_Offset s) \<and> unat (se_Offset s) + slot_len s \<le> unat e) \<and>
    sorted_wrt apart ss' \<and> (\<forall>a n. unat e \<le> a \<and> a + n \<le> 4080 \<longrightarrow> read_at a n t = read_at a n tmp)"
  using assms
proof (induction ss arbitrary: e tmp)
  case (Cons s ss)
  define off where "off = e - se_Length s"
  define old where "old = read_at (unat (se_Offset s)) (unat (se_Length s)) src"
  define tmp1 where "tmp1 = write_at (unat off) old tmp"
  have lv: "\<not> slot_IsDeleted s" and ip: "in_page 0 s" and sl: "slot_len s = unat (se_Length s)"
    using Cons.prems(1) by (simp_all add: slot_len_def)
  note span = live_span[OF ip lv le_refl]
  have le: "unat (se_Length s) + live_len ss \<le> unat e" using Cons.prems(2) sl by simp
  then have o1: "unat off = unat e - unat (se_Length s)" by (simp add: off_def u16_sub word_le_nat_alt)
  have old: "length old = unat (se_Length s)" "go_slice src (unat (se_Offset s)) (unat (se_Offset s + se_Length s)) = Some old"
    using span Cons.prems(4) by (simp_all add: old_def length_read_at go_slice_read)
  have ci: "copy_into off e old tmp = Some tmp1"
    using o1 old(1) Cons.prems(3,5) le by (simp add: copy_into_def tmp1_def word_le_nat_alt)
  have len1: "length tmp1 = 4080" using o1 old(1) Cons.prems(3,5) le by (simp add: tmp1_def)
  have "\<forall>s \<in> set ss. \<not> slot_IsDeleted s \<and> in_page 0 s" "live_len ss \<le> unat off" "unat off \<le> 4080"
    using Cons.prems(1,3) le o1 by simp_all
  note ih = Cons.IH[OF this Cons.prems(4) len1]
  obtain ss' e' t where IH: "compact_move src ss off tmp1 = Some (ss', e', t)" "unat e' = unat off - live_len ss"
      "length t = 4080" "list_all2 (moved src t) ss ss'"
      "\<And>r. r \<in> set ss' \<Longrightarrow> unat e' \<le> unat (se_Offset r) \<and> unat (se_Offset r) + slot_len r \<le> unat off"
      "sorted_wrt apart ss'" "\<And>a n. unat off \<le> a \<and> a + n \<le> 4080 \<Longrightarrow> read_at a n t = read_at a n tmp1"
    using ih by blast
  let ?s = "s\<lparr>se_Offset := off\<rparr>"
  have "slot_content t ?s = slot_content src s"
    using IH(7)[of "unat off" "unat (se_Length s)"] read_write_same[of "unat off" old tmp] o1 old(1) le Cons.prems(3,5) lv
    by (simp add: slot_content_def tmp1_def old_def)
  then have "moved src t s ?s" using lv by (simp add: moved_def slot_len_def)
  moreover have "apart ?s r" if "r \<in> set ss'" for r
    using IH(5)[OF that] by (auto simp: apart_def slot_len_def)
  moreover have "read_at a n t = read_at a n tmp" if "unat e \<le> a \<and> a + n \<le> 4080" for a n
  proof -
    have "read_at a n t = read_at a n tmp1" by (rule IH(7)) (use that o1 in auto)
    then show ?thesis using that o1 old(1) le Cons.prems(3,5) by (simp add: tmp1_def read_write_other)
  qed
  moreover have "slot_len ?s = unat (se_Length s)" using lv by (simp add: slot_len_def)
  ultimately show ?case
    using lv old(2) ci IH(1-6) le o1 sl by (auto simp: off_def[symmetric] Let_def dest: IH(5))
qed simp

lemma serializeSlots_ok:
  assumes "12 + (i + length ss) * 5 \<le> 4080" "length (sp_Data sp) = 4080"
  shows "\<exists>D. serializeSlots i ss sp = Some (set_Data D sp) \<and> length D = 4080 \<and>
    (\<forall>j < length ss. read_at (12 + (i + j) * 5) 5 D = slot_bytes (ss ! j)) \<and>
    (\<forall>a n. a + n \<le> 4080 \<and> (a + n \<le> 12 + i * 5 \<or> 12 + (i + length ss) * 5 \<le> a) \<longrightarrow>
       read_at a n D = read_at a n (sp_Data sp))"
  using assms
proof (induction ss arbitrary: i sp)
  case Nil
  then show ?case by (intro exI[of _ "sp_Data sp"]) (simp add: set_Data_def)
next
  case (Cons s ss)
  define d where "d = write_at (12 + i * 5) (slot_bytes s) (sp_Data sp)"
  have i: "unat (of_nat i :: u16) = i" using Cons.prems(1) by (simp add: u16_of_nat)
  have s1: "serializeSlot (of_nat i) s sp = Some (set_Data d sp)"
    using Cons.prems by (simp add: serializeSlot_def i d_def)
  have d: "length d = 4080" "read_at (12 + i * 5) 5 d = slot_bytes s"
    using Cons.prems read_write_same[of "12 + i * 5" "slot_bytes s" "sp_Data sp"] by (simp_all add: d_def)
  obtain D where D: "serializeSlots (Suc i) ss (set_Data d sp) = Some (set_Data D sp)" "length D = 4080"
      "\<And>j. j < length ss \<Longrightarrow> read_at (12 + (Suc i + j) * 5) 5 D = slot_bytes (ss ! j)"
      "\<And>a n. a + n \<le> 4080 \<and> (a + n \<le> 12 + Suc i * 5 \<or> 12 + (Suc i + length ss) * 5 \<le> a) \<Longrightarrow> read_at a n D = read_at a n d"
    using Cons.IH[of "Suc i" "set_Data d sp"] Cons.prems(1) d(1) by auto
  have "read_at (12 + (i + j) * 5) 5 D = slot_bytes ((s # ss) ! j)" if "j < length (s # ss)" for j
    using that D(3)[of "j - 1"] D(4)[of "12 + i * 5" 5] d(2) Cons.prems(1) by (cases j) simp_all
  moreover have "read_at a n D = read_at a n (sp_Data sp)"
    if "a + n \<le> 4080 \<and> (a + n \<le> 12 + i * 5 \<or> 12 + (i + length (s # ss)) * 5 \<le> a)" for a n
  proof -
    have "read_at a n D = read_at a n d" by (rule D(4)) (use that in auto)
    also have "\<dots> = read_at a n (sp_Data sp)" using that Cons.prems by (auto simp: d_def intro!: read_write_other)
    finally show ?thesis .
  qed
  ultimately show ?case using s1 D(1,2) by auto
qed

lemma live_len_filter: "live_len (filter (\<lambda>s. \<not> slot_IsDeleted s) ss) = live_len ss"
  by (induction ss) (simp_all add: slot_len_def)

lemma live_len_rev [simp]: "live_len (rev ss) = live_len ss"
  by (induction ss) simp_all

lemma sorted_wrt_apart_rev: "sorted_wrt apart (rev ss) = sorted_wrt apart ss"
proof -
  have "(\<lambda>x y. apart y x) = apart" by (intro ext) (auto simp: apart_def)
  then show ?thesis by (simp add: sorted_wrt_rev)
qed

lemma contents_filter:
  "filter (\<lambda>c. c \<noteq> None) (map (slot_content d) ss) = map (slot_content d) (filter (\<lambda>s. \<not> slot_IsDeleted s) ss)"
  by (induction ss) (simp_all add: slot_content_def)

lemma list_all2_moved:
  "list_all2 (moved src t) ss ss' \<Longrightarrow> map (slot_content t) ss' = map (slot_content src) ss \<and> live_len ss' = live_len ss \<and>
     (\<forall>s \<in> set ss'. \<not> slot_IsDeleted s)"
  by (induction rule: list_all2_induct) (auto simp: moved_def)

lemma header_write:
  "length d = 4080 \<Longrightarrow> length (write_at 0 (header_bytes h) d) = 4080 \<and> read_at 0 12 (write_at 0 (header_bytes h) d) = header_bytes h"
  using read_write_same[of 0 "header_bytes h" d] by simp

lemma slot_content_same:
  assumes "\<And>a n. e \<le> a \<Longrightarrow> a + n \<le> 4080 \<Longrightarrow> read_at a n d = read_at a n d'" "in_page e s"
  shows "slot_content d s = slot_content d' s"
  using assms by (auto simp: slot_content_def in_page_def)

text \<open>The page rebuilt from moved slots: directory and header are written over the moved data.\<close>

lemma rebuild_ok:
  assumes ty: "pg_Type (sp_page sp) = PageTypeData" and t: "length t = 4080"
    and lay: "layout_ok h ss" and sp: "sp = set_Data t (q\<lparr>sp_header := h, sp_slots := ss\<rparr>)"
  shows "\<exists>sp'. do { sp1 \<leftarrow> serializeHeader sp; serializeSlots 0 ss sp1 } = Some sp' \<and> sp_ok sp' \<and>
    contents sp' = map (slot_content t) ss \<and> sp_header sp' = h"
proof -
  let ?t = "write_at 0 (header_bytes h) t"
  have e: "12 + length ss * 5 \<le> unat (sh_FreeSpaceEnd h)" "unat (sh_FreeSpaceEnd h) \<le> 4080"
    and ip: "\<And>s. s \<in> set ss \<Longrightarrow> in_page (unat (sh_FreeSpaceEnd h)) s" using lay by (auto simp: layout_ok_def)
  have "12 + (0 + length ss) * 5 \<le> 4080" "length (sp_Data (set_Data ?t sp)) = 4080" using e t by simp_all
  from serializeSlots_ok[OF this] obtain D where D: "serializeSlots 0 ss (set_Data ?t sp) = Some (set_Data D sp)" "length D = 4080"
      "\<And>j. j < length ss \<Longrightarrow> read_at (12 + j * 5) 5 D = slot_bytes (ss ! j)"
      "\<And>a n. a + n \<le> 4080 \<Longrightarrow> (a + n \<le> 12 \<or> 12 + length ss * 5 \<le> a) \<Longrightarrow> read_at a n D = read_at a n ?t" by auto
  have "read_at a n D = read_at a n t" if "unat (sh_FreeSpaceEnd h) \<le> a" "a + n \<le> 4080" for a n
    using D(4)[of a n] that e t by (simp add: read_write_other)
  then have "slot_content D s = slot_content t s" if "s \<in> set ss" for s
    using slot_content_same[OF _ ip[OF that]] by blast
  moreover have "saved D h ss" using D(2,3) D(4)[of 0 12] header_write[OF t, of h] by (simp add: saved_def)
  ultimately show ?thesis using D(1) ty lay t sp
    by (auto simp: serializeHeader_def sp_ok_def contents_def)
qed

lemma sp_laid_outD:
  assumes "sp_laid_out sp"
  shows "length (sp_Data sp) = 4080" "unat (sh_SlotCount (sp_header sp)) = length (sp_slots sp)"
    and "layout_ok (sp_header sp) (sp_slots sp)" "pg_Type (sp_page sp) = PageTypeData"
  using assms by (auto simp: sp_laid_out_def layout_ok_def)

lemma compact_steps_ok:
  assumes ok: "sp_laid_out sp"
  shows "\<exists>sp'. compact_steps sp = Some sp' \<and> sp_ok sp' \<and> contents sp' = filter (\<lambda>c. c \<noteq> None) (contents sp) \<and>
    sh_FreeSpaceStart (sp_header sp') \<noteq> 0 \<and> sh_FragmentedSpace (sp_header sp') = 0 \<and>
    unat (sh_FreeSpaceEnd (sp_header sp')) + live_len (sp_slots sp) = 4080"
proof -
  define ns where "ns = filter (\<lambda>s. \<not> slot_IsDeleted s) (sp_slots sp)"
  note w = sp_laid_outD[OF ok]
  have cf: "filter (\<lambda>c. c \<noteq> None) (contents sp) = map (slot_content (sp_Data sp)) ns"
    unfolding contents_def ns_def by (rule contents_filter)
  have fs: "filter (\<lambda>s. \<not> slot_IsDeleted s) (take (unat (sh_SlotCount (sp_header sp))) (sp_slots sp)) = ns"
    using w(2) by (simp add: ns_def)
  have nl: "length ns \<le> length (sp_slots sp)" by (simp add: ns_def)
  have live: "\<forall>s \<in> set ns. \<not> slot_IsDeleted s \<and> in_page 0 s"
    using w(3) by (auto simp: ns_def layout_ok_def dest: in_page_mono)
  show ?thesis
  proof (cases "ns = []")
    case True
    define h where "h = (sp_header sp)\<lparr>sh_SlotCount := 0, sh_FreeSpaceStart := 12, sh_FreeSpaceEnd := 4080, sh_FragmentedSpace := 0\<rparr>"
    have "layout_ok h []" by (simp add: layout_ok_def h_def)
    moreover have "live_len (sp_slots sp) = 0" using live_len_filter[of "sp_slots sp"] True by (simp add: ns_def)
    ultimately show ?thesis using rebuild_ok[OF _ w(1) _ refl, where h = h and ss = "[]" and q = sp] w(4) True fs w(1,2) cf
      by (auto simp: compact_steps_def h_def set_Data_def serializeHeader_def)
  next
    case False
    have le: "live_len (rev ns) \<le> unat (4080 :: u16)" "unat (4080 :: u16) \<le> 4080"
      using w(3) by (simp_all add: ns_def live_len_filter layout_ok_def)
    have live': "\<forall>s \<in> set (rev ns). \<not> slot_IsDeleted s \<and> in_page 0 s" using live by simp
    obtain rs e t where m: "compact_move (sp_Data sp) (rev ns) 4080 (replicate 4080 0) = Some (rs, e, t)"
        "unat e = 4080 - live_len ns" "length t = 4080" "list_all2 (moved (sp_Data sp) t) (rev ns) rs"
        "\<And>s. s \<in> set rs \<Longrightarrow> unat e \<le> unat (se_Offset s) \<and> unat (se_Offset s) + slot_len s \<le> 4080" "sorted_wrt apart rs"
      using compact_move_ok[OF live' le w(1), of "replicate 4080 0"] by auto
    note mv = list_all2_moved[OF m(4)] and ln = list_all2_lengthD[OF m(4)]
    define c where "c = (of_nat (length ns) :: u16)"
    define h where "h = (sp_header sp)\<lparr>sh_SlotCount := c, sh_FreeSpaceStart := 12 + c * 5, sh_FreeSpaceEnd := e, sh_FragmentedSpace := 0\<rparr>"
    have b: "12 + length ns * 5 + live_len ns \<le> 4080"
      using w(3) nl by (simp add: layout_ok_def live_len_filter ns_def)
    have c: "unat c = length ns" "unat (12 + c * 5) = 12 + length ns * 5"
      using b u16_directory_end[of "length ns"] by (simp_all add: c_def u16_of_nat)
    have "layout_ok h (rev rs)"
      using b c m(2,5,6) mv ln by (auto simp: layout_ok_def h_def sorted_wrt_apart_rev in_page_def slot_len_def)
    from rebuild_ok[OF _ m(3) this refl, of sp] w(4) obtain sp' where
      sp': "do { sp1 \<leftarrow> serializeHeader (set_Data t (sp\<lparr>sp_header := h, sp_slots := rev rs\<rparr>)); serializeSlots 0 (rev rs) sp1 } = Some sp'"
        "sp_ok sp'" "contents sp' = map (slot_content t) (rev rs)" "sp_header sp' = h" by (auto simp: set_Data_def)
    have "compact_steps sp = Some sp'"
      using sp'(1) False fs m(1) w(1,2) by (simp add: compact_steps_def Let_def c_def[symmetric] h_def[symmetric])
    moreover have "map (slot_content t) (rev rs) = map (slot_content (sp_Data sp)) ns"
      using mv by (simp add: rev_map[symmetric])
    moreover have "sh_FreeSpaceStart h \<noteq> 0"
    proof
      assume "sh_FreeSpaceStart h = 0"
      then have "12 + c * 5 = 0" by (simp add: h_def)
      with c(2) show False by simp
    qed
    moreover have "unat e + live_len (sp_slots sp) = 4080"
      using m(2) b live_len_filter[of "sp_slots sp"] by (simp add: ns_def)
    ultimately show ?thesis using sp' cf by (auto simp: h_def)
  qed
qed

lemma sp_laid_out_ok [simp, intro]: "sp_ok sp \<Longrightarrow> sp_laid_out sp"
  by (simp add: sp_ok_def sp_laid_out_def saved_def)

lemma sp_laid_out_frag [simp]: "sp_laid_out (add_fragmented n sp) = sp_laid_out sp"
  by (simp add: sp_laid_out_def layout_ok_def)

lemma contents_frag [simp]: "contents (add_fragmented n sp) = contents sp"
  by (simp add: contents_def)

lemma Compact_ok:
  assumes "sp_laid_out sp"
  obtains sp' where "Compact sp = (Inr (), sp')" "sp_ok sp'" "contents sp' = filter (\<lambda>c. c \<noteq> None) (contents sp)"
    "sh_FreeSpaceStart (sp_header sp') \<noteq> 0" "sh_FragmentedSpace (sp_header sp') = 0"
    "unat (sh_FreeSpaceEnd (sp_header sp')) + live_len (sp_slots sp) = 4080"
proof -
  obtain sp' where "compact_steps sp = Some sp'" "sp_ok sp'" "contents sp' = filter (\<lambda>c. c \<noteq> None) (contents sp)"
    "sh_FreeSpaceStart (sp_header sp') \<noteq> 0" "sh_FragmentedSpace (sp_header sp') = 0"
    "unat (sh_FreeSpaceEnd (sp_header sp')) + live_len (sp_slots sp) = 4080"
    using compact_steps_ok[OF assms] by blast
  then show thesis using that[of "sp_MarkDirty sp'"] by (simp add: Compact_def)
qed

text \<open>The free space the code computes, once the directory start is set.\<close>

lemma ContiguousFreeSpace_eq:
  assumes "sp_laid_out sp" "sh_FreeSpaceStart (sp_header sp) \<noteq> 0"
  shows "unat (ContiguousFreeSpace sp) + (12 + length (sp_slots sp) * 5) = unat (sh_FreeSpaceEnd (sp_header sp))"
proof -
  have l: "unat (sh_FreeSpaceStart (sp_header sp)) = 12 + length (sp_slots sp) * 5"
    "12 + length (sp_slots sp) * 5 \<le> unat (sh_FreeSpaceEnd (sp_header sp))"
    using assms by (auto simp: sp_laid_out_def layout_ok_def)
  then have "sh_FreeSpaceStart (sp_header sp) \<le> sh_FreeSpaceEnd (sp_header sp)" by (simp add: word_le_nat_alt)
  then show ?thesis using l by (auto simp: ContiguousFreeSpace_def u16_sub)
qed

lemma insert_into_ok:
  assumes ok: "sp_ok sp" and n: "data \<noteq> []" "length data < 65536" and st: "sh_FreeSpaceStart (sp_header sp) \<noteq> 0"
  obtains "insert_into data sp = (Inl SlotNoSpace, sp)"
    "unat (sh_FreeSpaceEnd (sp_header sp)) < 12 + Suc (length (contents sp)) * 5 + length data"
  | sp' where "insert_into data sp = (Inr (of_nat (length (contents sp))), sp')" "sp_ok sp'"
      "contents sp' = contents sp @ [Some data]" "sh_FreeSpaceStart (sp_header sp') \<noteq> 0"
proof (cases "unat (ContiguousFreeSpace sp) < length data + 5")
  case True
  with ContiguousFreeSpace_eq[OF _ st] ok n show thesis
    by (intro that(1)) (simp_all add: insert_into_def Let_def u16_of_nat)
next
  case False
  then have fit: "12 + Suc (length (sp_slots sp)) * 5 + length data \<le> unat (sh_FreeSpaceEnd (sp_header sp))"
    using ContiguousFreeSpace_eq[OF _ st] ok by simp
  obtain sp' where s: "insert_steps data (of_nat (length data)) sp = Some sp'" "sp_ok sp'"
      "contents sp' = contents sp @ [Some data]" "sh_FreeSpaceStart (sp_header sp') \<noteq> 0"
    by (rule insert_steps_ok[OF ok n(1) fit]) auto
  have "of_nat (length (sp_slots sp)) = sh_SlotCount (sp_header sp)" using sp_okD(2)[OF ok] by (simp flip: sp_okD(2)[OF ok])
  with s show thesis using False n by (intro that(2)[of "sp_MarkDirty sp'"]) (simp_all add: insert_into_def Let_def u16_of_nat)
qed

subsection \<open>The page as a list of records\<close>

abbreviation live_records :: "bytes option list \<Rightarrow> bytes option list" where
  "live_records cs \<equiv> filter (\<lambda>c. c \<noteq> None) cs"

lemma InsertSlot_ok:
  assumes ok: "sp_ok sp" and n: "data \<noteq> []" "length data < 65536" and st: "sh_FreeSpaceStart (sp_header sp) \<noteq> 0"
    and base: "base = (if NeedsCompaction sp then live_records (contents sp) else contents sp)"
  shows "\<exists>res sp'. InsertSlot data sp = (res, sp') \<and> sp_ok sp' \<and>
    (res = Inr (of_nat (length base)) \<and> contents sp' = base @ [Some data] \<or>
     res = Inl SlotNoSpace \<and> contents sp' = base \<and>
       unat (sh_FreeSpaceEnd (sp_header sp')) < 12 + Suc (length base) * 5 + length data)"
proof -
  obtain sp1 where s1: "(if NeedsCompaction sp then Compact sp else (Inr (), sp)) = (Inr (), sp1)" "sp_ok sp1"
      "contents sp1 = base" "sh_FreeSpaceStart (sp_header sp1) \<noteq> 0"
  proof (cases "NeedsCompaction sp")
    case True
    then show thesis using Compact_ok[OF sp_laid_out_ok[OF ok]] that base by auto
  next
    case False
    then show thesis using that[of sp] ok st base by auto
  qed
  then have "InsertSlot data sp = insert_into data sp1" using n by (simp add: InsertSlot_def)
  with s1 n show ?thesis by (auto intro: insert_into_ok[OF s1(2) n s1(4)])
qed


lemma live_record:
  assumes ok: "sp_ok sp" and i: "unat i < length (contents sp)" "contents sp ! unat i = Some old"
  shows "unat i < length (sp_slots sp)" "\<not> slot_IsDeleted (sp_slots sp ! unat i)"
    "se_Length (sp_slots sp ! unat i) = of_nat (length old)" "unat (se_Length (sp_slots sp ! unat i)) = length old"
    "find_slot i sp = Inr (sp_slots sp ! unat i)"
proof -
  let ?s = "sp_slots sp ! unat i"
  show iv: "unat i < length (sp_slots sp)" "\<not> slot_IsDeleted ?s"
    using i by (auto simp: contents_def slot_content_def split: if_splits)
  have "old = read_at (unat (se_Offset ?s)) (unat (se_Length ?s)) (sp_Data sp)"
    using i by (auto simp: contents_def slot_content_def split: if_splits)
  then show l: "unat (se_Length ?s) = length old"
    using live_span(1)[OF sp_okD(8)[OF ok iv(1)] iv(2) le_refl] sp_okD(1)[OF ok] by (simp add: length_read_at)
  show "se_Length ?s = of_nat (length old)" by (simp flip: l)
  show "find_slot i sp = Inr ?s" using find_slot_eq[OF ok, of i] i by simp
qed

lemma UpdateSlot_moved_fits:
  assumes ok: "sp_ok sp" and st: "sh_FreeSpaceStart (sp_header sp) \<noteq> 0"
    and i: "unat i < length (contents sp)" "contents sp ! unat i = Some old" and n: "length old < length data" "length data < 65536"
    and c: "\<not> NeedsCompaction (add_fragmented (of_nat (length old)) sp)"
  shows "\<exists>res sp'. UpdateSlot i data sp = (res, sp') \<and>
    (res = Inr () \<and> sp_ok sp' \<and> contents sp' = (contents sp)[unat i := Some data] \<or>
     res = Inl SlotNoSpace \<and> sp' = add_fragmented (of_nat (length old)) sp)"
proof -
  let ?s = "sp_slots sp ! unat i"
  note r = live_record[OF ok i]
  note iv = r(1,2) and sl = r(3) and f = r(5)
  have big: "\<not> of_nat (length data) \<le> se_Length ?s"
    using n by (simp add: sl word_le_nat_alt u16_of_nat)
  show ?thesis
  proof (cases "of_nat (length data) > TotalFreeSpace (add_fragmented (se_Length ?s) sp) \<or>
      of_nat (length data) > ContiguousFreeSpace (add_fragmented (se_Length ?s) sp)")
    case True
    then show ?thesis using f big c by (auto simp: UpdateSlot_def Let_def sl)
  next
    case False
    then have "unat (of_nat (length data) :: u16) \<le> unat (ContiguousFreeSpace (add_fragmented (se_Length ?s) sp))"
      by (simp add: word_le_nat_alt not_less)
    then have "12 + length (sp_slots sp) * 5 + length data \<le> unat (sh_FreeSpaceEnd (sp_header sp))"
      using ContiguousFreeSpace_eq[of "add_fragmented (se_Length ?s) sp"] ok st n(2) by (simp add: u16_of_nat)
    from update_moved_ok[OF ok iv n(2) this, of "se_Length ?s"]
    obtain sp' where "update_moved False i ?s data (of_nat (length data)) (add_fragmented (se_Length ?s) sp) = Some sp'"
        "sp_ok sp'" "contents sp' = (contents sp)[unat i := Some data]" by blast
    then show ?thesis using False f big c by (auto simp: UpdateSlot_def Let_def sl)
  qed
qed

lemma NewSlottedPage_ok:
  obtains sp where "NewSlottedPage (NewPage i PageTypeData) = Inr sp" "sp_ok sp" "contents sp = []"
    "sh_FreeSpaceEnd (sp_header sp) = 4080" "sh_FreeSpaceStart (sp_header sp) = 0" "sh_FragmentedSpace (sp_header sp) = 0"
    "sh_Flags (sp_header sp) = 0" "sh_Reserved (sp_header sp) = 0"
proof -
  define h :: SlottedPageHeader where "h = \<lparr>sh_SlotCount = 0, sh_FreeSpaceStart = 0, sh_FreeSpaceEnd = 4080,
    sh_FragmentedSpace = 0, sh_Flags = 0, sh_Reserved = 0\<rparr>"
  define sp where "sp = set_Data (write_at 0 (header_bytes h) (replicate 4080 0))
    \<lparr>sp_page = NewPage i PageTypeData, sp_header = h, sp_slots = []\<rparr>"
  have "NewSlottedPage (NewPage i PageTypeData) = Inr sp"
    by (simp add: NewSlottedPage_def NewPage_def sp_def h_def serializeHeader_def set_Data_def Let_def)
  moreover have "sp_ok sp"
    using header_write[of "replicate 4080 0" h]
    by (simp add: sp_ok_def sp_def saved_def NewPage_def set_Data_def) (simp add: layout_ok_def h_def)
  moreover have "contents sp = []" by (simp add: contents_def sp_def)
  moreover have "sp_header sp = h" by (simp add: sp_def)
  ultimately show thesis using that[of sp] by (simp add: h_def)
qed

lemma first_record:
  assumes "data \<noteq> []" "length data \<le> 4063"
  obtains sp where "sp_ok sp" "sh_FreeSpaceStart (sp_header sp) \<noteq> 0" "contents sp = [Some data]"
    "sh_FragmentedSpace (sp_header sp) = 0" "unat (sh_FreeSpaceEnd (sp_header sp)) = 4080 - length data"
proof -
  obtain sp where sp: "sp_ok sp" "contents sp = []" "sh_FreeSpaceEnd (sp_header sp) = 4080" "sh_FragmentedSpace (sp_header sp) = 0"
    by (rule NewSlottedPage_ok)
  then have "length (sp_slots sp) = 0" using length_records[of sp] by simp
  then have fit: "12 + Suc (length (sp_slots sp)) * 5 + length data \<le> unat (sh_FreeSpaceEnd (sp_header sp))"
    using sp assms(2) by simp
  show thesis by (rule insert_steps_ok[OF sp(1) assms(1) fit]) (use sp in \<open>auto intro: that\<close>)
qed


subsection \<open>Updates\<close>

lemma UpdateSlot_in_place:
  assumes ok: "sp_ok sp" and i: "unat i < length (contents sp)" "contents sp ! unat i = Some old" and n: "length data \<le> length old"
  shows "\<exists>sp'. UpdateSlot i data sp = (Inr (), sp') \<and> sp_ok sp' \<and> contents sp' = (contents sp)[unat i := Some data]"
proof -
  note r = live_record[OF ok i]
  have n': "length data \<le> unat (se_Length (sp_slots sp ! unat i))" using n r(4) by simp
  have le: "of_nat (length data) \<le> se_Length (sp_slots sp ! unat i)"
    using n' u16_less[of "se_Length (sp_slots sp ! unat i)"] by (simp add: word_le_nat_alt u16_of_nat)
  obtain sp' where "update_in_place i (sp_slots sp ! unat i) data (of_nat (length data)) sp = Some sp'" "sp_ok sp'"
      "contents sp' = (contents sp)[unat i := Some data]"
    by (rule update_in_place_ok[OF ok r(1,2) n']) auto
  then show ?thesis using r(5) le by (auto simp: UpdateSlot_def Let_def)
qed

text \<open>
  C36. Updating a live record either replaces it, in place or in new space, and keeps every
  other record; or reports that there is no space and leaves all records and the page bytes as
  they were, counting the old record as fragmented space all the same. This holds as long as
  the update does not itself trigger a compaction.
\<close>

theorem slotted_update:
  assumes "sp_ok sp" "sh_FreeSpaceStart (sp_header sp) \<noteq> 0"
    and "unat i < length (contents sp)" "contents sp ! unat i = Some old" "length data < 65536"
    and "length data \<le> length old \<or> \<not> NeedsCompaction (add_fragmented (of_nat (length old)) sp)"
  shows "\<exists>res sp'. UpdateSlot i data sp = (res, sp') \<and>
    (res = Inr () \<and> sp_ok sp' \<and> contents sp' = (contents sp)[unat i := Some data] \<or>
     res = Inl SlotNoSpace \<and> length old < length data \<and> sp' = add_fragmented (of_nat (length old)) sp)"
proof (cases "length data \<le> length old")
  case True
  from UpdateSlot_in_place[OF assms(1,3,4) True] show ?thesis by blast
next
  case False
  with UpdateSlot_moved_fits[OF assms(1-4) _ assms(5)] assms(6) show ?thesis by force
qed

theorem slotted_update_witness:
  "\<exists>sp sp'. GetSlot 0 sp = Inr [1, 2, 3] \<and> UpdateSlot 0 [9] sp = (Inr (), sp') \<and> contents sp' = [Some [9]]"
proof -
  obtain sp where "sp_ok sp" "sh_FreeSpaceStart (sp_header sp) \<noteq> 0" and c: "contents sp = [Some [1, 2, 3]]"
    by (rule first_record[of "[1, 2, 3]"]) auto
  with slotted_update[OF this(1,2), of 0 "[1, 2, 3]" "[9]"] GetSlot_eq[of sp 0] show ?thesis by auto
qed

text \<open>After a compaction, the moved record is written, but no slot in memory refers to it.\<close>

lemma update_moved_stale:
  assumes ok: "sp_ok sp" and i: "unat i < length (sp_slots sp)" and n: "length data < 65536"
    and fit: "12 + length (sp_slots sp) * 5 + length data \<le> unat (sh_FreeSpaceEnd (sp_header sp))"
  obtains sp' where "update_moved True i slot data (of_nat (length data)) sp = Some sp'"
    "sp_slots sp' = sp_slots sp" "contents sp' = contents sp" "length (sp_Data sp') = 4080"
    "sh_SlotCount (sp_header sp') = sh_SlotCount (sp_header sp)"
proof -
  let ?e = "sh_FreeSpaceEnd (sp_header sp)"
  define k where "k = (of_nat (length data) :: u16)"
  define off where "off = ?e - k"
  define s where "s = \<lparr>se_Offset = off, se_Length = k, se_Flags = se_Flags slot OR SlotFlagUpdated\<rparr>"
  define h where "h = (sp_header sp)\<lparr>sh_FreeSpaceEnd := off\<rparr>"
  define d where "d = write_at (unat off) data (sp_Data sp)"
  define D where "D = write_at 0 (header_bytes h) (write_at (12 + unat i * 5) (slot_bytes s) d)"
  note w = sp_okD[OF ok]
  have k: "unat k = length data" using n by (simp add: k_def u16_of_nat)
  have o1: "unat off = unat ?e - length data" using fit k by (simp add: off_def u16_sub word_le_nat_alt)
  have ci: "copy_into off (off + k) data (sp_Data sp) = Some d"
    using o1 k w(1,4) fit by (simp add: copy_into_def d_def word_le_nat_alt) (simp add: off_def word_le_nat_alt)
  have ib: "12 + unat i * 5 + 5 \<le> unat ?e" using i w(3) by simp
  have ld: "length d = 4080" using o1 fit w(1,4) by (simp add: d_def)
  have "update_moved True i slot data (of_nat (length data)) sp = do {
      d \<leftarrow> copy_into off (off + k) data (sp_Data sp); save_slot i s (set_Data d (sp\<lparr>sp_header := h\<rparr>)) }"
    by (simp add: update_moved_def Let_def k_def off_def s_def h_def)
  then have "update_moved True i slot data (of_nat (length data)) sp = Some (set_Data D (sp\<lparr>sp_header := h\<rparr>))"
    using ci ld ib w(4) by (simp add: save_slot_def serializeSlot_def serializeHeader_def D_def)
  moreover have "slot_content D t = slot_content (sp_Data sp) t" if "t \<in> set (sp_slots sp)" for t
  proof -
    have ip: "in_page (unat ?e) t" using w(6) that by (simp add: layout_ok_def)
    have "slot_content D t = slot_content d t"
      using slot_content_write[OF _ ip] ld ib w(4) by (simp add: D_def)
    also have "\<dots> = slot_content (sp_Data sp) t"
      using slot_content_write[OF w(1) ip, of "unat off" data] o1 fit w(4) by (simp add: d_def)
    finally show ?thesis .
  qed
  moreover have "length D = 4080" using ld ib w(4) by (simp add: D_def)
  ultimately show thesis using that by (simp add: contents_def h_def)
qed

lemma GetSlot_cong:
  assumes "sp_ok sp" "sp_slots sp' = sp_slots sp" "contents sp' = contents sp" "length (sp_Data sp') = 4080"
    "sh_SlotCount (sp_header sp') = sh_SlotCount (sp_header sp)"
  shows "GetSlot i sp' = GetSlot i sp"
proof (cases "unat i < length (sp_slots sp) \<and> \<not> slot_IsDeleted (sp_slots sp ! unat i)")
  case True
  let ?s = "sp_slots sp ! unat i"
  note span = live_span[OF sp_okD(8)[OF assms(1)] _ le_refl]
  have "slot_content (sp_Data sp') ?s = slot_content (sp_Data sp) ?s"
    using arg_cong[OF assms(3), of "\<lambda>c. c ! unat i"] True by (simp add: contents_def assms(2))
  then have "read_at (unat (se_Offset ?s)) (unat (se_Length ?s)) (sp_Data sp') = read_at (unat (se_Offset ?s)) (unat (se_Length ?s)) (sp_Data sp)"
    using True by (simp add: slot_content_def)
  then have "go_slice (sp_Data sp') (unat (se_Offset ?s)) (unat (se_Offset ?s + se_Length ?s))
      = go_slice (sp_Data sp) (unat (se_Offset ?s)) (unat (se_Offset ?s + se_Length ?s))"
    using span True assms(4) sp_okD(1)[OF assms(1)] by (simp add: go_slice_read)
  moreover have "find_slot i sp' = find_slot i sp" by (simp add: find_slot_def assms)
  moreover have "find_slot i sp = Inr ?s \<or> (\<exists>e. find_slot i sp = Inl e)" using True by (auto simp: find_slot_def)
  ultimately show ?thesis by (auto simp: GetSlot_def)
next
  case False
  then have "\<exists>e. find_slot i sp = Inl e" by (auto simp: find_slot_def)
  then show ?thesis by (auto simp: GetSlot_def find_slot_def assms)
qed


lemma live_len_contents:
  assumes "sp_ok sp"
  shows "live_len (sp_slots sp) = sum_list (map (\<lambda>c. case c of None \<Rightarrow> 0 | Some d \<Rightarrow> length d) (contents sp))"
proof -
  have "slot_len s = (case slot_content (sp_Data sp) s of None \<Rightarrow> 0 | Some d \<Rightarrow> length d)" if "s \<in> set (sp_slots sp)" for s
    using that sp_okD(1)[OF assms] sp_okD(6)[OF assms]
    by (auto simp: slot_len_def slot_content_def layout_ok_def in_page_def length_read_at)
  then show ?thesis by (simp add: live_len_def contents_def o_def cong: map_cong)
qed


subsection \<open>The first record of a new page\<close>

lemma header_zeros:
  assumes "sh_FragmentedSpace h = 0" "sh_Flags h = 0" "sh_Reserved h = 0" "6 \<le> a" "a < 12"
  shows "header_bytes h ! a = 0"
proof -
  have "drop 6 (header_bytes h) = replicate 6 0" using assms(1-3) by (simp add: header_bytes_def numeral_eq_Suc)
  then have "drop 6 (header_bytes h) ! (a - 6) = 0" using assms(4,5) by simp
  then show ?thesis using assms(4,5) by simp
qed

text \<open>
  C38. A new page has its directory start at offset 0, so the space check of the first insertion
  ignores the 12 bytes of the header. A first record of 4069 to 4074 bytes is accepted, laid
  over the header, and then overwritten by it: what is read back differs from what was stored
  whenever the first byte is not zero.
\<close>

theorem first_insert_overlaps_header:
  assumes n: "4069 \<le> length data" "length data \<le> 4074" and h0: "hd data \<noteq> 0"
    and new: "NewSlottedPage (NewPage pid PageTypeData) = Inr sp"
  shows "\<exists>sp'. InsertSlot data sp = (Inr 0, sp') \<and> GetSlot 0 sp' \<noteq> Inr data"
proof -
  have sp: "sp_ok sp" "contents sp = []" and e: "sh_FreeSpaceEnd (sp_header sp) = 4080" and st: "sh_FreeSpaceStart (sp_header sp) = 0"
      and z: "sh_FragmentedSpace (sp_header sp) = 0" "sh_Flags (sp_header sp) = 0" "sh_Reserved (sp_header sp) = 0"
    by (rule NewSlottedPage_ok[of pid]; use new in simp)+
  have ss: "sp_slots sp = []" using sp(2) by (simp add: contents_def)
  have cnt: "sh_SlotCount (sp_header sp) = 0" using sp_okD(2)[OF sp(1)] ss by (simp add: word_unat_eq_iff)
  have d0: "length (sp_Data sp) = 4080" using sp_okD(1)[OF sp(1)] .
  define k where "k = (of_nat (length data) :: u16)"
  define off where "off = 4080 - k"
  define slot where "slot = \<lparr>se_Offset = off, se_Length = k, se_Flags = 0\<rparr>"
  define h where "h = (sp_header sp)\<lparr>sh_SlotCount := 1, sh_FreeSpaceStart := 17, sh_FreeSpaceEnd := off\<rparr>"
  define D where "D = write_at 0 (header_bytes h) (write_at 12 (slot_bytes slot) (write_at (unat off) data (sp_Data sp)))"
  have k: "unat k = length data" using n by (simp add: k_def u16_of_nat)
  have o1: "unat off = 4080 - length data" using n k by (simp add: off_def u16_sub word_le_nat_alt)
  have o2: "off + k = 4080" by (simp add: off_def)
  have D: "length D = 4080" using d0 o1 n by (simp add: D_def)
  have ci: "copy_into off (off + k) data (sp_Data sp) = Some (write_at (unat off) data (sp_Data sp))"
    using o1 o2 k d0 n by (simp add: copy_into_def word_le_nat_alt)
  have "insert_steps data (of_nat (length data)) sp = do {
      d \<leftarrow> copy_into off (off + k) data (sp_Data sp);
      sp1 \<leftarrow> serializeSlot 0 slot (set_Data d (sp\<lparr>sp_header := h, sp_slots := [slot]\<rparr>));
      serializeHeader sp1 }"
    by (simp add: insert_steps_def Let_def e cnt ss k_def off_def slot_def h_def)
  then have ins: "insert_steps data (of_nat (length data)) sp = Some (set_Data D (sp\<lparr>sp_header := h, sp_slots := [slot]\<rparr>))"
    using ci d0 o1 n by (simp add: serializeSlot_def serializeHeader_def D_def)
  let ?sp = "sp_MarkDirty (set_Data D (sp\<lparr>sp_header := h, sp_slots := [slot]\<rparr>))"
  have "InsertSlot data sp = (Inr 0, ?sp)"
    using n ins z(1) by (auto simp: InsertSlot_def NeedsCompaction_def insert_into_def Let_def ContiguousFreeSpace_def st e cnt u16_of_nat)
  moreover have "GetSlot 0 ?sp = Inr (read_at (unat off) (length data) D)"
    using o1 o2 D n k by (simp add: GetSlot_def find_slot_def h_def slot_def go_slice_read go_copy_def length_read_at)
  moreover have "read_at (unat off) (length data) D ! 0 = 0"
  proof -
    have "read_at (unat off) (length data) D ! 0 = D ! unat off" using o1 D n by (simp add: read_at_def)
    also have "\<dots> = header_bytes h ! unat off"
    proof -
      have "unat off < 12" using o1 n by linarith
      then show ?thesis using o1 n d0 unfolding D_def by (subst write_at_nth) simp_all
    qed
    also have "\<dots> = 0" by (rule header_zeros) (use o1 n z in \<open>simp_all add: h_def\<close>)
    finally show ?thesis .
  qed
  then have "read_at (unat off) (length data) D \<noteq> data" using h0 n by (cases data) auto
  ultimately show ?thesis by auto
qed

theorem first_insert_overlaps_header_witness:
  "\<exists>sp sp'. NewSlottedPage (NewPage 3 PageTypeData) = Inr sp \<and> InsertSlot (replicate 4070 1) sp = (Inr 0, sp') \<and>
     GetSlot 0 sp' \<noteq> Inr (replicate 4070 1)"
proof -
  obtain sp where "NewSlottedPage (NewPage 3 PageTypeData) = Inr sp" by (rule NewSlottedPage_ok[of 3])
  with first_insert_overlaps_header[OF _ _ _ this, of "replicate 4070 1"] show ?thesis by auto
qed

end
