(* ===== verification/Compaction.thy ===== *)
theory Compaction
  imports DiskManager SlottedPage
begin

text \<open>
  Page compaction of \<^verbatim>\<open>pkg/storage/disk_manager.go\<close>: reading a data page as a slotted page,
  compacting it when enough of it is fragmented and writing it back, for one page, a list of
  pages, the whole file or a range of ids. The range loop increments a 32-bit page id and may
  not end, so it is a partial function whose value \<open>None\<close> is a loop that never returns. A
  panic inside compaction is the error \<open>CompactSlot SlotPanic\<close>.
\<close>

record CompactionStats =
  PagesScanned :: int
  PagesCompacted :: int
  BytesReclaimed :: int
  cs_Errors :: int
  LastCompactionTime :: int

definition no_stats :: CompactionStats where
  "no_stats = \<lparr>PagesScanned = 0, PagesCompacted = 0, BytesReclaimed = 0, cs_Errors = 0, LastCompactionTime = 0\<rparr>"

datatype compact_error = CompactDisk disk_error | CompactNonData byte | CompactSlot slot_error

definition CompactPage :: "u32 \<Rightarrow> DiskManager \<Rightarrow> (compact_error + unit) \<times> DiskManager" where
  "CompactPage pageID dm =
     (case readPageInternal dm pageID of
        Inl e \<Rightarrow> (Inl (CompactDisk e), dm)
      | Inr (page, dm1) \<Rightarrow>
         if pg_Type page \<noteq> PageTypeData then (Inl (CompactNonData (pg_Type page)), dm1)
         else case LoadSlottedPage page of
           Inl e \<Rightarrow> (Inl (CompactSlot e), dm1)
         | Inr sp \<Rightarrow>
            if \<not> NeedsCompaction sp then (Inr (), dm1)
            else case Compact sp of
              (Inl e, _) \<Rightarrow> (Inl (CompactSlot e), dm1)
            | (Inr _, sp') \<Rightarrow> (Inr (), writePageInternal dm1 (sp_page sp')))"

fun CompactPages_loop :: "u32 list \<Rightarrow> CompactionStats \<Rightarrow> DiskManager \<Rightarrow> CompactionStats \<times> DiskManager" where
  "CompactPages_loop [] stats dm = (stats, dm)"
| "CompactPages_loop (pageID # pageIDs) stats dm =
     (let stats1 = stats\<lparr>PagesScanned := PagesScanned stats + 1\<rparr>
      in case CompactPage pageID dm of
           (Inl _, dm1) \<Rightarrow> CompactPages_loop pageIDs (stats1\<lparr>cs_Errors := cs_Errors stats1 + 1\<rparr>) dm1
         | (Inr _, dm1) \<Rightarrow> CompactPages_loop pageIDs (stats1\<lparr>PagesCompacted := PagesCompacted stats1 + 1\<rparr>) dm1)"

definition CompactPages :: "u32 list \<Rightarrow> DiskManager \<Rightarrow> CompactionStats \<times> DiskManager" where
  "CompactPages pageIDs dm = CompactPages_loop pageIDs no_stats dm"

text \<open>One turn of the scan over pages, the same in \<^verbatim>\<open>ScanForCompaction\<close> and \<^verbatim>\<open>CompactPageRange\<close>.\<close>

definition scan_page :: "u32 \<Rightarrow> CompactionStats \<times> DiskManager \<Rightarrow> CompactionStats \<times> DiskManager" where
  "scan_page pageID = (\<lambda>(stats0, dm).
     let stats = stats0\<lparr>PagesScanned := PagesScanned stats0 + 1\<rparr>;
         failed = stats\<lparr>cs_Errors := cs_Errors stats + 1\<rparr>
     in case readPageInternal dm pageID of
          Inl _ \<Rightarrow> (failed, dm)
        | Inr (page, dm1) \<Rightarrow>
           if pg_Type page \<noteq> PageTypeData then (stats, dm1)
           else case LoadSlottedPage page of
             Inl _ \<Rightarrow> (failed, dm1)
           | Inr sp \<Rightarrow>
              if \<not> NeedsCompaction sp then (stats, dm1)
              else case Compact sp of
                (Inl _, _) \<Rightarrow> (failed, dm1)
              | (Inr _, sp') \<Rightarrow>
                 (stats\<lparr>PagesCompacted := PagesCompacted stats + 1,
                        BytesReclaimed := BytesReclaimed stats + int (unat (sp_FragmentedSpace sp))\<rparr>,
                  writePageInternal dm1 (sp_page sp')))"

definition ScanForCompaction :: "DiskManager \<Rightarrow> CompactionStats \<times> DiskManager" where
  "ScanForCompaction dm =
     fold scan_page (map of_nat [0..<unat (dm_nextPageID dm)]) (no_stats, dm)"

partial_function (option) range_loop ::
  "u32 \<Rightarrow> u32 \<Rightarrow> CompactionStats \<times> DiskManager \<Rightarrow> (CompactionStats \<times> DiskManager) option" where
  "range_loop pageID endPageID s =
     (if pageID \<le> endPageID then range_loop (pageID + 1) endPageID (scan_page pageID s) else Some s)"

text \<open>\<open>None\<close> of the outer option: the call does not return; of the inner one: the range is refused.\<close>

definition CompactPageRange :: "u32 \<Rightarrow> u32 \<Rightarrow> DiskManager \<Rightarrow> (CompactionStats \<times> DiskManager) option option" where
  "CompactPageRange startPageID endPageID dm =
     (if startPageID > endPageID then Some None
      else let totalPages = dm_nextPageID dm;
               end' = (if endPageID \<ge> totalPages then totalPages - 1 else endPageID)
           in map_option Some (range_loop startPageID end' (no_stats, dm)))"

subsection \<open>Compaction keeps the live records of every page\<close>

lemma serializeSlots_ID: "serializeSlots i ss sp = Some sp' \<Longrightarrow> pg_ID (sp_page sp') = pg_ID (sp_page sp)"
proof (induction ss arbitrary: i sp)
  case (Cons s ss)
  then obtain sp1 where "serializeSlot (of_nat i) s sp = Some sp1" "serializeSlots (Suc i) ss sp1 = Some sp'"
    by (auto simp: bind_eq_Some_conv)
  then show ?case using Cons.IH[of "Suc i" sp1] by (auto simp: serializeSlot_def Let_def set_Data_def split: if_splits)
qed simp

lemma serializeHeader_ID: "serializeHeader sp = Some sp' \<Longrightarrow> pg_ID (sp_page sp') = pg_ID (sp_page sp)"
  by (auto simp: serializeHeader_def set_Data_def split: if_splits)

lemma Compact_ID: "Compact sp = (r, sp') \<Longrightarrow> pg_ID (sp_page sp') = pg_ID (sp_page sp)"
  by (auto simp: Compact_def compact_steps_def Let_def bind_eq_Some_conv sp_MarkDirty_def MarkDirty_def set_Data_def
      split: option.splits if_splits dest!: serializeSlots_ID serializeHeader_ID)

text \<open>
  The pages compaction may meet: pages of another type, and data pages that load as a slotted
  page, which is well formed and stored under its own id if compaction is due.
\<close>

definition page_sound :: "bytes \<Rightarrow> u32 \<Rightarrow> bool" where
  "page_sound f q \<longleftrightarrow> pg_Type (file_page f q) \<noteq> PageTypeData \<or>
     (\<exists>sp. LoadSlottedPage (file_page f q) = Inr sp \<and>
        (NeedsCompaction sp \<longrightarrow> sp_ok sp \<and> pg_ID (file_page f q) = q))"

definition page_records :: "bytes \<Rightarrow> u32 \<Rightarrow> bytes option list" where
  "page_records f q = (case LoadSlottedPage (file_page f q) of Inl _ \<Rightarrow> [] | Inr sp \<Rightarrow> live_records (contents sp))"

definition keeps_records :: "bytes \<Rightarrow> bytes \<Rightarrow> bool" where
  "keeps_records f f' \<longleftrightarrow> length f' = length f \<and> (\<forall>q. page_sound f q \<longrightarrow>
     page_sound f' q \<and> pg_Type (file_page f' q) = pg_Type (file_page f q) \<and> page_records f' q = page_records f q)"

lemma keeps_records_refl [simp]: "keeps_records f f"
  by (simp add: keeps_records_def)

lemma keeps_records_trans: "keeps_records f g \<Longrightarrow> keeps_records g h \<Longrightarrow> keeps_records f h"
  by (auto simp: keeps_records_def)

lemma LoadSlottedPage_page: "LoadSlottedPage p = Inr sp \<Longrightarrow> sp_page sp = p"
  by (auto simp: LoadSlottedPage_def split: if_splits sum.splits)

text \<open>Only the page itself matters to its slotted view, not its dirty flag or pin count.\<close>

lemma LoadSlottedPage_clean:
  "LoadSlottedPage (clean p) = (case LoadSlottedPage p of Inl e \<Rightarrow> Inl e | Inr sp \<Rightarrow> Inr (sp\<lparr>sp_page := clean p\<rparr>))"
  by (simp add: LoadSlottedPage_def deserializeHeader_def deserializeSlots_def clean_def split: sum.splits)

lemma contents_clean: "contents (sp\<lparr>sp_page := clean (sp_page sp)\<rparr>) = contents sp"
  by (simp add: contents_def clean_def)

lemma write_compacted:
  assumes on: "on_disk (dm_dataFile dm) q" and id: "pg_ID (file_page (dm_dataFile dm) q) = q"
    and ld: "LoadSlottedPage (file_page (dm_dataFile dm) q) = Inr sp" and ok: "sp_ok sp"
  obtains sp' where "Compact sp = (Inr (), sp')"
    "keeps_records (dm_dataFile dm) (dm_dataFile (writePageInternal dm (sp_page sp')))"
proof -
  let ?f = "dm_dataFile dm"
  obtain sp' where c: "Compact sp = (Inr (), sp')" "sp_ok sp'" "contents sp' = live_records (contents sp)"
      "sh_FragmentedSpace (sp_header sp') = 0"
    by (rule Compact_ok[OF sp_laid_out_ok[OF ok]]) auto
  let ?p = "sp_page sp'" and ?f' = "dm_dataFile (writePageInternal dm (sp_page sp'))"
  have pid: "pg_ID ?p = q" using Compact_ID[OF c(1)] LoadSlottedPage_page[OF ld] id by simp
  have pok: "page_ok ?p" using sp_okD(1)[OF c(2)] by (simp add: page_ok_def)
  have w: "file_page ?f' q = clean ?p" "on_disk ?f' q" using file_page_written[OF pok, of dm] pid by simp_all
  have ld': "LoadSlottedPage (file_page ?f' q) = Inr (sp'\<lparr>sp_page := clean ?p\<rparr>)"
    using w load_saved[OF c(2)] by (simp add: LoadSlottedPage_clean)
  have nc: "\<not> NeedsCompaction (sp'\<lparr>sp_page := clean ?p\<rparr>)" using c(4) by (simp add: NeedsCompaction_def)
  have ty: "pg_Type (file_page ?f q) = 0" "pg_Type (clean ?p) = 0"
    using sp_okD(7)[OF ok] sp_okD(7)[OF c(2)] LoadSlottedPage_page[OF ld] by (simp_all add: clean_def)
  have len: "length ?f' = length ?f" using on pid by (simp add: writePageInternal_def length_file_WriteAt on_disk_def)
  have "page_sound ?f' r \<and> pg_Type (file_page ?f' r) = pg_Type (file_page ?f r) \<and> page_records ?f' r = page_records ?f r"
    if r: "page_sound ?f r" for r
  proof (cases "r = q")
    case True
    with w ty ld' nc c(3) ld show ?thesis by (auto simp: page_sound_def page_records_def contents_clean)
  next
    case False
    then have "file_page ?f' r = file_page ?f r"
      using file_page_kept[of dm r ?p] pid len by (cases "on_disk ?f r") (simp_all add: file_page_def on_disk_def)
    with r show ?thesis by (simp add: page_sound_def page_records_def)
  qed
  then show thesis using that c(1) len by (simp add: keeps_records_def)
qed

lemma new_page_no_compaction:
  assumes "\<not> on_disk f q" "LoadSlottedPage (file_page f q) = Inr sp" shows "\<not> NeedsCompaction sp"
proof -
  have "deserializeHeader (file_page f q) = Inr \<lparr>sh_SlotCount = 0, sh_FreeSpaceStart = 0, sh_FreeSpaceEnd = 0,
      sh_FragmentedSpace = 0, sh_Flags = 0, sh_Reserved = 0\<rparr>"
    using assms(1) by (simp add: file_page_def NewPage_def deserializeHeader_def read_at_def)
  then show ?thesis using assms(2) by (auto simp: LoadSlottedPage_def NeedsCompaction_def split: if_splits sum.splits)
qed

text \<open>What every compaction of a page does: read it, and write it back compacted when that is due.\<close>

lemma sound_pageE:
  assumes "page_sound (dm_dataFile dm) q" and rd: "readPageInternal dm q = Inr (page, dm1)"
  obtains "pg_Type page \<noteq> PageTypeData" | sp where "LoadSlottedPage page = Inr sp" "\<not> NeedsCompaction sp"
  | sp sp' where "LoadSlottedPage page = Inr sp" "NeedsCompaction sp" "Compact sp = (Inr (), sp')"
      "keeps_records (dm_dataFile dm1) (dm_dataFile (writePageInternal dm1 (sp_page sp')))"
proof -
  have page: "page = file_page (dm_dataFile dm) q" and f: "dm_dataFile dm1 = dm_dataFile dm"
    using rd by (auto simp: readPageInternal_eq)
  from assms(1) consider "pg_Type page \<noteq> PageTypeData" | sp where "LoadSlottedPage page = Inr sp" "\<not> NeedsCompaction sp"
    | sp where "LoadSlottedPage page = Inr sp" "NeedsCompaction sp" "sp_ok sp" "pg_ID page = q"
    unfolding page_sound_def page[symmetric] by blast
  then show thesis
  proof cases
    case (3 sp)
    have on: "on_disk (dm_dataFile dm1) q"
      using new_page_no_compaction[of "dm_dataFile dm" q sp] 3 f by (auto simp: page)
    obtain sp' where "Compact sp = (Inr (), sp')"
        "keeps_records (dm_dataFile dm1) (dm_dataFile (writePageInternal dm1 (sp_page sp')))"
      by (rule write_compacted[OF on, of sp]) (use 3 f in \<open>auto simp: page\<close>)
    with 3 that(3) show thesis by blast
  qed (use that in auto)
qed

lemma CompactPage_keeps:
  assumes "page_sound (dm_dataFile dm) q"
  shows "keeps_records (dm_dataFile dm) (dm_dataFile (snd (CompactPage q dm)))"
    and "(\<exists>t. fst (CompactPage q dm) = Inl (CompactNonData t)) \<or> fst (CompactPage q dm) = Inr ()"
proof -
  obtain page dm1 where rd: "readPageInternal dm q = Inr (page, dm1)" by (simp add: readPageInternal_eq)
  then have f: "dm_dataFile dm1 = dm_dataFile dm" by (auto simp: readPageInternal_eq)
  have "keeps_records (dm_dataFile dm) (dm_dataFile (snd (CompactPage q dm))) \<and>
    ((\<exists>t. fst (CompactPage q dm) = Inl (CompactNonData t)) \<or> fst (CompactPage q dm) = Inr ())"
    using assms rd by (rule sound_pageE) (use rd f in \<open>auto simp: CompactPage_def split: sum.splits\<close>)
  then show "keeps_records (dm_dataFile dm) (dm_dataFile (snd (CompactPage q dm)))"
    "(\<exists>t. fst (CompactPage q dm) = Inl (CompactNonData t)) \<or> fst (CompactPage q dm) = Inr ()" by auto
qed

lemma scan_page_keeps:
  assumes "page_sound (dm_dataFile dm) q"
  shows "keeps_records (dm_dataFile dm) (dm_dataFile (snd (scan_page q (st, dm)))) \<and>
    cs_Errors (fst (scan_page q (st, dm))) = cs_Errors st \<and>
    PagesScanned (fst (scan_page q (st, dm))) = PagesScanned st + 1"
proof -
  obtain page dm1 where rd: "readPageInternal dm q = Inr (page, dm1)" by (simp add: readPageInternal_eq)
  then have f: "dm_dataFile dm1 = dm_dataFile dm" by (auto simp: readPageInternal_eq)
  from assms rd show ?thesis
    by (rule sound_pageE) (use rd f in \<open>auto simp: scan_page_def Let_def split: sum.splits\<close>)
qed

lemma scan_fold_keeps:
  assumes "\<forall>q \<in> set qs. page_sound (dm_dataFile dm) q"
  shows "keeps_records (dm_dataFile dm) (dm_dataFile (snd (fold scan_page qs (st, dm)))) \<and>
    cs_Errors (fst (fold scan_page qs (st, dm))) = cs_Errors st \<and>
    PagesScanned (fst (fold scan_page qs (st, dm))) = PagesScanned st + int (length qs)"
  using assms
proof (induction qs arbitrary: st dm)
  case (Cons q qs)
  obtain st1 dm1 where s: "scan_page q (st, dm) = (st1, dm1)" by fastforce
  have k: "keeps_records (dm_dataFile dm) (dm_dataFile dm1)" "cs_Errors st1 = cs_Errors st" "PagesScanned st1 = PagesScanned st + 1"
    using scan_page_keeps[of dm q st] Cons.prems s by auto
  then have "\<forall>q \<in> set qs. page_sound (dm_dataFile dm1) q" using Cons.prems by (auto simp: keeps_records_def)
  from Cons.IH[OF this, of st1] k s show ?case by (auto intro: keeps_records_trans)
qed simp

text \<open>
  C19. Scanning a sound data file for compaction loses nothing: every page keeps its type and its
  live records in their order, pages stay sound, the file keeps its size, no page counts as an
  error and every allocated page is scanned once. Compacting a single sound page keeps the
  records as well and refuses only pages that are not data pages.
\<close>

theorem compaction_keeps_records:
  assumes "\<forall>q < dm_nextPageID dm. page_sound (dm_dataFile dm) q"
  shows "keeps_records (dm_dataFile dm) (dm_dataFile (snd (ScanForCompaction dm))) \<and>
    cs_Errors (fst (ScanForCompaction dm)) = 0 \<and>
    PagesScanned (fst (ScanForCompaction dm)) = int (unat (dm_nextPageID dm)) \<and>
    (\<forall>q < dm_nextPageID dm. keeps_records (dm_dataFile dm) (dm_dataFile (snd (CompactPage q dm))) \<and>
       ((\<exists>t. fst (CompactPage q dm) = Inl (CompactNonData t)) \<or> fst (CompactPage q dm) = Inr ()))"
proof -
  have "unat (of_nat n :: u32) = n" if "n < unat (dm_nextPageID dm)" for n
    using that unsigned_less[of "dm_nextPageID dm", where 'a = nat] by (intro unat_of_nat_small(2)) simp
  then have "\<forall>q \<in> set (map of_nat [0..<unat (dm_nextPageID dm)]). page_sound (dm_dataFile dm) q"
    using assms by (auto simp: word_less_nat_alt)
  from scan_fold_keeps[OF this, of no_stats] CompactPage_keeps assms show ?thesis
    by (auto simp: ScanForCompaction_def no_stats_def)
qed

definition one_page_disk :: DiskManager where
  "one_page_disk = writePageInternal (snd (fresh_page (NewDiskManager []))) (NewPage 0 PageTypeData)"

lemma one_page_sound: "page_sound (dm_dataFile one_page_disk) 0"
proof -
  have "file_page (dm_dataFile one_page_disk) 0 = NewPage 0 PageTypeData"
    using file_page_written(1)[OF page_ok_NewPage, of "snd (fresh_page (NewDiskManager []))" 0 PageTypeData]
    by (simp add: one_page_disk_def) (simp add: clean_def NewPage_def)
  then show ?thesis
    by (auto simp: page_sound_def LoadSlottedPage_def deserializeHeader_def NewPage_def read_at_def deserializeSlots_def NeedsCompaction_def)
qed

theorem compaction_keeps_records_witness:
  "keeps_records (dm_dataFile one_page_disk) (dm_dataFile (snd (ScanForCompaction one_page_disk))) \<and>
   PagesScanned (fst (ScanForCompaction one_page_disk)) = 1"
proof -
  have n: "dm_nextPageID one_page_disk = 1" by (simp add: one_page_disk_def fresh_page_def NewDiskManager_def)
  have "\<forall>q < dm_nextPageID one_page_disk. page_sound (dm_dataFile one_page_disk) q"
    using one_page_sound n by (simp add: word_less_nat_alt) (metis One_nat_def less_one unsigned_0 word_unat_eq_iff)
  from compaction_keeps_records[OF this] n show ?thesis by simp
qed

subsection \<open>The range loop\<close>

lemma range_loop_returns:
  assumes "unat e + 1 < 2 ^ 32"
  shows "range_loop q e s = Some (fold scan_page (map of_nat [unat q..<unat e + 1]) s)"
proof (induction "unat e + 1 - unat q" arbitrary: q s)
  case 0
  then have "\<not> q \<le> e" by (simp add: word_le_nat_alt)
  with 0 show ?case by (subst range_loop.simps) simp
next
  case (Suc n)
  then have le: "unat q \<le> unat e" by simp
  have q1: "unat (q + 1) = unat q + 1" using le assms by (simp add: unat_word_ariths)
  have "n = unat e + 1 - unat (q + 1)" using Suc.hyps(2) q1 by simp
  from Suc.hyps(1)[OF this] have "range_loop q e s = Some (fold scan_page (map of_nat [unat (q + 1)..<unat e + 1]) (scan_page q s))"
    using le by (subst range_loop.simps) (simp add: word_le_nat_alt)
  moreover have "[unat q..<unat e + 1] = unat q # [unat (q + 1)..<unat e + 1]"
    using le q1 by (simp add: upt_conv_Cons)
  ultimately show ?case by simp
qed

lemma range_loop_diverges: "range_loop q (- 1) s = None"
proof (rule ccontr)
  assume "range_loop q (- 1) s \<noteq> None"
  then obtain y where y: "range_loop q (- 1) s = Some y" by auto
  have "(- 1 :: u32) \<noteq> - 1"
  proof (rule range_loop.raw_induct[where P = "\<lambda>q e s y. e \<noteq> - 1", OF _ y])
    fix f q e s y
    assume IH: "\<And>q e s y. f q e s = Some y \<Longrightarrow> e \<noteq> (- 1 :: u32)"
      and step: "(if q \<le> e then f (q + 1) e (scan_page q s) else Some s) = Some y"
    show "e \<noteq> - 1"
    proof
      assume e: "e = - 1"
      then have "q \<le> e" by simp
      with step have "f (q + 1) e (scan_page q s) = Some y" by simp
      from IH[OF this] e show False by simp
    qed
  qed
  then show False by simp
qed



end
