(* ===== verification/BufferPool.thy ===== *)
theory BufferPool
  imports DiskManager
begin

text \<open>
  \<^verbatim>\<open>pkg/storage/buffer_pool.go\<close>: a pool of page frames over the disk manager, with LRU eviction
  of unpinned pages. A frame is found by its page id; the LRU list holds page ids, most recent
  first. The pool's lock makes an operation one step: \<^verbatim>\<open>FetchPage\<close> checks the map once under the
  read lock and again under the write lock, and all its hits do the same. The page
  pointer handed to a caller is the page in the frame; \<open>client_write\<close> is a caller changing a
  pinned page through it and marking it dirty.
\<close>

subsection \<open>The pool\<close>

record BufferPool =
  bp_capacity :: int
  bp_pages :: "(u32 \<times> Page) list"
  bp_lruList :: "u32 list"
  bp_diskMgr :: DiskManager
  bp_evictions :: int
  bp_hits :: int
  bp_misses :: int

datatype pool_error = PoolAllPinned | PoolNotCached u32 | PoolPinned u32 | PoolDisk disk_error | PoolPanic

definition NewBufferPool :: "int \<Rightarrow> DiskManager \<Rightarrow> BufferPool" where
  "NewBufferPool capacity diskMgr =
     \<lparr>bp_capacity = capacity, bp_pages = [], bp_lruList = [], bp_diskMgr = diskMgr,
      bp_evictions = 0, bp_hits = 0, bp_misses = 0\<rparr>"

text \<open>The first unpinned page from the back of the LRU list; a listed page without a frame is a nil dereference.\<close>

fun find_victim :: "(u32 \<times> Page) list \<Rightarrow> u32 list \<Rightarrow> pool_error + u32 \<times> Page" where
  "find_victim pages [] = Inl PoolAllPinned"
| "find_victim pages (q # qs) =
     (case map_of pages q of
        None \<Rightarrow> Inl PoolPanic
      | Some p \<Rightarrow> if \<not> IsPinned p then Inr (q, p) else find_victim pages qs)"

definition evictPage :: "BufferPool \<Rightarrow> pool_error + BufferPool" where
  "evictPage bp =
     (case find_victim (bp_pages bp) (rev (bp_lruList bp)) of
        Inl e \<Rightarrow> Inl e
      | Inr (q, p) \<Rightarrow>
         Inr (bp\<lparr>bp_diskMgr := (if pg_IsDirty p then WritePage (bp_diskMgr bp) p else bp_diskMgr bp),
                 bp_lruList := remove1 q (bp_lruList bp),
                 bp_pages := AList.delete q (bp_pages bp),
                 bp_evictions := bp_evictions bp + 1\<rparr>))"

definition make_room :: "BufferPool \<Rightarrow> pool_error + BufferPool" where
  "make_room bp = (if int (length (bp_pages bp)) \<ge> bp_capacity bp then evictPage bp else Inr bp)"

definition add_frame :: "u32 \<Rightarrow> Page \<Rightarrow> BufferPool \<Rightarrow> BufferPool" where
  "add_frame q p bp = bp\<lparr>bp_pages := AList.update q (Pin p) (bp_pages bp), bp_lruList := q # bp_lruList bp\<rparr>"

definition FetchPage :: "u32 \<Rightarrow> BufferPool \<Rightarrow> (pool_error + Page) \<times> BufferPool" where
  "FetchPage pageID bp =
     (case map_of (bp_pages bp) pageID of
        Some p \<Rightarrow>
          (Inr (Pin p), bp\<lparr>bp_lruList := pageID # remove1 pageID (bp_lruList bp),
                           bp_pages := AList.update pageID (Pin p) (bp_pages bp), bp_hits := bp_hits bp + 1\<rparr>)
      | None \<Rightarrow>
         let bp1 = bp\<lparr>bp_misses := bp_misses bp + 1\<rparr>
         in case make_room bp1 of
              Inl e \<Rightarrow> (Inl e, bp1)
            | Inr bp2 \<Rightarrow>
               (case ReadPage (bp_diskMgr bp2) pageID of
                  Inl e \<Rightarrow> (Inl (PoolDisk e), bp2)
                | Inr (page, dm) \<Rightarrow> (Inr (Pin page), add_frame pageID page (bp2\<lparr>bp_diskMgr := dm\<rparr>))))"

definition pool_NewPage :: "BufferPool \<Rightarrow> (pool_error + Page) \<times> BufferPool" where
  "pool_NewPage bp =
     (case make_room bp of
        Inl e \<Rightarrow> (Inl e, bp)
      | Inr bp1 \<Rightarrow>
         (case AllocatePage (bp_diskMgr bp1) of
            Inl e \<Rightarrow> (Inl (PoolDisk e), bp1)
          | Inr (pageID, dm) \<Rightarrow>
             let page = MarkDirty (NewPage pageID PageTypeData)
             in (Inr (Pin page), add_frame pageID page (bp1\<lparr>bp_diskMgr := dm\<rparr>))))"

definition set_frame :: "u32 \<Rightarrow> Page \<Rightarrow> BufferPool \<Rightarrow> BufferPool" where
  "set_frame q p bp = bp\<lparr>bp_pages := AList.update q p (bp_pages bp)\<rparr>"

definition UnpinPage :: "u32 \<Rightarrow> bool \<Rightarrow> BufferPool \<Rightarrow> (pool_error + unit) \<times> BufferPool" where
  "UnpinPage pageID isDirty bp =
     (case map_of (bp_pages bp) pageID of
        None \<Rightarrow> (Inl (PoolNotCached pageID), bp)
      | Some p \<Rightarrow> (Inr (), set_frame pageID (if isDirty then MarkDirty (Unpin p) else Unpin p) bp))"

definition flush_frame :: "u32 \<Rightarrow> Page \<Rightarrow> BufferPool \<Rightarrow> BufferPool" where
  "flush_frame q p bp =
     (if pg_IsDirty p then set_frame q (p\<lparr>pg_IsDirty := False\<rparr>) (bp\<lparr>bp_diskMgr := WritePage (bp_diskMgr bp) p\<rparr>) else bp)"

definition FlushPage :: "u32 \<Rightarrow> BufferPool \<Rightarrow> (pool_error + unit) \<times> BufferPool" where
  "FlushPage pageID bp =
     (case map_of (bp_pages bp) pageID of
        None \<Rightarrow> (Inl (PoolNotCached pageID), bp)
      | Some p \<Rightarrow> (Inr (), flush_frame pageID p bp))"

definition FlushAllPages :: "BufferPool \<Rightarrow> BufferPool" where
  "FlushAllPages bp = fold (\<lambda>(q, p) bp. flush_frame q p bp) (bp_pages bp) bp"

definition DeletePage :: "u32 \<Rightarrow> BufferPool \<Rightarrow> (pool_error + unit) \<times> BufferPool" where
  "DeletePage pageID bp =
     (let free = (\<lambda>bp. case DeallocatePage (bp_diskMgr bp) pageID of
                         Inl e \<Rightarrow> (Inl (PoolDisk e), bp)
                       | Inr dm \<Rightarrow> (Inr (), bp\<lparr>bp_diskMgr := dm\<rparr>))
      in case map_of (bp_pages bp) pageID of
           None \<Rightarrow> free bp
         | Some p \<Rightarrow>
            if IsPinned p then (Inl (PoolPinned pageID), bp)
            else free (bp\<lparr>bp_lruList := remove1 pageID (bp_lruList bp), bp_pages := AList.delete pageID (bp_pages bp)\<rparr>))"

definition client_write :: "Page \<Rightarrow> BufferPool \<Rightarrow> BufferPool" where
  "client_write w bp =
     (case map_of (bp_pages bp) (pg_ID w) of
        Some p \<Rightarrow> if IsPinned p then set_frame (pg_ID w) (w\<lparr>pg_IsDirty := True, pg_PinCount := pg_PinCount p\<rparr>) bp else bp
      | None \<Rightarrow> bp)"

subsection \<open>The invariant\<close>

text \<open>
  \<open>m\<close> is the disk manager's view of its client: the pages the pool's clients hold, with what
  is on disk for them. \<open>view\<close> is what the pool shows of a page: its frame, or else the disk.
\<close>

definition frame_ok :: "client \<Rightarrow> u32 \<Rightarrow> Page \<Rightarrow> bool" where
  "frame_ok m q p \<longleftrightarrow> pg_ID p = q \<and> page_ok p \<and> q \<in> dom m \<and>
     (pg_IsDirty p \<or> (\<exists>w. m q = Some (Some w) \<and> clean w = clean p))"

definition pool_inv :: "BufferPool \<Rightarrow> client \<Rightarrow> bool" where
  "pool_inv bp m \<longleftrightarrow> alloc_inv (bp_diskMgr bp) m \<and> wf_map (bp_pages bp) \<and> distinct (bp_lruList bp) \<and>
     set (bp_lruList bp) = fst ` set (bp_pages bp) \<and>
     (\<forall>q p. map_of (bp_pages bp) q = Some p \<longrightarrow> frame_ok m q p) \<and>
     (\<forall>q. m q = Some None \<longrightarrow> map_of (bp_pages bp) q \<noteq> None) \<and> (\<forall>q w. m q = Some (Some w) \<longrightarrow> pg_ID w = q)"

definition view :: "BufferPool \<Rightarrow> client \<Rightarrow> u32 \<rightharpoonup> Page" where
  "view bp m q =
     (case map_of (bp_pages bp) q of
        Some p \<Rightarrow> Some (clean p)
      | None \<Rightarrow> (case m q of Some (Some w) \<Rightarrow> Some (clean w) | _ \<Rightarrow> None))"

lemma pool_invI:
  assumes "alloc_inv (bp_diskMgr bp) m" "wf_map (bp_pages bp)" "distinct (bp_lruList bp)"
    "set (bp_lruList bp) = fst ` set (bp_pages bp)" "\<And>q p. map_of (bp_pages bp) q = Some p \<Longrightarrow> frame_ok m q p"
    "\<And>q. m q = Some None \<Longrightarrow> map_of (bp_pages bp) q \<noteq> None" "\<And>q w. m q = Some (Some w) \<Longrightarrow> pg_ID w = q"
  shows "pool_inv bp m"
  using assms by (auto simp: pool_inv_def)

lemma pool_invD:
  assumes "pool_inv bp m"
  shows "alloc_inv (bp_diskMgr bp) m" "wf_map (bp_pages bp)" "distinct (bp_lruList bp)"
    "set (bp_lruList bp) = fst ` set (bp_pages bp)" "map_of (bp_pages bp) q = Some p \<Longrightarrow> frame_ok m q p"
    "m q = Some None \<Longrightarrow> map_of (bp_pages bp) q \<noteq> None" "m q = Some (Some w) \<Longrightarrow> pg_ID w = q"
  using assms by (auto simp: pool_inv_def)

lemma clean_simps [simp]: "clean (Pin p) = clean p" "clean (Unpin p) = clean p" "clean (MarkDirty p) = clean p"
  "clean (clean p) = clean p" "clean (p\<lparr>pg_IsDirty := b\<rparr>) = clean p" "clean (p\<lparr>pg_PinCount := n\<rparr>) = clean p"
  by (simp_all add: clean_def Pin_def Unpin_def MarkDirty_def)

lemma frame_flags [simp]:
  "pg_ID (Pin p) = pg_ID p" "pg_ID (Unpin p) = pg_ID p" "page_ok (Pin p) = page_ok p" "page_ok (Unpin p) = page_ok p"
  "page_ok (MarkDirty p) = page_ok p" "pg_IsDirty (Pin p) = pg_IsDirty p" "pg_IsDirty (Unpin p) = pg_IsDirty p"
  "pg_IsDirty (MarkDirty p)"
  by (simp_all add: Pin_def Unpin_def MarkDirty_def page_ok_def)

text \<open>Writing a frame to disk keeps the invariant and what the pool shows.\<close>

lemma WritePage_frame:
  assumes "alloc_inv dm m" "frame_ok m q p"
  shows "alloc_inv (WritePage dm p) (m(q \<mapsto> Some p))"
  using alloc_inv_write[OF assms(1), of p] assms(2) by (simp add: frame_ok_def)

lemma frame_ok_other: "frame_ok m r p \<Longrightarrow> r \<noteq> q \<Longrightarrow> frame_ok (m(q := x)) r p"
  by (auto simp: frame_ok_def)

lemma pool_dom: "pool_inv bp m \<Longrightarrow> dom (view bp m) = dom m"
proof -
  assume inv: "pool_inv bp m"
  have "(\<exists>p. view bp m q = Some p) \<longleftrightarrow> (\<exists>x. m q = Some x)" for q
    using pool_invD(5)[OF inv, of q] pool_invD(6)[OF inv, of q]
    by (cases "map_of (bp_pages bp) q") (auto simp: view_def frame_ok_def split: option.splits)
  then show ?thesis by auto
qed

lemma find_victim_cases:
  assumes "\<forall>q \<in> set qs. map_of pages q \<noteq> None"
  shows "(find_victim pages qs = Inl PoolAllPinned \<and> (\<forall>q \<in> set qs. \<forall>p. map_of pages q = Some p \<longrightarrow> IsPinned p)) \<or>
    (\<exists>q p. find_victim pages qs = Inr (q, p) \<and> q \<in> set qs \<and> map_of pages q = Some p \<and> \<not> IsPinned p)"
  using assms
proof (induction qs)
  case (Cons a qs)
  then obtain y where "map_of pages a = Some y" by auto
  with Cons show ?case by (cases "IsPinned y") auto
qed simp

lemma evictPage_cases:
  assumes inv: "pool_inv bp m"
  obtains (pinned) "evictPage bp = Inl PoolAllPinned" "\<And>q p. map_of (bp_pages bp) q = Some p \<Longrightarrow> IsPinned p"
  | (evicted) q p bp' m' where "evictPage bp = Inr bp'" "map_of (bp_pages bp) q = Some p" "\<not> IsPinned p"
      "bp_pages bp' = AList.delete q (bp_pages bp)" "pool_inv bp' m'" "view bp' m' = view bp m"
      "bp_capacity bp' = bp_capacity bp" "dm_nextPageID (bp_diskMgr bp') = dm_nextPageID (bp_diskMgr bp)"
proof -
  note I = pool_invD[OF inv]
  have keys: "q \<in> set (rev (bp_lruList bp)) \<longleftrightarrow> map_of (bp_pages bp) q \<noteq> None" for q
    using I(4) by (simp add: map_of_eq_None_iff)
  then have "\<forall>q \<in> set (rev (bp_lruList bp)). map_of (bp_pages bp) q \<noteq> None" by simp
  from find_victim_cases[OF this] show thesis
  proof (elim disjE exE conjE)
    assume f: "find_victim (bp_pages bp) (rev (bp_lruList bp)) = Inl PoolAllPinned"
      and a: "\<forall>q \<in> set (rev (bp_lruList bp)). \<forall>p. map_of (bp_pages bp) q = Some p \<longrightarrow> IsPinned p"
    show thesis
    proof (rule pinned)
      show "IsPinned p" if "map_of (bp_pages bp) q = Some p" for q p
        using a keys[of q] that by simp
    qed (simp add: evictPage_def f)
  next
    fix q p
    assume 2: "find_victim (bp_pages bp) (rev (bp_lruList bp)) = Inr (q, p)" "map_of (bp_pages bp) q = Some p" "\<not> IsPinned p"
    define m' where "m' = (if pg_IsDirty p then m(q \<mapsto> Some p) else m)"
    define bp' where "bp' = bp\<lparr>bp_diskMgr := (if pg_IsDirty p then WritePage (bp_diskMgr bp) p else bp_diskMgr bp),
                 bp_lruList := remove1 q (bp_lruList bp), bp_pages := AList.delete q (bp_pages bp),
                 bp_evictions := bp_evictions bp + 1\<rparr>"
    have fr: "frame_ok m q p" using I(5) 2(2) .
    obtain w where mq: "m' q = Some (Some w)" "clean w = clean p"
      using fr by (cases "pg_IsDirty p") (auto simp: m'_def frame_ok_def)
    have "pool_inv bp' m'"
    proof (rule pool_invI)
      show "alloc_inv (bp_diskMgr bp') m'" using I(1) WritePage_frame[OF I(1) fr] by (simp add: bp'_def m'_def)
      show "frame_ok m' r s" if "map_of (bp_pages bp') r = Some s" for r s
        using that I(5)[of r s] frame_ok_other[of m r s q] by (auto simp: bp'_def m'_def split: if_splits)
      show "map_of (bp_pages bp') r \<noteq> None" if "m' r = Some None" for r
        using that mq(1) I(6)[of r] by (auto simp: bp'_def m'_def split: if_splits)
      show "pg_ID w = r" if "m' r = Some (Some w)" for r w
        using that I(7)[of r w] fr by (auto simp: m'_def frame_ok_def split: if_splits)
    qed (use I(2-4) in \<open>simp_all add: bp'_def\<close>)
    moreover have "view bp' m' = view bp m"
    proof
      fix r
      have "m' r = m r" if "r \<noteq> q" using that by (simp add: m'_def)
      then show "view bp' m' r = view bp m r"
        using 2(2) mq by (cases "r = q") (simp_all add: view_def bp'_def split: option.split)
    qed
    ultimately show thesis
      using 2 by (intro evicted[of bp' q p m']) (simp_all add: evictPage_def bp'_def)
  qed
qed

lemma make_room_cases:
  assumes inv: "pool_inv bp m"
  obtains (pinned) "make_room bp = Inl PoolAllPinned" "\<And>q p. map_of (bp_pages bp) q = Some p \<Longrightarrow> IsPinned p"
      "int (length (bp_pages bp)) \<ge> bp_capacity bp"
  | (room) bp' m' where "make_room bp = Inr bp'" "pool_inv bp' m'" "view bp' m' = view bp m" "dom m' = dom m"
      "bp_capacity bp' = bp_capacity bp" "dm_nextPageID (bp_diskMgr bp') = dm_nextPageID (bp_diskMgr bp)"
      "\<And>q p. map_of (bp_pages bp) q = Some p \<Longrightarrow> IsPinned p \<Longrightarrow> map_of (bp_pages bp') q = Some p"
      "\<And>q. map_of (bp_pages bp) q = None \<Longrightarrow> map_of (bp_pages bp') q = None"
      "int (length (bp_pages bp)) \<le> bp_capacity bp \<Longrightarrow> int (length (bp_pages bp')) < bp_capacity bp"
proof (cases "int (length (bp_pages bp)) \<ge> bp_capacity bp")
  case True
  show thesis
  proof (cases rule: evictPage_cases[OF inv, case_names pinned evicted])
    case pinned
    with True that(1) show thesis by (simp add: make_room_def)
  next
    case (evicted q p bp' m')
    have "Suc (length (bp_pages bp')) = length (bp_pages bp)"
      using length_delete[OF pool_invD(2)[OF inv] evicted(2)] evicted(4) by simp
    moreover have "dom m' = dom m" using pool_dom[OF evicted(5)] pool_dom[OF inv] evicted(6) by simp
    moreover have "make_room bp = Inr bp'" using True evicted(1) by (simp add: make_room_def)
    moreover have "map_of (bp_pages bp') r = Some s" if "map_of (bp_pages bp) r = Some s" "IsPinned s" for r s
      using that evicted(2-4) by auto
    ultimately show thesis by (intro that(2)[of bp' m']) (use evicted(4-8) in simp_all)
  qed
next
  case False
  then show thesis by (intro that(2)[of bp m]) (use inv in \<open>auto simp: make_room_def\<close>)
qed

definition bounded :: "BufferPool \<Rightarrow> bool" where
  "bounded bp \<longleftrightarrow> int (length (bp_pages bp)) \<le> bp_capacity bp"

lemma pool_inv_counters [simp]:
  "pool_inv (bp\<lparr>bp_misses := n\<rparr>) m = pool_inv bp m" "view (bp\<lparr>bp_misses := n\<rparr>) m = view bp m"
  by (simp_all add: pool_inv_def view_def fun_eq_iff)

text \<open>Changing a frame in place.\<close>

lemma set_frame_ok:
  assumes inv: "pool_inv bp m" and p: "map_of (bp_pages bp) q = Some p" and f: "frame_ok m q p'"
  shows "pool_inv (set_frame q p' bp) m" "view (set_frame q p' bp) m = (view bp m)(q \<mapsto> clean p')"
    "bounded (set_frame q p' bp) = bounded bp"
proof -
  note I = pool_invD[OF inv]
  have k: "q \<in> fst ` set (bp_pages bp)" using p by (metis map_of_SomeD fst_conv image_eqI)
  show "pool_inv (set_frame q p' bp) m"
  proof (rule pool_invI)
    show "map_of (bp_pages (set_frame q p' bp)) r \<noteq> None" if "m r = Some None" for r
      using I(6)[OF that] by (simp add: set_frame_def)
    show "frame_ok m r s" if "map_of (bp_pages (set_frame q p' bp)) r = Some s" for r s
      using that I(5)[of r s] f by (auto simp: set_frame_def split: if_splits)
  qed (use I(1-4,7) k in \<open>auto simp: set_frame_def\<close>)
  show "view (set_frame q p' bp) m = (view bp m)(q \<mapsto> clean p')" by (rule ext) (simp add: view_def set_frame_def)
  show "bounded (set_frame q p' bp) = bounded bp" using p by (simp add: bounded_def set_frame_def length_update_old)
qed

lemma add_frame_ok:
  assumes inv: "pool_inv bp m" and q: "map_of (bp_pages bp) q = None" and al: "alloc_inv dm m'" and f: "frame_ok m' q p"
    and m': "\<And>r. r \<noteq> q \<Longrightarrow> m' r = m r" "\<And>w. m' q = Some (Some w) \<Longrightarrow> pg_ID w = q"
  shows "pool_inv (add_frame q p (bp\<lparr>bp_diskMgr := dm\<rparr>)) m'"
    "view (add_frame q p (bp\<lparr>bp_diskMgr := dm\<rparr>)) m' = (view bp m)(q \<mapsto> clean p)"
    "int (length (bp_pages bp)) < bp_capacity bp \<Longrightarrow> bounded (add_frame q p (bp\<lparr>bp_diskMgr := dm\<rparr>))"
proof -
  note I = pool_invD[OF inv]
  have k: "q \<notin> fst ` set (bp_pages bp)" using q by (simp add: map_of_eq_None_iff)
  have fp: "frame_ok m' q (Pin p)" using f by (simp add: frame_ok_def)
  show "pool_inv (add_frame q p (bp\<lparr>bp_diskMgr := dm\<rparr>)) m'"
  proof (rule pool_invI)
    show "map_of (bp_pages (add_frame q p (bp\<lparr>bp_diskMgr := dm\<rparr>))) r \<noteq> None" if "m' r = Some None" for r
      using I(6)[of r] m'(1)[of r] that by (cases "r = q") (simp_all add: add_frame_def)
    show "frame_ok m' r s" if "map_of (bp_pages (add_frame q p (bp\<lparr>bp_diskMgr := dm\<rparr>))) r = Some s" for r s
      using that I(5)[of r s] fp m'(1)[of r] by (cases "r = q") (auto simp: add_frame_def frame_ok_def dom_def)
    show "pg_ID w = r" if "m' r = Some (Some w)" for r w
      using that I(7)[of r w] m'(1)[of r] m'(2)[of w] by (cases "r = q") auto
  qed (use I(2-4) k al in \<open>auto simp: add_frame_def\<close>)
  show "view (add_frame q p (bp\<lparr>bp_diskMgr := dm\<rparr>)) m' = (view bp m)(q \<mapsto> clean p)"
  proof
    fix r show "view (add_frame q p (bp\<lparr>bp_diskMgr := dm\<rparr>)) m' r = ((view bp m)(q \<mapsto> clean p)) r"
      using m'(1)[of r] by (cases "r = q") (simp_all add: view_def add_frame_def split: option.split)
  qed
  show "int (length (bp_pages bp)) < bp_capacity bp \<Longrightarrow> bounded (add_frame q p (bp\<lparr>bp_diskMgr := dm\<rparr>))"
    using q by (simp add: bounded_def add_frame_def length_update_new)
qed

text \<open>What a step promises of the pool it leaves: the same pages with the same contents, \<open>v\<close>.\<close>

definition pool_shows :: "BufferPool \<Rightarrow> BufferPool \<Rightarrow> (u32 \<rightharpoonup> Page) \<Rightarrow> bool" where
  "pool_shows bp bp' v \<longleftrightarrow> (\<exists>m'. pool_inv bp' m' \<and> view bp' m' = v) \<and> (bounded bp \<longrightarrow> bounded bp') \<and>
     unat (dm_nextPageID (bp_diskMgr bp')) \<le> unat (dm_nextPageID (bp_diskMgr bp)) + 1"

lemma pool_showsI:
  "pool_inv bp' m' \<Longrightarrow> view bp' m' = v \<Longrightarrow> (bounded bp \<Longrightarrow> bounded bp') \<Longrightarrow>
   unat (dm_nextPageID (bp_diskMgr bp')) \<le> unat (dm_nextPageID (bp_diskMgr bp)) + 1 \<Longrightarrow> pool_shows bp bp' v"
  by (auto simp: pool_shows_def)

definition all_pinned :: "BufferPool \<Rightarrow> bool" where
  "all_pinned bp \<longleftrightarrow> (\<forall>q p. map_of (bp_pages bp) q = Some p \<longrightarrow> IsPinned p) \<and> int (length (bp_pages bp)) \<ge> bp_capacity bp"

lemma FetchPage_ok:
  assumes inv: "pool_inv bp m" and q: "view bp m q = Some c"
  shows "\<exists>r bp'. FetchPage q bp = (r, bp') \<and> pool_shows bp bp' (view bp m) \<and>
    ((\<exists>p. r = Inr p \<and> clean p = c) \<or> r = Inl PoolAllPinned \<and> all_pinned bp)"
proof (cases "map_of (bp_pages bp) q")
  case (Some p)
  have f: "frame_ok m q (Pin p)" using pool_invD(5)[OF inv Some] by (simp add: frame_ok_def)
  have c: "clean p = c" using q Some by (simp add: view_def)
  define bp' where "bp' = bp\<lparr>bp_lruList := q # remove1 q (bp_lruList bp),
                             bp_pages := AList.update q (Pin p) (bp_pages bp), bp_hits := bp_hits bp + 1\<rparr>"
  note sf = set_frame_ok[OF inv Some f]
  have "pool_inv bp' m" using sf(1) pool_invD(3,4)[OF inv] Some
    by (auto simp: pool_inv_def set_frame_def bp'_def dest: map_of_SomeD)
  moreover have "view bp' m = view bp m" using sf(2) q c by (auto simp: view_def set_frame_def bp'_def fun_eq_iff)
  moreover have "bounded bp \<Longrightarrow> bounded bp'" using sf(3) by (simp add: bounded_def set_frame_def bp'_def)
  ultimately have "pool_shows bp bp' (view bp m)" by (intro pool_showsI) (auto simp: bp'_def)
  then show ?thesis using Some c by (auto simp: FetchPage_def bp'_def[symmetric])
next
  case None
  let ?bp1 = "bp\<lparr>bp_misses := bp_misses bp + 1\<rparr>"
  have inv1: "pool_inv ?bp1 m" using inv by simp
  show ?thesis
  proof (cases rule: make_room_cases[OF inv1, case_names pinned room])
    case pinned
    have "pool_shows bp ?bp1 (view bp m)" by (rule pool_showsI[OF inv1]) (simp_all add: bounded_def)
    with pinned None show ?thesis by (auto simp: FetchPage_def all_pinned_def)
  next
    case (room bp2 m2)
    have n2: "map_of (bp_pages bp2) q = None" using room(8) None by simp
    have "view bp2 m2 q = Some c" using room(3) q by simp
    then obtain w where w: "m2 q = Some (Some w)" "clean w = c" using n2 by (auto simp: view_def split: option.splits)
    have fp: "file_page (dm_dataFile (bp_diskMgr bp2)) q = clean w"
      using pool_invD(1)[OF room(2)] w(1) by (auto simp: alloc_inv_def dest: alloc_chainD(10))
    obtain dm where rd: "ReadPage (bp_diskMgr bp2) q = Inr (clean w, dm)" "alloc_inv dm m2" "dm_nextPageID dm = dm_nextPageID (bp_diskMgr bp2)"
      using pool_invD(1)[OF room(2)] fp by (auto simp: ReadPage_def readPageInternal_eq)
    have "page_ok (clean w)" using page_ok_file_page[of "dm_dataFile (bp_diskMgr bp2)" q] fp by simp
    then have f: "frame_ok m2 q (clean w)" using w pool_invD(7)[OF room(2) w(1)] by (auto simp: frame_ok_def)
    have pid: "\<And>x. m2 q = Some (Some x) \<Longrightarrow> pg_ID x = q" using pool_invD(7)[OF room(2)] .
    note af = add_frame_ok[OF room(2) n2 rd(2) f refl pid]
    let ?b = "add_frame q (clean w) (bp2\<lparr>bp_diskMgr := dm\<rparr>)"
    have "view ?b m2 = view bp m" using af(2) room(3) q w(2) by (auto simp: fun_eq_iff)
    moreover have "bounded bp \<Longrightarrow> bounded ?b" using af(3) room(5,9) by (simp add: bounded_def)
    ultimately have "pool_shows bp ?b (view bp m)"
      using af(1) rd(3) room(6) by (intro pool_showsI) (auto simp: add_frame_def)
    then show ?thesis using None room(1) rd(1) w(2) by (auto simp: FetchPage_def)
  qed
qed

lemma NewPage_ok:
  assumes inv: "pool_inv bp m" and n: "unat (dm_nextPageID (bp_diskMgr bp)) + 1 < 2 ^ 32"
  shows "\<exists>r bp'. pool_NewPage bp = (r, bp') \<and>
    ((\<exists>p. r = Inr p \<and> view bp m (pg_ID p) = None \<and> clean p = NewPage (pg_ID p) PageTypeData \<and>
        pool_shows bp bp' ((view bp m)(pg_ID p \<mapsto> clean p))) \<or>
     r = Inl PoolAllPinned \<and> all_pinned bp \<and> pool_shows bp bp' (view bp m))"
proof (cases rule: make_room_cases[OF inv, case_names pinned room])
  case pinned
  have "pool_shows bp bp (view bp m)" by (rule pool_showsI[OF inv]) simp_all
  with pinned show ?thesis by (auto simp: pool_NewPage_def all_pinned_def)
next
  case (room bp2 m2)
  obtain q dm where a: "AllocatePage (bp_diskMgr bp2) = Inr (q, dm)" "m2 q = None" "alloc_inv dm (m2(q \<mapsto> None))"
      "unat (dm_nextPageID dm) \<le> unat (dm_nextPageID (bp_diskMgr bp2)) + 1"
    using alloc_inv_alloc[OF pool_invD(1)[OF room(2)]] n room(6) by auto
  let ?p = "MarkDirty (NewPage q PageTypeData)" and ?b = "add_frame q (MarkDirty (NewPage q PageTypeData)) (bp2\<lparr>bp_diskMgr := dm\<rparr>)"
  have n2: "map_of (bp_pages bp2) q = None"
    using pool_invD(5)[OF room(2), of q] a(2) by (cases "map_of (bp_pages bp2) q") (auto simp: frame_ok_def)
  have f: "frame_ok (m2(q \<mapsto> None)) q ?p" by (simp add: frame_ok_def) (simp add: NewPage_def)
  note af = add_frame_ok[OF room(2) n2 a(3) f]
  have c: "clean ?p = NewPage q PageTypeData" "pg_ID (Pin ?p) = q" by (simp_all add: clean_def NewPage_def MarkDirty_def)
  have vq: "view bp m q = None" using pool_dom[OF room(2)] a(2) room(3) by auto
  have "view ?b (m2(q \<mapsto> None)) = (view bp m)(q \<mapsto> NewPage q PageTypeData)" using af(2) room(3) c(1) by auto
  moreover have "bounded bp \<Longrightarrow> bounded ?b" using af(3) room(5,9) by (simp add: bounded_def)
  ultimately have "pool_shows bp ?b ((view bp m)(q \<mapsto> NewPage q PageTypeData))"
    using af(1) a(4) room(6) by (intro pool_showsI) (auto simp: add_frame_def)
  then show ?thesis using room(1) a(1) vq c by (auto simp: pool_NewPage_def Let_def)
qed

lemma UnpinPage_ok:
  assumes inv: "pool_inv bp m" shows "pool_shows bp (snd (UnpinPage q d bp)) (view bp m)"
proof (cases "map_of (bp_pages bp) q")
  case None
  then show ?thesis by (auto simp: UnpinPage_def intro: pool_showsI[OF inv])
next
  case (Some p)
  have fp: "frame_ok m q (if d then MarkDirty (Unpin p) else Unpin p)"
    using pool_invD(5)[OF inv Some] by (auto simp: frame_ok_def)
  note sf = set_frame_ok[OF inv Some fp]
  have "view (set_frame q (if d then MarkDirty (Unpin p) else Unpin p) bp) m = view bp m"
    using sf(2) Some by (auto simp: view_def fun_eq_iff)
  with sf show ?thesis using Some by (auto simp: UnpinPage_def intro!: pool_showsI) (simp_all add: set_frame_def)
qed

lemma client_write_ok:
  assumes inv: "pool_inv bp m" and w: "page_ok w" and p: "map_of (bp_pages bp) (pg_ID w) = Some p" "IsPinned p"
  shows "pool_shows bp (client_write w bp) ((view bp m)(pg_ID w \<mapsto> clean w))"
proof -
  have f: "frame_ok m (pg_ID w) (w\<lparr>pg_IsDirty := True, pg_PinCount := pg_PinCount p\<rparr>)"
    using pool_invD(5)[OF inv p(1)] w by (simp add: frame_ok_def page_ok_def)
  note sf = set_frame_ok[OF inv p(1) f]
  have "clean (w\<lparr>pg_IsDirty := True, pg_PinCount := pg_PinCount p\<rparr>) = clean w" by (simp add: clean_def)
  with sf p show ?thesis by (auto simp: client_write_def intro!: pool_showsI) (simp_all add: set_frame_def)
qed

lemma flush_frame_ok:
  assumes inv: "pool_inv bp m" and p: "map_of (bp_pages bp) q = Some p"
  shows "\<exists>m'. pool_inv (flush_frame q p bp) m' \<and> view (flush_frame q p bp) m' = view bp m \<and>
    bounded (flush_frame q p bp) = bounded bp \<and>
    dm_nextPageID (bp_diskMgr (flush_frame q p bp)) = dm_nextPageID (bp_diskMgr bp) \<and>
    map_of (bp_pages (flush_frame q p bp)) = (map_of (bp_pages bp))(q \<mapsto> p\<lparr>pg_IsDirty := False\<rparr>)"
proof (cases "pg_IsDirty p")
  case False
  then have "p\<lparr>pg_IsDirty := False\<rparr> = p" by simp
  with False inv p show ?thesis by (intro exI[of _ m]) (auto simp: flush_frame_def)
next
  case True
  note I = pool_invD[OF inv]
  let ?m = "m(q \<mapsto> Some p)" and ?b = "bp\<lparr>bp_diskMgr := WritePage (bp_diskMgr bp) p\<rparr>"
  have fr: "frame_ok m q p" using I(5) p .
  have inv1: "pool_inv ?b ?m"
  proof (rule pool_invI)
    show "frame_ok ?m r s" if "map_of (bp_pages ?b) r = Some s" for r s
      using that I(5)[of r s] frame_ok_other[of m r s q] fr p True by (cases "r = q") (auto simp: frame_ok_def)
    show "map_of (bp_pages ?b) r \<noteq> None" if "?m r = Some None" for r
      using that I(6)[of r] by (auto split: if_splits)
    show "pg_ID w = r" if "?m r = Some (Some w)" for r w
      using that I(7)[of r w] fr by (auto simp: frame_ok_def split: if_splits)
  qed (use I(2-4) WritePage_frame[OF I(1) fr] in simp_all)
  have p1: "map_of (bp_pages ?b) q = Some p" using p by simp
  have f1: "frame_ok ?m q (p\<lparr>pg_IsDirty := False\<rparr>)" using fr by (auto simp: frame_ok_def page_ok_def)
  note sf = set_frame_ok[OF inv1 p1 f1]
  have "view (set_frame q (p\<lparr>pg_IsDirty := False\<rparr>) ?b) ?m = view bp m"
  proof
    fix r show "view (set_frame q (p\<lparr>pg_IsDirty := False\<rparr>) ?b) ?m r = view bp m r"
      using sf(2) p by (cases "r = q") (simp_all add: view_def split: option.split)
  qed
  with sf True show ?thesis
    by (intro exI[of _ ?m]) (simp add: flush_frame_def bounded_def set_frame_def fun_eq_iff)
qed

lemma flush_list_ok:
  assumes "pool_inv bp m" "\<And>q p. (q, p) \<in> set xs \<Longrightarrow> map_of (bp_pages bp) q = Some p" "distinct (map fst xs)"
  shows "\<exists>m'. let bp' = fold (\<lambda>(q, p) bp. flush_frame q p bp) xs bp
    in pool_inv bp' m' \<and> view bp' m' = view bp m \<and> bounded bp' = bounded bp \<and>
       dm_nextPageID (bp_diskMgr bp') = dm_nextPageID (bp_diskMgr bp) \<and>
       (\<forall>q. map_of (bp_pages bp') q = (if q \<in> fst ` set xs then map_option (\<lambda>p. p\<lparr>pg_IsDirty := False\<rparr>) (map_of (bp_pages bp) q)
          else map_of (bp_pages bp) q))"
  using assms
proof (induction xs arbitrary: bp m)
  case Nil
  then show ?case by (intro exI[of _ m]) simp
next
  case (Cons x xs)
  obtain q p where x: "x = (q, p)" by fastforce
  have p: "map_of (bp_pages bp) q = Some p" using Cons.prems(2) x by simp
  let ?b = "flush_frame q p bp"
  obtain m1 where f: "pool_inv ?b m1" "view ?b m1 = view bp m" "bounded ?b = bounded bp"
      "dm_nextPageID (bp_diskMgr ?b) = dm_nextPageID (bp_diskMgr bp)"
      "map_of (bp_pages ?b) = (map_of (bp_pages bp))(q \<mapsto> p\<lparr>pg_IsDirty := False\<rparr>)"
    using flush_frame_ok[OF Cons.prems(1) p] by blast
  have "map_of (bp_pages ?b) r = Some s" if "(r, s) \<in> set xs" for r s
    using that Cons.prems(2)[of r s] Cons.prems(3) x f(5) by (force simp: image_iff)
  from Cons.IH[OF f(1) this] Cons.prems(3) show ?case using f x p
    by (auto simp: Let_def)
qed

lemma FlushAllPages_ok:
  assumes inv: "pool_inv bp m"
  shows "pool_shows bp (FlushAllPages bp) (view bp m)"
    and "view bp m q = Some c \<Longrightarrow> file_page (dm_dataFile (bp_diskMgr (FlushAllPages bp))) q = c"
proof -
  have wf: "wf_map (bp_pages bp)" using pool_invD(2)[OF inv] .
  have mem: "(q, p) \<in> set (bp_pages bp) \<Longrightarrow> map_of (bp_pages bp) q = Some p" for q p
    using map_of_wf_mem[OF wf] by blast
  obtain m' where f: "pool_inv (FlushAllPages bp) m'" "view (FlushAllPages bp) m' = view bp m"
      "bounded (FlushAllPages bp) = bounded bp" "dm_nextPageID (bp_diskMgr (FlushAllPages bp)) = dm_nextPageID (bp_diskMgr bp)"
      "\<And>q. map_of (bp_pages (FlushAllPages bp)) q = (if q \<in> fst ` set (bp_pages bp)
         then map_option (\<lambda>p. p\<lparr>pg_IsDirty := False\<rparr>) (map_of (bp_pages bp) q) else map_of (bp_pages bp) q)"
    using flush_list_ok[OF inv mem] wf by (auto simp: wf_map_def Let_def FlushAllPages_def)
  show "pool_shows bp (FlushAllPages bp) (view bp m)" using f(1-4) by (intro pool_showsI) auto
  assume c: "view bp m q = Some c"
  have on_file: "file_page (dm_dataFile (bp_diskMgr (FlushAllPages bp))) q = clean w" if "m' q = Some (Some w)" for w
    using pool_invD(1)[OF f(1)] that by (auto simp: alloc_inv_def dest: alloc_chainD(10))
  show "file_page (dm_dataFile (bp_diskMgr (FlushAllPages bp))) q = c"
  proof (cases "map_of (bp_pages (FlushAllPages bp)) q")
    case None
    then have "view (FlushAllPages bp) m' q = (case m' q of Some (Some w) \<Rightarrow> Some (clean w) | _ \<Rightarrow> None)" by (simp add: view_def)
    then obtain w where "m' q = Some (Some w)" "clean w = c" using c f(2) by (auto split: option.splits)
    with on_file show ?thesis by simp
  next
    case (Some p)
    then have "\<not> pg_IsDirty p"
      using f(5)[of q] map_of_eq_None_iff[of "bp_pages bp" q] by (cases "q \<in> fst ` set (bp_pages bp)") auto
    then obtain w where "m' q = Some (Some w)" "clean w = clean p"
      using pool_invD(5)[OF f(1) Some] by (auto simp: frame_ok_def)
    moreover have "clean p = c" using arg_cong[OF f(2), of "\<lambda>v. v q"] c Some by (simp add: view_def)
    ultimately show ?thesis using on_file by simp
  qed
qed

lemma FlushPage_ok:
  assumes inv: "pool_inv bp m" shows "pool_shows bp (snd (FlushPage q bp)) (view bp m)"
proof (cases "map_of (bp_pages bp) q")
  case None
  then show ?thesis by (auto simp: FlushPage_def intro: pool_showsI[OF inv])
next
  case (Some p)
  with flush_frame_ok[OF inv Some] show ?thesis by (auto simp: FlushPage_def intro!: pool_showsI)
qed

lemma drop_frame_inv:
  assumes inv: "pool_inv bp m" and al: "alloc_inv dm (m(q := None))"
  defines "bp' \<equiv> bp\<lparr>bp_lruList := remove1 q (bp_lruList bp), bp_pages := AList.delete q (bp_pages bp), bp_diskMgr := dm\<rparr>"
  shows "pool_inv bp' (m(q := None))" "view bp' (m(q := None)) = (view bp m)(q := None)"
    "bounded bp \<Longrightarrow> bounded bp'"
proof -
  note I = pool_invD[OF inv]
  show "pool_inv bp' (m(q := None))"
  proof (rule pool_invI)
    show "frame_ok (m(q := None)) r s" if "map_of (bp_pages bp') r = Some s" for r s
      using that I(5)[of r s] by (auto simp: bp'_def intro: frame_ok_other split: if_splits)
    show "map_of (bp_pages bp') r \<noteq> None" if "(m(q := None)) r = Some None" for r
      using that I(6)[of r] by (auto simp: bp'_def split: if_splits)
    show "pg_ID w = r" if "(m(q := None)) r = Some (Some w)" for r w
      using that I(7)[of r w] by (auto split: if_splits)
  qed (use I(2-4) al in \<open>simp_all add: bp'_def\<close>)
  show "view bp' (m(q := None)) = (view bp m)(q := None)"
  proof
    fix r show "view bp' (m(q := None)) r = ((view bp m)(q := None)) r"
      by (cases "r = q") (simp_all add: view_def bp'_def split: option.split)
  qed
  show "bounded bp \<Longrightarrow> bounded bp'"
    using length_delete_le[of q "bp_pages bp"] by (simp add: bounded_def bp'_def)
qed

lemma DeletePage_ok:
  assumes inv: "pool_inv bp m" and q: "view bp m q = Some c" and n: "unat (dm_nextPageID (bp_diskMgr bp)) + 1 < 2 ^ 32"
  shows "\<exists>r bp'. DeletePage q bp = (r, bp') \<and>
    (r = Inr () \<and> pool_shows bp bp' ((view bp m)(q := None)) \<or>
     r = Inl (PoolPinned q) \<and> (\<exists>p. map_of (bp_pages bp) q = Some p \<and> IsPinned p) \<and> bp' = bp)"
proof -
  have "q \<in> dom m" using pool_dom[OF inv] q by auto
  then obtain dm where d: "DeallocatePage (bp_diskMgr bp) q = Inr dm" "alloc_inv dm (m(q := None))"
      "unat (dm_nextPageID dm) \<le> unat (dm_nextPageID (bp_diskMgr bp)) + 1"
    using alloc_inv_free[OF pool_invD(1)[OF inv] _ n] by blast
  let ?b = "bp\<lparr>bp_lruList := remove1 q (bp_lruList bp), bp_pages := AList.delete q (bp_pages bp), bp_diskMgr := dm\<rparr>"
  have sh: "pool_shows bp ?b ((view bp m)(q := None))"
    using drop_frame_inv[OF inv d(2)] d(3) by (intro pool_showsI) auto
  show ?thesis
  proof (cases "map_of (bp_pages bp) q")
    case None
    then have k: "q \<notin> set (bp_lruList bp)" "q \<notin> fst ` set (bp_pages bp)"
      using pool_invD(4)[OF inv] by (simp_all add: map_of_eq_None_iff)
    then have "?b = bp\<lparr>bp_diskMgr := dm\<rparr>" by (simp add: remove1_idem delete_notin)
    with sh None d(1) show ?thesis by (simp add: DeletePage_def Let_def)
  next
    case (Some p)
    then show ?thesis using sh d(1) by (simp add: DeletePage_def Let_def)
  qed
qed

subsection \<open>Runs of clients\<close>

datatype pool_op = PFetch u32 | PNew | PUnpin u32 bool | PWrite Page | PFlush u32 | PFlushAll | PDelete u32

text \<open>
  \<open>pool_safe ops bp v\<close>: along the run, with \<open>v\<close> the pages that exist and what was last written
  to them, fetching an existing page returns it with that content, a new page has an
  id of its own, deleting works on unpinned pages, and a full flush leaves every page on disk as it
  was written; the one error left is that every frame of a full pool is pinned.
\<close>

fun pool_safe :: "pool_op list \<Rightarrow> BufferPool \<Rightarrow> (u32 \<rightharpoonup> Page) \<Rightarrow> bool" where
  "pool_safe [] bp v \<longleftrightarrow> bounded bp"
| "pool_safe (PFetch q # ops) bp v \<longleftrightarrow> (\<forall>c. v q = Some c \<longrightarrow>
     (case FetchPage q bp of
        (Inr p, bp') \<Rightarrow> clean p = c \<and> pool_safe ops bp' v
      | (Inl e, bp') \<Rightarrow> e = PoolAllPinned \<and> all_pinned bp \<and> pool_safe ops bp' v))"
| "pool_safe (PNew # ops) bp v \<longleftrightarrow>
     (case pool_NewPage bp of
        (Inr p, bp') \<Rightarrow> v (pg_ID p) = None \<and> pool_safe ops bp' (v(pg_ID p \<mapsto> clean p))
      | (Inl e, bp') \<Rightarrow> e = PoolAllPinned \<and> all_pinned bp \<and> pool_safe ops bp' v)"
| "pool_safe (PUnpin q d # ops) bp v \<longleftrightarrow> pool_safe ops (snd (UnpinPage q d bp)) v"
| "pool_safe (PWrite w # ops) bp v \<longleftrightarrow>
     (\<forall>p. page_ok w \<and> map_of (bp_pages bp) (pg_ID w) = Some p \<and> IsPinned p \<longrightarrow>
        pool_safe ops (client_write w bp) (v(pg_ID w \<mapsto> clean w)))"
| "pool_safe (PFlush q # ops) bp v \<longleftrightarrow> pool_safe ops (snd (FlushPage q bp)) v"
| "pool_safe (PFlushAll # ops) bp v \<longleftrightarrow>
     (\<forall>q c. v q = Some c \<longrightarrow> file_page (dm_dataFile (bp_diskMgr (FlushAllPages bp))) q = c) \<and>
     pool_safe ops (FlushAllPages bp) v"
| "pool_safe (PDelete q # ops) bp v \<longleftrightarrow> (v q \<noteq> None \<longrightarrow>
     (case DeletePage q bp of
        (Inr _, bp') \<Rightarrow> pool_safe ops bp' (v(q := None))
      | (Inl e, bp') \<Rightarrow> e = PoolPinned q \<and> pool_safe ops bp' v))"

lemma pool_showsE:
  assumes "pool_shows bp bp' v" "bounded bp"
  obtains m' where "pool_inv bp' m'" "view bp' m' = v" "bounded bp'"
    "unat (dm_nextPageID (bp_diskMgr bp')) \<le> unat (dm_nextPageID (bp_diskMgr bp)) + 1"
  using assms by (auto simp: pool_shows_def)

lemma pool_inv_safe:
  "pool_inv bp m \<Longrightarrow> bounded bp \<Longrightarrow> unat (dm_nextPageID (bp_diskMgr bp)) + length ops < 2 ^ 32 \<Longrightarrow>
   pool_safe ops bp (view bp m)"
proof (induction ops arbitrary: bp m)
  case (Cons op ops)
  then have n: "unat (dm_nextPageID (bp_diskMgr bp)) + 1 < 2 ^ 32" by simp
  have go: "pool_safe ops bp' v" if "pool_shows bp bp' v" for bp' v
    using that Cons.prems(2)
  proof (rule pool_showsE)
    fix m' assume "pool_inv bp' m'" "view bp' m' = v" "bounded bp'"
      "unat (dm_nextPageID (bp_diskMgr bp')) \<le> unat (dm_nextPageID (bp_diskMgr bp)) + 1"
    with Cons.IH[of bp' m'] Cons.prems(3) show ?thesis by simp
  qed
  have stay: "pool_shows bp bp (view bp m)" by (rule pool_showsI[OF Cons.prems(1)]) simp_all
  show ?case
  proof (cases op)
    case (PFetch q)
    have "case FetchPage q bp of (Inr p, bp') \<Rightarrow> clean p = c \<and> pool_safe ops bp' (view bp m)
      | (Inl e, bp') \<Rightarrow> e = PoolAllPinned \<and> all_pinned bp \<and> pool_safe ops bp' (view bp m)" if "view bp m q = Some c" for c
      using FetchPage_ok[OF Cons.prems(1) that] go by auto
    then show ?thesis by (simp add: PFetch)
  next
    case PNew
    show ?thesis using NewPage_ok[OF Cons.prems(1) n] go by (auto simp: PNew)
  next
    case (PUnpin q d)
    show ?thesis using go[OF UnpinPage_ok[OF Cons.prems(1)]] by (simp add: PUnpin)
  next
    case (PWrite w)
    show ?thesis using go[OF client_write_ok[OF Cons.prems(1)]] by (simp add: PWrite)
  next
    case (PFlush q)
    show ?thesis using go[OF FlushPage_ok[OF Cons.prems(1)]] by (simp add: PFlush)
  next
    case PFlushAll
    show ?thesis using FlushAllPages_ok[OF Cons.prems(1)] go by (simp add: PFlushAll)
  next
    case (PDelete q)
    have "case DeletePage q bp of (Inr _, bp') \<Rightarrow> pool_safe ops bp' ((view bp m)(q := None))
      | (Inl e, bp') \<Rightarrow> e = PoolPinned q \<and> pool_safe ops bp' (view bp m)" if "view bp m q \<noteq> None"
      using that DeletePage_ok[OF Cons.prems(1) _ n, of q] go go[OF stay] by auto
    then show ?thesis by (simp add: PDelete)
  qed
qed simp



end
