(* ===== verification/Wal.thy ===== *)
theory Wal
  imports Prelude
begin

text \<open>
  \<^verbatim>\<open>pkg/storage/wal.go\<close>: the write-ahead log. The file is the list of its bytes; opening, appending
  and replaying are modelled, failures of the operating system are not. A header whose length
  field makes the 32-bit sum \<^verbatim>\<open>33+dataLen\<close> wrap around makes \<^verbatim>\<open>Replay\<close> panic.
\<close>

subsection \<open>Records\<close>

abbreviation (input) LogRecordCheckpoint :: byte where "LogRecordCheckpoint \<equiv> 3"

record LogRecord =
  lr_LSN :: u64
  lr_Type :: byte
  lr_TxnID :: u64
  lr_PageID :: u32
  lr_Data :: bytes
  lr_PrevLSN :: u64

datatype wal_error = WalTooShort | WalTruncated | WalReadData | WalPanic

definition serializeRecord :: "LogRecord \<Rightarrow> bytes" where
  "serializeRecord r =
     le_bytes 8 (lr_LSN r) @ [lr_Type r] @ le_bytes 8 (lr_TxnID r) @ le_bytes 4 (lr_PageID r) @
     le_bytes 8 (lr_PrevLSN r) @ le_bytes 4 (of_nat (length (lr_Data r)) :: u32) @ lr_Data r"

definition deserializeRecord :: "bytes \<Rightarrow> wal_error + LogRecord" where
  "deserializeRecord bs =
     (if length bs < 33 then Inl WalTooShort
      else let dataLen = (le_word (read_at 29 4 bs) :: u32) in
        if length bs < 33 + unat dataLen then Inl WalTruncated
        else case go_slice bs 33 (unat (33 + dataLen)) of
          None \<Rightarrow> Inl WalPanic
        | Some d \<Rightarrow> Inr \<lparr>lr_LSN = le_word (read_at 0 8 bs), lr_Type = bs ! 8,
            lr_TxnID = le_word (read_at 9 8 bs), lr_PageID = le_word (read_at 17 4 bs),
            lr_Data = d, lr_PrevLSN = le_word (read_at 21 8 bs)\<rparr>)"

subsection \<open>The log\<close>

record WAL =
  wal_file :: bytes
  currentLSN :: u64

definition NewWAL :: "bytes \<Rightarrow> WAL" where
  "NewWAL file = \<lparr>wal_file = file, currentLSN = of_nat (length file)\<rparr>"

definition wal_Append :: "LogRecord \<Rightarrow> WAL \<Rightarrow> u64 \<times> WAL" where
  "wal_Append r w =
     (let lsn = currentLSN w + 1
      in (lsn, \<lparr>wal_file = wal_file w @ serializeRecord (r\<lparr>lr_LSN := lsn\<rparr>), currentLSN = lsn\<rparr>))"

definition wal_Checkpoint :: "WAL \<Rightarrow> WAL" where
  "wal_Checkpoint w =
     snd (wal_Append \<lparr>lr_LSN = 0, lr_Type = LogRecordCheckpoint, lr_TxnID = 0, lr_PageID = 0,
            lr_Data = [], lr_PrevLSN = 0\<rparr> w)"

definition wal_Truncate :: "u64 \<Rightarrow> WAL \<Rightarrow> WAL" where
  "wal_Truncate beforeLSN w = w"

text \<open>
  One turn of the replay loop on the bytes not yet read: the end of the log, an error, or a
  record and the rest.
\<close>

datatype replay_outcome = ReplayEnd | ReplayError wal_error | ReplayRecord LogRecord bytes

definition replay_turn :: "bytes \<Rightarrow> replay_outcome" where
  "replay_turn bs =
     (if length bs < 33 then ReplayEnd
      else let hdr = take 33 bs; dataLen = (le_word (read_at 29 4 hdr) :: u32);
               full = unat (33 + dataLen)
           in if full < 33 then ReplayError WalPanic
              else if dataLen > 0 \<and> length (drop 33 bs) < full - 33 then ReplayError WalReadData
              else case deserializeRecord (hdr @ take (full - 33) (drop 33 bs)) of
                     Inl e \<Rightarrow> ReplayError e
                   | Inr r \<Rightarrow> ReplayRecord r (drop full bs))"

lemma replay_turn_less: "replay_turn bs = ReplayRecord r rest \<Longrightarrow> length rest < length bs"
  by (auto simp: replay_turn_def Let_def split: if_splits sum.splits)

function Replay_loop :: "bytes \<Rightarrow> wal_error + LogRecord list" where
  "Replay_loop bs =
     (case replay_turn bs of
        ReplayEnd \<Rightarrow> Inr []
      | ReplayError e \<Rightarrow> Inl e
      | ReplayRecord r rest \<Rightarrow> (case Replay_loop rest of Inl e \<Rightarrow> Inl e | Inr rs \<Rightarrow> Inr (r # rs)))"
  by pat_completeness auto
termination
  by (relation "measure length") (auto dest: replay_turn_less)

declare Replay_loop.simps [simp del]

definition Replay :: "WAL \<Rightarrow> wal_error + LogRecord list" where
  "Replay w = Replay_loop (wal_file w)"

subsection \<open>Records are a self-delimiting code\<close>

definition record_ok :: "LogRecord \<Rightarrow> bool" where
  "record_ok r \<longleftrightarrow> length (lr_Data r) < 2 ^ 32 - 33"

definition read_record :: "bytes \<Rightarrow> (LogRecord \<times> bytes) option" where
  "read_record bs = (case replay_turn bs of ReplayRecord r rest \<Rightarrow> Some (r, rest) | _ \<Rightarrow> None)"

lemma length_serializeRecord [simp]: "length (serializeRecord r) = 33 + length (lr_Data r)"
  by (simp add: serializeRecord_def)

lemma serialize_fields:
  "read_at 0 8 (serializeRecord r @ x) = le_bytes 8 (lr_LSN r)"
  "(serializeRecord r @ x) ! 8 = lr_Type r"
  "read_at 9 8 (serializeRecord r @ x) = le_bytes 8 (lr_TxnID r)"
  "read_at 17 4 (serializeRecord r @ x) = le_bytes 4 (lr_PageID r)"
  "read_at 21 8 (serializeRecord r @ x) = le_bytes 8 (lr_PrevLSN r)"
  "read_at 29 4 (serializeRecord r @ x) = le_bytes 4 (of_nat (length (lr_Data r)) :: u32)"
  "drop 33 (serializeRecord r @ x) = lr_Data r @ x"
  by (simp_all add: serializeRecord_def read_at_def nth_append)

lemma read_at_take: "off + n \<le> m \<Longrightarrow> read_at off n (take m xs) = read_at off n xs"
  by (simp add: read_at_def drop_take)

lemma record_len:
  assumes "record_ok r"
  shows "unat (of_nat (length (lr_Data r)) :: u32) = length (lr_Data r)"
    "unat (33 + (of_nat (length (lr_Data r)) :: u32)) = 33 + length (lr_Data r)"
  using assms unat_of_nat_small(2)[of "length (lr_Data r)"] unat_of_nat_small(2)[of "33 + length (lr_Data r)"]
  by (simp_all add: record_ok_def)

lemma deserialize_serialize:
  assumes "record_ok r"
  shows "deserializeRecord (serializeRecord r) = Inr r"
  using serialize_fields[of r "[]"] record_len[OF assms]
  by (simp add: deserializeRecord_def go_slice_def Let_def)

lemma replay_turn_serialize:
  assumes "record_ok r"
  shows "replay_turn (serializeRecord r @ rest) = ReplayRecord r rest"
proof -
  have hdr: "take 33 (serializeRecord r @ rest) @ lr_Data r = serializeRecord r"
    by (simp add: serializeRecord_def)
  show ?thesis
    using record_len[OF assms] serialize_fields[of r "[]"] deserialize_serialize[OF assms] hdr
    by (simp add: replay_turn_def Let_def read_at_take)
qed

interpretation wlog: byte_log serializeRecord read_record record_ok Replay_loop
proof
  show "record_ok x \<Longrightarrow> read_record (serializeRecord x @ rest) = Some (x, rest)" for x rest
    by (simp add: read_record_def replay_turn_serialize)
  show "record_ok x \<Longrightarrow> serializeRecord x \<noteq> []" for x
    by (simp add: serializeRecord_def)
  show "Replay_loop [] = Inr []"
    by (simp add: Replay_loop.simps replay_turn_def)
  show "read_record bs = Some (x, rest) \<Longrightarrow>
      Replay_loop bs = (case Replay_loop rest of Inl e \<Rightarrow> Inl e | Inr xs \<Rightarrow> Inr (x # xs))" for bs x rest
    by (subst Replay_loop.simps) (auto simp: read_record_def split: replay_outcome.splits)
qed

subsection \<open>Histories of a log file\<close>

text \<open>Appends, checkpoints and restarts, with the records the file should then hold.\<close>

datatype wal_op = WalAppend LogRecord | WalCheckpoint | WalReopen

fun wal_exec :: "wal_op \<Rightarrow> WAL \<Rightarrow> WAL" where
  "wal_exec (WalAppend r) w = snd (wal_Append r w)"
| "wal_exec WalCheckpoint w = wal_Checkpoint w"
| "wal_exec WalReopen w = NewWAL (wal_file w)"

fun wal_payload :: "wal_op \<Rightarrow> LogRecord list" where
  "wal_payload (WalAppend r) = [r\<lparr>lr_LSN := 0\<rparr>]"
| "wal_payload WalCheckpoint = [\<lparr>lr_LSN = 0, lr_Type = LogRecordCheckpoint, lr_TxnID = 0, lr_PageID = 0,
      lr_Data = [], lr_PrevLSN = 0\<rparr>]"
| "wal_payload WalReopen = []"

definition wal_ok :: "WAL \<Rightarrow> LogRecord list \<Rightarrow> bool" where
  "wal_ok w rs \<longleftrightarrow> wal_file w = concat (map serializeRecord rs) \<and> (\<forall>r \<in> set rs. record_ok r) \<and>
     sorted_wrt (\<lambda>a b. lr_LSN a < lr_LSN b) rs \<and> (\<forall>r \<in> set rs. lr_LSN r \<le> currentLSN w) \<and>
     unat (currentLSN w) \<le> length (wal_file w)"

lemma wal_ok_append:
  assumes "wal_ok w rs" "record_ok r" "length (wal_file (snd (wal_Append r w))) < 2 ^ 64"
  shows "wal_ok (snd (wal_Append r w)) (rs @ [r\<lparr>lr_LSN := currentLSN w + 1\<rparr>])"
proof -
  let ?r = "r\<lparr>lr_LSN := currentLSN w + 1\<rparr>"
  have "unat (currentLSN w) \<le> length (wal_file w)" using assms(1) unfolding wal_ok_def by blast
  moreover have "length (wal_file w) + 33 < 2 ^ 64" using assms(3) by (simp add: wal_Append_def Let_def)
  ultimately have "unat (currentLSN w) + 1 < 2 ^ 64" by simp
  then have lsn: "unat (currentLSN w + 1) = unat (currentLSN w) + 1" by (simp add: unat_word_ariths)
  then have "currentLSN w < currentLSN w + 1" by (simp add: word_less_nat_alt)
  moreover have "record_ok ?r" using assms(2) by (simp add: record_ok_def)
  ultimately show ?thesis
    using assms(1) lsn
    by (auto simp: wal_ok_def wal_Append_def Let_def sorted_wrt_append dest: le_less_trans order_less_imp_le)
qed

lemma wal_ok_reopen:
  assumes "wal_ok w rs" "length (wal_file w) < 2 ^ 64"
  shows "wal_ok (NewWAL (wal_file w)) rs"
proof -
  have len: "unat (of_nat (length (wal_file w)) :: u64) = length (wal_file w)"
    using unat_of_nat_small(3)[OF assms(2)] .
  have "unat (currentLSN w) \<le> length (wal_file w)" using assms(1) unfolding wal_ok_def by blast
  then have "currentLSN w \<le> of_nat (length (wal_file w))" by (simp add: word_le_nat_alt len)
  with assms(1) len show ?thesis
    unfolding wal_ok_def NewWAL_def by (auto intro: order_trans)
qed

fun wal_op_ok :: "wal_op \<Rightarrow> bool" where
  "wal_op_ok (WalAppend r) = record_ok r"
| "wal_op_ok op = True"

lemma wal_file_grows: "length (wal_file w) \<le> length (wal_file (fold wal_exec ops w))"
proof (induction ops arbitrary: w)
  case (Cons op ops)
  have "length (wal_file w) \<le> length (wal_file (wal_exec op w))"
    by (cases op) (simp_all add: wal_Append_def wal_Checkpoint_def NewWAL_def Let_def)
  with Cons.IH[of "wal_exec op w"] show ?case by simp
qed simp

lemma wal_exec_ok:
  assumes "wal_ok w rs" "wal_op_ok op" "length (wal_file (wal_exec op w)) < 2 ^ 64"
  shows "\<exists>rs'. wal_ok (wal_exec op w) (rs @ rs') \<and> map (\<lambda>r. r\<lparr>lr_LSN := 0\<rparr>) rs' = wal_payload op"
proof (cases op)
  case (WalAppend r)
  with wal_ok_append[OF assms(1), of r] assms(2,3) show ?thesis
    by (intro exI[of _ "[r\<lparr>lr_LSN := currentLSN w + 1\<rparr>]"]) simp
next
  case WalCheckpoint
  let ?r = "\<lparr>lr_LSN = 0, lr_Type = 3, lr_TxnID = 0, lr_PageID = 0, lr_Data = [], lr_PrevLSN = 0\<rparr>"
  have "record_ok ?r" by (simp add: record_ok_def)
  with wal_ok_append[OF assms(1), of ?r] WalCheckpoint assms(3) show ?thesis
    by (intro exI[of _ "[?r\<lparr>lr_LSN := currentLSN w + 1\<rparr>]"]) (simp add: wal_Checkpoint_def)
next
  case WalReopen
  with wal_ok_reopen[OF assms(1)] assms(3) show ?thesis by (simp add: NewWAL_def)
qed

lemma wal_run_ok:
  assumes "wal_ok w rs" "list_all wal_op_ok ops" "length (wal_file (fold wal_exec ops w)) < 2 ^ 64"
  shows "\<exists>rs'. wal_ok (fold wal_exec ops w) (rs @ rs') \<and>
    map (\<lambda>r. r\<lparr>lr_LSN := 0\<rparr>) rs' = concat (map wal_payload ops)"
  using assms
proof (induction ops arbitrary: w rs)
  case (Cons op ops)
  have "length (wal_file (wal_exec op w)) < 2 ^ 64"
    using wal_file_grows[of "wal_exec op w" ops] Cons.prems(3) by simp
  with wal_exec_ok[OF Cons.prems(1)] Cons.prems(2) obtain r1 where
    r1: "wal_ok (wal_exec op w) (rs @ r1)" "map (\<lambda>r. r\<lparr>lr_LSN := 0\<rparr>) r1 = wal_payload op" by auto
  from Cons.IH[OF r1(1)] Cons.prems(2,3) obtain r2 where
    "wal_ok (fold wal_exec ops (wal_exec op w)) (rs @ r1 @ r2)"
    "map (\<lambda>r. r\<lparr>lr_LSN := 0\<rparr>) r2 = concat (map wal_payload ops)" by auto
  with r1 show ?case by (intro exI[of _ "r1 @ r2"]) simp
qed simp

lemma wal_ok_New: "wal_ok (NewWAL []) []"
  by (simp add: wal_ok_def NewWAL_def)


definition wal_history :: "wal_op list" where
  "wal_history = [WalAppend \<lparr>lr_LSN = 0, lr_Type = 0, lr_TxnID = 7, lr_PageID = 3, lr_Data = [1, 2], lr_PrevLSN = 0\<rparr>,
     WalReopen, WalCheckpoint]"


subsection \<open>Crashes in the middle of an append\<close>

lemma replay_partial:
  assumes "record_ok r" "p < length (serializeRecord r)"
  shows "Replay_loop (take p (serializeRecord r)) = (if p < 33 then Inr [] else Inl WalReadData)"
proof (cases "p < 33")
  case True
  then show ?thesis by (subst Replay_loop.simps) (simp add: replay_turn_def)
next
  case False
  let ?d = "of_nat (length (lr_Data r)) :: u32"
  have "read_at 29 4 (take p (serializeRecord r)) = le_bytes 4 ?d"
    using False serialize_fields(6)[of r "[]"] by (simp add: read_at_take)
  moreover have "length (lr_Data r) \<noteq> 0" using False assms(2) by auto
  then have "0 < ?d" using record_len(1)[OF assms(1)] by (simp only: word_less_nat_alt) simp
  moreover have "p - 33 < length (lr_Data r)" using False assms(2) by simp
  ultimately have "replay_turn (take p (serializeRecord r)) = ReplayError WalReadData"
    using False assms record_len[OF assms(1)]
    by (simp add: replay_turn_def Let_def read_at_take min_def)
  with False show ?thesis by (subst Replay_loop.simps) simp
qed

lemma replay_cut:
  assumes "\<forall>r \<in> set rs. record_ok r" "n \<le> length (concat (map serializeRecord rs))"
  shows "\<exists>k p. k \<le> length rs \<and> n = length (concat (map serializeRecord (take k rs))) + p \<and>
    (if k < length rs then p < length (serializeRecord (rs ! k)) else p = 0) \<and>
    Replay_loop (take n (concat (map serializeRecord rs))) = (if p < 33 then Inr (take k rs) else Inl WalReadData)"
  using assms
proof (induction rs arbitrary: n)
  case Nil
  then show ?case using wlog.read_all_Nil by simp
next
  case (Cons r rs)
  let ?e = "serializeRecord r"
  show ?case
  proof (cases "n < length ?e")
    case True
    then have "Replay_loop (take n (concat (map serializeRecord (r # rs)))) = (if n < 33 then Inr [] else Inl WalReadData)"
      using replay_partial[of r n] Cons.prems(1) by simp
    with True show ?thesis by (intro exI[of _ 0] exI[of _ n]) simp
  next
    case False
    let ?n = "n - length ?e"
    have "\<forall>r \<in> set rs. record_ok r" "?n \<le> length (concat (map serializeRecord rs))"
      using Cons.prems by (simp_all add: le_diff_conv add.commute)
    from Cons.IH[OF this] obtain k p where kp: "k \<le> length rs"
      "?n = length (concat (map serializeRecord (take k rs))) + p"
      "if k < length rs then p < length (serializeRecord (rs ! k)) else p = 0"
      "Replay_loop (take ?n (concat (map serializeRecord rs))) = (if p < 33 then Inr (take k rs) else Inl WalReadData)"
      by blast
    have "take n (concat (map serializeRecord (r # rs))) = concat (map serializeRecord [r]) @ take ?n (concat (map serializeRecord rs))"
      using False by simp
    then have "Replay_loop (take n (concat (map serializeRecord (r # rs)))) = (if p < 33 then Inr (r # take k rs) else Inl WalReadData)"
      using wlog.read_all_append[of "[r]"] kp(4) Cons.prems(1) by simp
    with kp False show ?thesis by (intro exI[of _ "Suc k"] exI[of _ p]) auto
  qed
qed

text \<open>
  Replay after a crash. Cut a log of complete records at any byte. If the cut falls on a
  record boundary or inside the 33-byte header of the record being written, \<^verbatim>\<open>Replay\<close> returns
  exactly the records before it; if it falls inside the record's data, \<^verbatim>\<open>Replay\<close> returns an error
  and none of the earlier records.
\<close>

theorem wal_replay_after_cut:
  assumes "\<forall>r \<in> set rs. record_ok r" "n \<le> length (concat (map serializeRecord rs))"
  shows "\<exists>k p. k \<le> length rs \<and> n = length (concat (map serializeRecord (take k rs))) + p \<and>
    (if k < length rs then p < length (serializeRecord (rs ! k)) else p = 0) \<and>
    Replay (NewWAL (take n (concat (map serializeRecord rs))))
      = (if p < 33 then Inr (take k rs) else Inl WalReadData)"
  using replay_cut[OF assms] by (simp add: Replay_def NewWAL_def)

definition cut_records :: "LogRecord list" where
  "cut_records = [\<lparr>lr_LSN = 1, lr_Type = 0, lr_TxnID = 7, lr_PageID = 3, lr_Data = [], lr_PrevLSN = 0\<rparr>,
     \<lparr>lr_LSN = 2, lr_Type = 1, lr_TxnID = 7, lr_PageID = 3, lr_Data = [5, 6], lr_PrevLSN = 0\<rparr>]"

theorem wal_replay_after_cut_witness:
  "Replay (NewWAL (take 67 (concat (map serializeRecord cut_records)))) = Inl WalReadData"
proof -
  have ok: "\<forall>r \<in> set cut_records. record_ok r" "67 \<le> length (concat (map serializeRecord cut_records))"
    by (simp_all add: cut_records_def record_ok_def)
  from wal_replay_after_cut[OF ok] obtain k p where kp: "k \<le> length cut_records"
    "67 = length (concat (map serializeRecord (take k cut_records))) + p"
    "if k < length cut_records then p < length (serializeRecord (cut_records ! k)) else p = 0"
    "Replay (NewWAL (take 67 (concat (map serializeRecord cut_records))))
      = (if p < 33 then Inr (take k cut_records) else Inl WalReadData)" by blast
  have "k = 0 \<or> k = 1 \<or> k = 2" using kp(1) by (auto simp: cut_records_def)
  then have "p \<ge> 33" using kp(2,3) by (auto simp: cut_records_def)
  with kp(4) show ?thesis by simp
qed

end
