(* ===== verification/StorageEngine.thy ===== *)
theory StorageEngine
  imports BufferPool Wal
begin

text \<open>
  \<^verbatim>\<open>pkg/storage/storage.go\<close>: the storage engine, which puts the buffer pool over the data file next to the
  write-ahead log and recovers from the log when it opens. The directory is the pair of the
  two files' bytes.
\<close>

subsection \<open>The engine\<close>

abbreviation (input) LogRecordInsert :: byte where "LogRecordInsert \<equiv> 0"
abbreviation (input) LogRecordUpdate :: byte where "LogRecordUpdate \<equiv> 1"

record StorageEngine =
  se_bufferPool :: BufferPool
  se_wal :: WAL
  se_isOpen :: bool

datatype engine_error = EngineWal wal_error | EnginePool pool_error | EngineClosed

text \<open>
  One record of the recovery loop: the page is fetched, its sequence number set, and it is unpinned
  dirty. \<^verbatim>\<open>FetchPage\<close> returns the page in the frame, so the assignment changes the frame.
\<close>

definition recover_record :: "LogRecord \<Rightarrow> BufferPool \<Rightarrow> (engine_error + unit) \<times> BufferPool" where
  "recover_record rec bp =
     (if lr_Type rec = LogRecordInsert \<or> lr_Type rec = LogRecordUpdate then
        case FetchPage (lr_PageID rec) bp of
          (Inl e, bp1) \<Rightarrow> (Inl (EnginePool e), bp1)
        | (Inr page, bp1) \<Rightarrow>
           (Inr (), snd (UnpinPage (lr_PageID rec) True
                      (set_frame (lr_PageID rec) (MarkDirty (page\<lparr>pg_LSN := lr_LSN rec\<rparr>)) bp1)))
      else (Inr (), bp))"

fun recover_loop :: "LogRecord list \<Rightarrow> BufferPool \<Rightarrow> (engine_error + unit) \<times> BufferPool" where
  "recover_loop [] bp = (Inr (), bp)"
| "recover_loop (rec # recs) bp =
     (case recover_record rec bp of
        (Inl e, bp1) \<Rightarrow> (Inl e, bp1)
      | (Inr _, bp1) \<Rightarrow> recover_loop recs bp1)"

definition recover :: "StorageEngine \<Rightarrow> (engine_error + unit) \<times> StorageEngine" where
  "recover se =
     (case Replay (se_wal se) of
        Inl e \<Rightarrow> (Inl (EngineWal e), se)
      | Inr records \<Rightarrow>
         if records = [] then (Inr (), se)
         else case recover_loop records (se_bufferPool se) of
           (Inl e, bp) \<Rightarrow> (Inl e, se\<lparr>se_bufferPool := bp\<rparr>)
         | (Inr _, bp) \<Rightarrow> (Inr (), se\<lparr>se_bufferPool := FlushAllPages bp\<rparr>))"

definition engine_Close :: "StorageEngine \<Rightarrow> StorageEngine" where
  "engine_Close se =
     (if \<not> se_isOpen se then se
      else se\<lparr>se_bufferPool := FlushAllPages (se_bufferPool se), se_isOpen := False\<rparr>)"

definition NewStorageEngine :: "bytes \<Rightarrow> bytes \<Rightarrow> int \<Rightarrow> (engine_error + unit) \<times> StorageEngine" where
  "NewStorageEngine dataFile walFile bufferPoolSize =
     (let engine = \<lparr>se_bufferPool = NewBufferPool bufferPoolSize (NewDiskManager dataFile),
                    se_wal = NewWAL walFile, se_isOpen = True\<rparr>
      in case recover engine of
           (Inl e, engine') \<Rightarrow> (Inl e, engine_Close engine')
         | (Inr _, engine') \<Rightarrow> (Inr (), engine'))"

definition engine_AllocatePage :: "StorageEngine \<Rightarrow> (engine_error + Page) \<times> StorageEngine" where
  "engine_AllocatePage se =
     (if \<not> se_isOpen se then (Inl EngineClosed, se)
      else case pool_NewPage (se_bufferPool se) of
        (Inl e, bp) \<Rightarrow> (Inl (EnginePool e), se\<lparr>se_bufferPool := bp\<rparr>)
      | (Inr p, bp) \<Rightarrow> (Inr p, se\<lparr>se_bufferPool := bp\<rparr>))"

definition engine_FetchPage :: "u32 \<Rightarrow> StorageEngine \<Rightarrow> (engine_error + Page) \<times> StorageEngine" where
  "engine_FetchPage pageID se =
     (if \<not> se_isOpen se then (Inl EngineClosed, se)
      else case FetchPage pageID (se_bufferPool se) of
        (Inl e, bp) \<Rightarrow> (Inl (EnginePool e), se\<lparr>se_bufferPool := bp\<rparr>)
      | (Inr p, bp) \<Rightarrow> (Inr p, se\<lparr>se_bufferPool := bp\<rparr>))"

definition engine_UnpinPage :: "u32 \<Rightarrow> bool \<Rightarrow> StorageEngine \<Rightarrow> (pool_error + unit) \<times> StorageEngine" where
  "engine_UnpinPage pageID isDirty se =
     (case UnpinPage pageID isDirty (se_bufferPool se) of (r, bp) \<Rightarrow> (r, se\<lparr>se_bufferPool := bp\<rparr>))"

definition engine_FlushPage :: "u32 \<Rightarrow> StorageEngine \<Rightarrow> (pool_error + unit) \<times> StorageEngine" where
  "engine_FlushPage pageID se =
     (case FlushPage pageID (se_bufferPool se) of (r, bp) \<Rightarrow> (r, se\<lparr>se_bufferPool := bp\<rparr>))"

definition engine_FlushAll :: "StorageEngine \<Rightarrow> StorageEngine" where
  "engine_FlushAll se = se\<lparr>se_bufferPool := FlushAllPages (se_bufferPool se)\<rparr>"

definition LogOperation :: "LogRecord \<Rightarrow> StorageEngine \<Rightarrow> u64 \<times> StorageEngine" where
  "LogOperation rec se = (case wal_Append rec (se_wal se) of (lsn, w) \<Rightarrow> (lsn, se\<lparr>se_wal := w\<rparr>))"

definition engine_Checkpoint :: "StorageEngine \<Rightarrow> StorageEngine" where
  "engine_Checkpoint se =
     se\<lparr>se_bufferPool := FlushAllPages (se_bufferPool se), se_wal := wal_Checkpoint (se_wal se)\<rparr>"

subsection \<open>Recovery\<close>

definition unpinned :: "BufferPool \<Rightarrow> bool" where
  "unpinned bp \<longleftrightarrow> (\<forall>q p. map_of (bp_pages bp) q = Some p \<longrightarrow> pg_PinCount p = 0)"

text \<open>With no page pinned, a fetch pins the fetched page once and no other.\<close>

lemma evictPage_frames:
  "evictPage bp = Inr bp' \<Longrightarrow> \<exists>q. bp_pages bp' = AList.delete q (bp_pages bp)"
  by (auto simp: evictPage_def split: sum.splits prod.splits)

lemma make_room_frames:
  "make_room bp = Inr bp' \<Longrightarrow> map_of (bp_pages bp') q = Some p \<Longrightarrow> map_of (bp_pages bp) q = Some p"
  by (auto simp: make_room_def split: if_splits dest!: evictPage_frames)

lemma FetchPage_pins:
  assumes un: "unpinned bp" and f: "FetchPage q bp = (Inr p, bp')"
  shows "map_of (bp_pages bp') q = Some p" "pg_PinCount p = 1"
    "r \<noteq> q \<Longrightarrow> map_of (bp_pages bp') r = Some s \<Longrightarrow> pg_PinCount s = 0" "bp_capacity bp' = bp_capacity bp"
proof -
  have "map_of (bp_pages bp') q = Some p \<and> pg_PinCount p = 1 \<and>
    (\<forall>r s. r \<noteq> q \<longrightarrow> map_of (bp_pages bp') r = Some s \<longrightarrow> pg_PinCount s = 0) \<and> bp_capacity bp' = bp_capacity bp"
  proof (cases "map_of (bp_pages bp) q")
    case (Some p0)
    then show ?thesis using f un by (auto simp: FetchPage_def unpinned_def Pin_def split: if_splits)
  next
    case None
    then obtain bp2 dm page where r: "make_room (bp\<lparr>bp_misses := bp_misses bp + 1\<rparr>) = Inr bp2"
        "ReadPage (bp_diskMgr bp2) q = Inr (page, dm)" "p = Pin page" "bp' = add_frame q page (bp2\<lparr>bp_diskMgr := dm\<rparr>)"
      using f by (auto simp: FetchPage_def Let_def split: sum.splits)
    have "pg_PinCount page = 0" using r(2) by (auto simp: ReadPage_def readPageInternal_eq)
    moreover have "pg_PinCount s = 0" if "map_of (bp_pages bp2) r = Some s" for r s
      using make_room_frames[OF r(1) that] un by (simp add: unpinned_def)
    moreover have "bp_capacity bp2 = bp_capacity bp"
      using r(1) by (auto simp: make_room_def evictPage_def split: if_splits sum.splits)
    ultimately show ?thesis using r(3,4) by (auto simp: add_frame_def Pin_def)
  qed
  then show "map_of (bp_pages bp') q = Some p" "pg_PinCount p = 1"
    "r \<noteq> q \<Longrightarrow> map_of (bp_pages bp') r = Some s \<Longrightarrow> pg_PinCount s = 0" "bp_capacity bp' = bp_capacity bp" by auto
qed

definition touches :: "LogRecord \<Rightarrow> u32 \<Rightarrow> bool" where
  "touches rec q \<longleftrightarrow> lr_PageID rec = q \<and> (lr_Type rec = LogRecordInsert \<or> lr_Type rec = LogRecordUpdate)"

definition with_lsn :: "LogRecord \<Rightarrow> u32 \<Rightarrow> Page \<Rightarrow> Page" where
  "with_lsn rec q p = (if touches rec q then p\<lparr>pg_LSN := lr_LSN rec\<rparr> else p)"

lemma clean_lsn: "clean (p\<lparr>pg_LSN := n\<rparr>) = (clean p)\<lparr>pg_LSN := n\<rparr>"
  by (simp add: clean_def)

lemma recover_record_ok:
  assumes inv: "pool_inv bp m" and un: "unpinned bp" and cap: "1 \<le> bp_capacity bp"
    and q: "touches rec (lr_PageID rec) \<Longrightarrow> view bp m (lr_PageID rec) \<noteq> None"
  shows "\<exists>bp' m'. recover_record rec bp = (Inr (), bp') \<and> pool_inv bp' m' \<and> unpinned bp' \<and>
    bp_capacity bp' = bp_capacity bp \<and> view bp' m' = (\<lambda>q. map_option (with_lsn rec q) (view bp m q))"
proof (cases "touches rec (lr_PageID rec)")
  case False
  then have "with_lsn rec q = (\<lambda>p. p)" for q by (auto simp: with_lsn_def touches_def)
  with False inv un show ?thesis
    by (intro exI[of _ bp] exI[of _ m]) (auto simp: recover_record_def touches_def map_option.identity)
next
  case True
  let ?q = "lr_PageID rec"
  from q[OF True] obtain c where c: "view bp m ?q = Some c" by auto
  have np: "\<not> all_pinned bp"
  proof
    assume "all_pinned bp"
    then have "int (length (bp_pages bp)) \<ge> 1" and ip: "\<And>q p. map_of (bp_pages bp) q = Some p \<Longrightarrow> IsPinned p"
      using cap by (auto simp: all_pinned_def)
    then obtain x where "x \<in> set (bp_pages bp)" by (cases "bp_pages bp") auto
    then obtain p where "map_of (bp_pages bp) (fst x) = Some p"
      using map_of_eq_None_iff[of "bp_pages bp" "fst x"] by (cases "map_of (bp_pages bp) (fst x)") auto
    with ip un show False by (auto simp: unpinned_def IsPinned_def)
  qed
  then obtain p bp1 m1 where f: "FetchPage ?q bp = (Inr p, bp1)" "clean p = c" "pool_inv bp1 m1" "view bp1 m1 = view bp m"
    using FetchPage_ok[OF inv c] by (auto simp: pool_shows_def)
  note pins = FetchPage_pins[OF un f(1)]
  let ?p = "MarkDirty (p\<lparr>pg_LSN := lr_LSN rec\<rparr>)"
  let ?b = "set_frame ?q ?p bp1"
  have fr: "frame_ok m1 ?q ?p" using pool_invD(5)[OF f(3) pins(1)] by (simp add: frame_ok_def page_ok_def MarkDirty_def)
  note sf = set_frame_ok[OF f(3) pins(1) fr]
  obtain m2 where u: "pool_inv (snd (UnpinPage ?q True ?b)) m2" "view (snd (UnpinPage ?q True ?b)) m2 = view ?b m1"
    using UnpinPage_ok[OF sf(1), of ?q True] by (auto simp: pool_shows_def)
  have un': "unpinned (snd (UnpinPage ?q True ?b))"
    using pins(2,3) unfolding unpinned_def
    by (auto simp: UnpinPage_def set_frame_def Unpin_def MarkDirty_def split: if_splits)
  have "bp_capacity (snd (UnpinPage ?q True ?b)) = bp_capacity bp"
    using pins(4) by (simp add: UnpinPage_def set_frame_def)
  moreover have "view ?b m1 = (\<lambda>r. map_option (with_lsn rec r) (view bp m r))"
  proof
    fix r show "view ?b m1 r = map_option (with_lsn rec r) (view bp m r)"
      using sf(2) f(2,4) c True by (cases "r = ?q") (auto simp: with_lsn_def touches_def clean_lsn map_option.identity map_option_case split: option.split)
  qed
  ultimately show ?thesis using f(1) u un' True
    by (intro exI[of _ "snd (UnpinPage ?q True ?b)"] exI[of _ m2]) (auto simp: recover_record_def touches_def)
qed

lemma recover_loop_ok:
  assumes "pool_inv bp m" "unpinned bp" "1 \<le> bp_capacity bp"
    and "\<And>rec. rec \<in> set recs \<Longrightarrow> touches rec (lr_PageID rec) \<Longrightarrow> view bp m (lr_PageID rec) \<noteq> None"
  shows "\<exists>bp' m'. recover_loop recs bp = (Inr (), bp') \<and> pool_inv bp' m' \<and>
    view bp' m' = (\<lambda>q. map_option (fold (\<lambda>rec. with_lsn rec q) recs) (view bp m q))"
  using assms
proof (induction recs arbitrary: bp m)
  case Nil
  then show ?case by (intro exI[of _ bp] exI[of _ m]) (simp add: map_option.identity)
next
  case (Cons rec recs)
  obtain bp1 m1 where r: "recover_record rec bp = (Inr (), bp1)" "pool_inv bp1 m1" "unpinned bp1"
      "bp_capacity bp1 = bp_capacity bp" "view bp1 m1 = (\<lambda>q. map_option (with_lsn rec q) (view bp m q))"
    using recover_record_ok[OF Cons.prems(1-3), of rec] Cons.prems(4) by auto
  obtain bp' m' where "recover_loop recs bp1 = (Inr (), bp')" "pool_inv bp' m'"
      "view bp' m' = (\<lambda>q. map_option (fold (\<lambda>rec. with_lsn rec q) recs) (view bp1 m1 q))"
    using Cons.IH[OF r(2,3)] r(4,5) Cons.prems(3,4) by fastforce
  with r show ?case by (intro exI[of _ bp'] exI[of _ m']) (simp add: option.map_comp o_def)
qed


definition sample_record :: LogRecord where
  "sample_record = \<lparr>lr_LSN = 5, lr_Type = LogRecordUpdate, lr_TxnID = 1, lr_PageID = 0, lr_Data = [7, 7], lr_PrevLSN = 0\<rparr>"

lemma Replay_one: "record_ok r \<Longrightarrow> Replay (NewWAL (serializeRecord r)) = Inr [r]"
  using wlog.read_all_concat[of "[r]"] by (simp add: Replay_def NewWAL_def)


lemma flush_one:
  "bp_pages bp = [(q, p)] \<Longrightarrow> pg_IsDirty p \<Longrightarrow> bp_diskMgr (FlushAllPages bp) = WritePage (bp_diskMgr bp) p"
  by (simp add: FlushAllPages_def flush_frame_def set_frame_def)

text \<open>
  C39. Recovery can destroy page 0. When the log has a record for a page that was allocated but lies in
  a gap of the data file, the page reads as an empty page with id 0; recovery stamps it and
  the final flush writes it over page 0, whose data is lost, while opening the
  engine reports success.
\<close>

theorem recovery_overwrites_page_0:
  assumes cap: "1 \<le> capacity" and gap: "on_disk file q" "file_page file q = NewPage 0 PageTypeData" "q \<noteq> 0"
    and log: "Replay (NewWAL walFile) = Inr [rec]" "touches rec q"
  shows "\<exists>se. NewStorageEngine file walFile capacity = (Inr (), se) \<and>
    file_page (dm_dataFile (bp_diskMgr (se_bufferPool se))) 0 = (NewPage 0 PageTypeData)\<lparr>pg_LSN := lr_LSN rec\<rparr>"
proof -
  let ?dm = "NewDiskManager file" and ?b = "NewBufferPool capacity (NewDiskManager file)"
  have fd: "dm_dataFile ?dm = file" by (simp add: NewDiskManager_def loadFreePageList_def Let_def)
  obtain dm where rd: "ReadPage ?dm q = Inr (NewPage 0 PageTypeData, dm)"
    using gap fd by (simp add: ReadPage_def readPageInternal_eq)
  define p where "p = (NewPage 0 PageTypeData)\<lparr>pg_LSN := lr_LSN rec, pg_IsDirty := True\<rparr>"
  have r: "lr_PageID rec = q" "lr_Type rec = 0 \<or> lr_Type rec = 1" using log(2) by (auto simp: touches_def)
  obtain bp where rr: "recover_record rec ?b = (Inr (), bp)" "bp_pages bp = [(q, p)]"
    using r rd cap
    by (auto simp: recover_record_def FetchPage_def make_room_def NewBufferPool_def add_frame_def UnpinPage_def set_frame_def
        Pin_def Unpin_def MarkDirty_def NewPage_def p_def)
  have "bp_diskMgr (FlushAllPages bp) = WritePage (bp_diskMgr bp) p"
    by (rule flush_one[OF rr(2)]) (simp add: p_def)
  moreover have "page_ok p" "pg_ID p = 0" by (simp_all add: p_def page_ok_def NewPage_def)
  ultimately have "file_page (dm_dataFile (bp_diskMgr (FlushAllPages bp))) 0 = clean p"
    using pstore.rd_written[of p "bp_diskMgr bp"] by simp
  moreover have "clean p = (NewPage 0 PageTypeData)\<lparr>pg_LSN := lr_LSN rec\<rparr>" by (simp add: p_def clean_def NewPage_def)
  ultimately show ?thesis using rr(1) log(1) by (simp add: NewStorageEngine_def recover_def Let_def)
qed

definition gapped_file :: bytes where
  "gapped_file = dm_dataFile (WritePage (WritePage (NewDiskManager []) (NewPage 0 PageTypeIndex)) (NewPage 2 PageTypeIndex))"

theorem recovery_overwrites_page_0_witness:
  "\<exists>se. NewStorageEngine gapped_file (serializeRecord (sample_record\<lparr>lr_PageID := 1\<rparr>)) 8 = (Inr (), se) \<and>
     file_page gapped_file 0 = NewPage 0 PageTypeIndex \<and>
     file_page (dm_dataFile (bp_diskMgr (se_bufferPool se))) 0 = (NewPage 0 PageTypeData)\<lparr>pg_LSN := 5\<rparr>"
proof -
  let ?r = "sample_record\<lparr>lr_PageID := 1\<rparr>" and ?dm = "WritePage (NewDiskManager []) (NewPage 0 PageTypeIndex)"
  have ids: "pg_ID (NewPage i t) = i" for i t by (simp add: NewPage_def)
  have len: "length (dm_dataFile ?dm) = 4096"
    by (simp add: WritePage_def writePageInternal_def length_file_WriteAt NewDiskManager_def ids)
  have g: "file_page gapped_file 1 = NewPage 0 PageTypeData" "on_disk gapped_file 1"
    using file_page_gap[of ?dm 1 "NewPage 2 PageTypeIndex"] len
    by (simp_all add: gapped_file_def WritePage_def ids on_disk_def) (simp add: writePageInternal_def length_file_WriteAt ids)
  have z: "file_page gapped_file 0 = NewPage 0 PageTypeIndex"
    using pstore.rd_written[OF page_ok_NewPage, of "NewDiskManager []" 0 PageTypeIndex]
      pstore.rd_other[of ?dm 0 "NewPage 2 PageTypeIndex"]
    by (simp add: gapped_file_def ids) (simp add: clean_def NewPage_def)
  have log: "Replay (NewWAL (serializeRecord ?r)) = Inr [?r]"
    by (rule Replay_one) (simp add: record_ok_def sample_record_def)
  have "touches ?r 1" by (simp add: touches_def sample_record_def)
  from recovery_overwrites_page_0[OF _ g(2,1) _ log this, of 8] z show ?thesis by (simp add: sample_record_def)
qed

end
