(* ===== verification/TtlIndex.thy ===== *)
theory TtlIndex
  imports Prelude
begin

text \<open>
  \<^verbatim>\<open>pkg/index/ttl_index.go\<close>: the expiry time of each document. A \<^verbatim>\<open>time.Time\<close> is its number of nanoseconds, a
  \<^verbatim>\<open>time.Duration\<close> a 64-bit word read as signed; the Go map is an association list, and the order in which it is iterated is
  the order of that list.
\<close>

record TTLIndex =
  ttl_name :: string
  ttl_fieldPath :: string
  ttl_ttlSeconds :: u64
  ttl_expirationTimes :: "(string \<times> int) list"

definition NewTTLIndex :: "string \<Rightarrow> string \<Rightarrow> u64 \<Rightarrow> TTLIndex" where
  "NewTTLIndex name fieldPath secs = \<lparr>ttl_name = name, ttl_fieldPath = fieldPath, ttl_ttlSeconds = secs, ttl_expirationTimes = []\<rparr>"

definition ttl_Index :: "string \<Rightarrow> int \<Rightarrow> TTLIndex \<Rightarrow> TTLIndex" where
  "ttl_Index docID timestamp idx =
     (let expirationTime = timestamp + sint (ttl_ttlSeconds idx * 1000000000)
      in idx\<lparr>ttl_expirationTimes := AList.update docID expirationTime (ttl_expirationTimes idx)\<rparr>)"

definition ttl_Remove :: "string \<Rightarrow> TTLIndex \<Rightarrow> TTLIndex" where
  "ttl_Remove docID idx = idx\<lparr>ttl_expirationTimes := AList.delete docID (ttl_expirationTimes idx)\<rparr>"

definition GetExpiredDocuments :: "int \<Rightarrow> TTLIndex \<Rightarrow> string list" where
  "GetExpiredDocuments currentTime idx = map fst (filter (\<lambda>(docID, expirationTime). currentTime > expirationTime) (ttl_expirationTimes idx))"

definition ttl_Count :: "TTLIndex \<Rightarrow> int" where
  "ttl_Count idx = int (length (ttl_expirationTimes idx))"

definition GetExpirationTime :: "string \<Rightarrow> TTLIndex \<Rightarrow> int option" where
  "GetExpirationTime docID idx = map_of (ttl_expirationTimes idx) docID"

subsection \<open>Runs\<close>

datatype ttl_op = TtlIndexDoc string int | TtlRemove string

fun ttl_step :: "ttl_op \<Rightarrow> TTLIndex \<Rightarrow> TTLIndex" where
  "ttl_step (TtlIndexDoc d ts) idx = ttl_Index d ts idx"
| "ttl_step (TtlRemove d) idx = ttl_Remove d idx"

text \<open>The timestamp a document was last indexed with, unless it was removed since.\<close>

definition ttl_live :: "ttl_op list \<Rightarrow> string \<Rightarrow> int option" where
  "ttl_live xs d = foldl (\<lambda>t x. case x of TtlIndexDoc d' ts \<Rightarrow> if d' = d then Some ts else t | TtlRemove d' \<Rightarrow> if d' = d then None else t) None xs"

lemma seconds_to_duration:
  assumes "- 9223372036 \<le> sint w" "sint w \<le> 9223372036"
  shows "sint (w * 1000000000 :: u64) = sint w * 1000000000"
proof -
  have "sint (w * 1000000000 :: u64) = signed_take_bit 63 (sint w * sint (1000000000 :: u64))"
    by (simp add: sint_word_ariths)
  also have "sint (1000000000 :: u64) = 1000000000" by (simp add: signed_take_bit_int_eq_self)
  also have "signed_take_bit 63 (sint w * 1000000000) = sint w * 1000000000"
    by (rule signed_take_bit_int_eq_self) (use assms in simp_all)
  finally show ?thesis .
qed

lemma ttl_run_aux:
  "wf_map (ttl_expirationTimes (fold ttl_step xs (NewTTLIndex name fp secs))) \<and>
   ttl_ttlSeconds (fold ttl_step xs (NewTTLIndex name fp secs)) = secs \<and>
   map_of (ttl_expirationTimes (fold ttl_step xs (NewTTLIndex name fp secs))) d = map_option (\<lambda>t. t + sint (secs * 1000000000)) (ttl_live xs d)"
proof (induction xs rule: rev_induct)
  case Nil then show ?case by (simp add: NewTTLIndex_def ttl_live_def)
next
  case (snoc x xs)
  then show ?case
    by (cases x) (auto simp: ttl_Index_def ttl_Remove_def ttl_live_def update_conv' delete_conv' Let_def)
qed

lemmas ttl_run = conjunct1[OF ttl_run_aux] conjunct2[OF conjunct2[OF ttl_run_aux]]

text \<open>
  C30. After any run of \<open>Index\<close> and \<open>Remove\<close> calls, with a time to live of at most 9,223,372,036 seconds in either direction,
  \<open>GetExpiredDocuments\<close> returns, once each, exactly the documents whose last timestamp, since their last removal, lies more
  than the time to live in the past.
\<close>

theorem ttl_expired_exact:
  assumes "- 9223372036 \<le> sint secs" "sint secs \<le> 9223372036"
  shows "distinct (GetExpiredDocuments now (fold ttl_step xs (NewTTLIndex name fp secs))) \<and>
    set (GetExpiredDocuments now (fold ttl_step xs (NewTTLIndex name fp secs))) =
      {d. \<exists>t. ttl_live xs d = Some t \<and> t + sint secs * 1000000000 < now}"
proof -
  let ?m = "ttl_expirationTimes (fold ttl_step xs (NewTTLIndex name fp secs))"
  have wf: "wf_map ?m" by (rule ttl_run(1))
  have "(d, e) \<in> set ?m \<longleftrightarrow> map_option (\<lambda>t. t + sint secs * 1000000000) (ttl_live xs d) = Some e" for d e
    using map_of_wf_mem[OF wf, of d e] ttl_run(2)[of xs name fp secs d] seconds_to_duration[OF assms] by simp
  then show ?thesis using wf by (force simp: GetExpiredDocuments_def wf_map_def distinct_map_filter)
qed

theorem ttl_expired_exact_witness:
  "set (GetExpiredDocuments 2000000000 (fold ttl_step [TtlIndexDoc ''a'' 0, TtlIndexDoc ''b'' 1500000000, TtlIndexDoc ''c'' 0, TtlRemove ''c'']
     (NewTTLIndex ''t'' ''at'' 1))) = {''a''}"
proof -
  have "- 9223372036 \<le> sint (1 :: u64)" "sint (1 :: u64) \<le> 9223372036" by simp_all
  from conjunct2[OF ttl_expired_exact[OF this, of 2000000000 "[TtlIndexDoc ''a'' 0, TtlIndexDoc ''b'' 1500000000, TtlIndexDoc ''c'' 0, TtlRemove ''c'']" "''t''" "''at''"]]
  show ?thesis by (auto simp: ttl_live_def split: if_splits)
qed

text \<open>A longer time to live overflows the duration: the document counts as expired from the start.\<close>

lemma ttl_overflow:
  "GetExpirationTime d (ttl_Index d ts (NewTTLIndex name fp 9223372037)) = Some (ts - 9223372036709551616)"
  by (simp add: GetExpirationTime_def ttl_Index_def NewTTLIndex_def Let_def signed_take_bit_int_eq_self_iff)

end
