(* ===== verification/KeyOrder.thy ===== *)
theory KeyOrder
  imports Document
begin

text \<open>
  Index keys: \<^verbatim>\<open>pkg/index/composite_key.go\<close> and \<^verbatim>\<open>BTree.compare\<close> of \<^verbatim>\<open>btree.go\<close>. A key is a value or a
  composite of values. Neither comparison orders values of different types (they count as
  equal), so the trees rely on keys of one kind: the locale \<open>key_order\<close> is what they need of a
  comparison on a set of keys, and it is interpreted for each kind of key the
  source compares.
\<close>

subsection \<open>Comparison of numbers\<close>

text \<open>
  Go's \<open><\<close> on the two's complement integers, and on \<^verbatim>\<open>float64\<close> by their bit patterns: a NaN is not
  below anything, the two zeros are equal, and otherwise sign and magnitude decide.
\<close>

definition cmp3 :: "'a::linorder \<Rightarrow> 'a \<Rightarrow> int" where
  "cmp3 a b = (if a < b then -1 else if a > b then 1 else 0)"

definition f64_nan :: "u64 \<Rightarrow> bool" where
  "f64_nan w \<longleftrightarrow> w AND 0x7FFFFFFFFFFFFFFF > 0x7FF0000000000000"

definition f64_rank :: "u64 \<Rightarrow> int" where
  "f64_rank w = (if bit w 63 then - uint (w AND 0x7FFFFFFFFFFFFFFF) else uint (w AND 0x7FFFFFFFFFFFFFFF))"

definition f64_less :: "u64 \<Rightarrow> u64 \<Rightarrow> bool" where
  "f64_less a b \<longleftrightarrow> \<not> f64_nan a \<and> \<not> f64_nan b \<and> f64_rank a < f64_rank b"

definition f64_cmp :: "u64 \<Rightarrow> u64 \<Rightarrow> int" where
  "f64_cmp a b = (if f64_less a b then -1 else if f64_less b a then 1 else 0)"

subsection \<open>compareValues and CompositeKey\<close>

definition bool_cmp :: "bool \<Rightarrow> bool \<Rightarrow> int" where
  "bool_cmp a b = (if a = b then 0 else if \<not> a \<and> b then -1 else 1)"

definition same_type_cmp :: "gval \<Rightarrow> gval \<Rightarrow> int" where
  "same_type_cmp a b =
     (case a of
        GInt x \<Rightarrow> (case b of GInt y \<Rightarrow> cmp3 (sint x) (sint y) | _ \<Rightarrow> 0)
      | GInt64 x \<Rightarrow> (case b of GInt64 y \<Rightarrow> cmp3 (sint x) (sint y) | GInt y \<Rightarrow> cmp3 (sint x) (sint y) | _ \<Rightarrow> 0)
      | GInt32 x \<Rightarrow> (case b of GInt32 y \<Rightarrow> cmp3 (sint x) (sint y) | _ \<Rightarrow> 0)
      | GFloat64 x \<Rightarrow> (case b of GFloat64 y \<Rightarrow> f64_cmp x y | _ \<Rightarrow> 0)
      | GString x \<Rightarrow> (case b of GString y \<Rightarrow> bytes_compare (str_bytes x) (str_bytes y) | _ \<Rightarrow> 0)
      | GBytes x \<Rightarrow> (case b of GBytes y \<Rightarrow> bytes_compare x y | _ \<Rightarrow> 0)
      | GObjectID x \<Rightarrow> (case b of GObjectID y \<Rightarrow> bytes_compare x y | _ \<Rightarrow> 0)
      | GBool x \<Rightarrow> (case b of GBool y \<Rightarrow> bool_cmp x y | _ \<Rightarrow> 0)
      | _ \<Rightarrow> 0)"

definition compareValues :: "gval \<Rightarrow> gval \<Rightarrow> int" where
  "compareValues a b =
     (if a = GNil \<and> b = GNil then 0
      else if a = GNil then -1
      else if b = GNil then 1
      else same_type_cmp a b)"

fun composite_Compare :: "gval list \<Rightarrow> gval list \<Rightarrow> int" where
  "composite_Compare [] [] = 0"
| "composite_Compare [] (_ # _) = -1"
| "composite_Compare (_ # _) [] = 1"
| "composite_Compare (a # as) (b # bs) =
     (if compareValues a b \<noteq> 0 then compareValues a b else composite_Compare as bs)"

fun MatchesPrefix :: "gval list \<Rightarrow> gval list \<Rightarrow> bool" where
  "MatchesPrefix vs [] = True"
| "MatchesPrefix [] (p # ps) = False"
| "MatchesPrefix (v # vs) (p # ps) = (compareValues v p = 0 \<and> MatchesPrefix vs ps)"

subsection \<open>BTree.compare\<close>

datatype ikey = KVal gval | KComposite "gval list"

definition val_compare :: "gval \<Rightarrow> gval \<Rightarrow> int" where
  "val_compare a b =
     (case a of
        GInt64 x \<Rightarrow> (case b of GInt64 y \<Rightarrow> cmp3 (sint x) (sint y) | _ \<Rightarrow> 0)
      | GInt32 x \<Rightarrow> (case b of GInt32 y \<Rightarrow> cmp3 (sint x) (sint y) | _ \<Rightarrow> 0)
      | GFloat64 x \<Rightarrow> (case b of GFloat64 y \<Rightarrow> f64_cmp x y | _ \<Rightarrow> 0)
      | GString x \<Rightarrow> (case b of GString y \<Rightarrow> bytes_compare (str_bytes x) (str_bytes y) | _ \<Rightarrow> 0)
      | GBytes x \<Rightarrow> (case b of GBytes y \<Rightarrow> bytes_compare x y | _ \<Rightarrow> 0)
      | GObjectID x \<Rightarrow> (case b of GObjectID y \<Rightarrow> bytes_compare x y | _ \<Rightarrow> 0)
      | _ \<Rightarrow> 0)"

fun bt_compare :: "ikey \<Rightarrow> ikey \<Rightarrow> int" where
  "bt_compare (KComposite a) (KComposite b) = composite_Compare a b"
| "bt_compare (KVal a) (KVal b) = val_compare a b"
| "bt_compare _ _ = 0"

subsection \<open>Interface: a comparison that orders a set of keys\<close>

locale key_order =
  fixes cmp :: "'k \<Rightarrow> 'k \<Rightarrow> int"
    and K :: "'k set"
  assumes cmp_eq: "a \<in> K \<Longrightarrow> b \<in> K \<Longrightarrow> cmp a b = 0 \<longleftrightarrow> a = b"
    and cmp_flip: "a \<in> K \<Longrightarrow> b \<in> K \<Longrightarrow> cmp b a = - cmp a b"
    and cmp_trans: "a \<in> K \<Longrightarrow> b \<in> K \<Longrightarrow> c \<in> K \<Longrightarrow> cmp a b < 0 \<Longrightarrow> cmp b c < 0 \<Longrightarrow> cmp a c < 0"
begin

lemma cmp_refl: "a \<in> K \<Longrightarrow> cmp a a = 0"
  by (simp add: cmp_eq)

lemma cmp_pos: "a \<in> K \<Longrightarrow> b \<in> K \<Longrightarrow> 0 < cmp a b \<longleftrightarrow> cmp b a < 0"
  using cmp_flip[of a b] by linarith

lemma cmp_not_less: "a \<in> K \<Longrightarrow> b \<in> K \<Longrightarrow> \<not> cmp a b < 0 \<longleftrightarrow> cmp b a \<le> 0"
  using cmp_flip[of a b] by linarith

lemma cmp_less_le:
  assumes "a \<in> K" "b \<in> K" "c \<in> K" "cmp a b < 0" "cmp b c \<le> 0" shows "cmp a c < 0"
  using assms(4,5) cmp_eq[OF assms(2,3)] cmp_trans[OF assms(1-4)] by (cases "b = c") auto

lemma cmp_le_less:
  assumes "a \<in> K" "b \<in> K" "c \<in> K" "cmp a b \<le> 0" "cmp b c < 0" shows "cmp a c < 0"
  using assms(4,5) cmp_eq[OF assms(1,2)] cmp_trans[OF assms(1-3)] by (cases "a = b") auto

lemma cmp_le_trans:
  assumes "a \<in> K" "b \<in> K" "c \<in> K" "cmp a b \<le> 0" "cmp b c \<le> 0" shows "cmp a c \<le> 0"
  using assms(4,5) cmp_eq[OF assms(1,2)] cmp_less_le[OF assms(1-3)] by (cases "a = b") auto

end

text \<open>Comparing a component of keys, with the rest of the keys' shape fixed.\<close>

lemma cmp3_laws: "cmp3 a b = 0 \<longleftrightarrow> a = b" "cmp3 b a = - cmp3 a b" "cmp3 a b < 0 \<Longrightarrow> cmp3 b c < 0 \<Longrightarrow> cmp3 a c < 0"
  by (auto simp: cmp3_def split: if_splits)

lemma bool_cmp_laws: "bool_cmp a b = 0 \<longleftrightarrow> a = b" "bool_cmp b a = - bool_cmp a b"
  "bool_cmp a b < 0 \<Longrightarrow> bool_cmp b c < 0 \<Longrightarrow> bool_cmp a c < 0"
  by (auto simp: bool_cmp_def split: if_splits)

text \<open>The patterns of \<^verbatim>\<open>float64\<close> that are ordered by value: no NaN, and one of the two zeros.\<close>

definition f64_plain :: "u64 \<Rightarrow> bool" where
  "f64_plain w \<longleftrightarrow> \<not> f64_nan w \<and> w \<noteq> 0x8000000000000000"

lemma f64_masks:
  assumes "n < 64"
  shows "bit (0x7FFFFFFFFFFFFFFF :: u64) n \<longleftrightarrow> n < 63" "bit (0x8000000000000000 :: u64) n \<longleftrightarrow> n = 63"
proof -
  have "bit (mask 63 :: u64) n \<longleftrightarrow> n < 63" using assms by (simp add: bit_mask_iff)
  then show "bit (0x7FFFFFFFFFFFFFFF :: u64) n \<longleftrightarrow> n < 63" by (simp add: mask_eq_exp_minus_1)
  have "bit (2 ^ 63 :: u64) n \<longleftrightarrow> n = 63" using assms unfolding bit_exp_iff by auto
  then show "bit (0x8000000000000000 :: u64) n \<longleftrightarrow> n = 63" by simp
qed

lemma f64_split: "(w :: u64) = (w AND 0x7FFFFFFFFFFFFFFF) OR (if bit w 63 then 0x8000000000000000 else 0)"
proof (rule bit_word_eqI)
  fix n assume "n < LENGTH(64)"
  then have n: "n < 64" by simp
  show "bit w n = bit ((w AND 0x7FFFFFFFFFFFFFFF) OR (if bit w 63 then 0x8000000000000000 else 0)) n"
  proof (cases "bit w 63")
    case True
    then show ?thesis using n f64_masks[OF n] by (cases "n = 63") (simp_all add: bit_or_iff bit_and_iff)
  next
    case False
    then show ?thesis using n f64_masks[OF n] by (cases "n = 63") (simp_all add: bit_and_iff)
  qed
qed

lemma sign_magnitude_inj:
  "0 \<le> x \<Longrightarrow> 0 \<le> y \<Longrightarrow> (a \<Longrightarrow> 0 < x) \<Longrightarrow> (b \<Longrightarrow> 0 < y) \<Longrightarrow>
   (if a then - x else x) = (if b then - y else (y :: int)) \<Longrightarrow> x = y \<and> a = b"
  by (cases a; cases b) auto

lemma f64_rank_inj:
  assumes "f64_plain a" "f64_plain b" "f64_rank a = f64_rank b" shows "a = b"
proof -
  let ?m = "\<lambda>w :: u64. w AND 0x7FFFFFFFFFFFFFFF"
  have nz: "uint (?m w) > 0" if "f64_plain w" "bit w 63" for w
  proof (rule ccontr)
    assume "\<not> uint (?m w) > 0"
    moreover have "0 \<le> uint (?m w)" by simp
    ultimately have "uint (?m w) = 0" by linarith
    then have "?m w = 0" by (simp add: word_uint_eq_iff)
    with f64_split[of w] that show False by (simp add: f64_plain_def)
  qed
  have eq: "uint (?m a) = uint (?m b) \<and> bit a 63 = bit b 63"
    by (rule sign_magnitude_inj[OF _ _ nz[OF assms(1)] nz[OF assms(2)] assms(3)[unfolded f64_rank_def]]) simp_all
  then have "?m a = ?m b" by (simp add: word_uint_eq_iff)
  with eq f64_split[of a] f64_split[of b] show ?thesis by simp
qed

lemma f64_cmp_rank: "f64_plain a \<Longrightarrow> f64_plain b \<Longrightarrow> f64_cmp a b = cmp3 (f64_rank a) (f64_rank b)"
  by (simp add: f64_cmp_def f64_less_def f64_plain_def cmp3_def)

lemma f64_cmp_laws:
  assumes "f64_plain a" "f64_plain b"
  shows "f64_cmp a b = 0 \<longleftrightarrow> a = b" "f64_cmp b a = - f64_cmp a b"
    "f64_plain c \<Longrightarrow> f64_cmp a b < 0 \<Longrightarrow> f64_cmp b c < 0 \<Longrightarrow> f64_cmp a c < 0"
proof -
  show "f64_cmp a b = 0 \<longleftrightarrow> a = b" using f64_rank_inj[OF assms] assms by (auto simp: f64_cmp_rank cmp3_laws(1))
  show "f64_cmp b a = - f64_cmp a b" unfolding f64_cmp_rank[OF assms] f64_cmp_rank[OF assms(2,1)] by (rule cmp3_laws(2))
  show "f64_plain c \<Longrightarrow> f64_cmp a b < 0 \<Longrightarrow> f64_cmp b c < 0 \<Longrightarrow> f64_cmp a c < 0"
    using assms by (simp add: f64_cmp_rank cmp3_laws(3)[of "f64_rank a" "f64_rank b"])
qed

subsection \<open>The kinds of keys the trees order\<close>

datatype key_kind = KInt64 | KInt32 | KFloat64 | KString | KBytes | KObjectID

fun of_kind :: "key_kind \<Rightarrow> gval \<Rightarrow> bool" where
  "of_kind KInt64 v = (case v of GInt64 _ \<Rightarrow> True | _ \<Rightarrow> False)"
| "of_kind KInt32 v = (case v of GInt32 _ \<Rightarrow> True | _ \<Rightarrow> False)"
| "of_kind KFloat64 v = (case v of GFloat64 w \<Rightarrow> f64_plain w | _ \<Rightarrow> False)"
| "of_kind KString v = (case v of GString _ \<Rightarrow> True | _ \<Rightarrow> False)"
| "of_kind KBytes v = (case v of GBytes _ \<Rightarrow> True | _ \<Rightarrow> False)"
| "of_kind KObjectID v = (case v of GObjectID _ \<Rightarrow> True | _ \<Rightarrow> False)"

definition keys_of :: "key_kind \<Rightarrow> ikey set" where
  "keys_of k = KVal ` Collect (of_kind k)"

lemmas compare_laws = cmp3_laws f64_cmp_laws bool_cmp_laws bytes_compare_eq bytes_compare_trans

lemma sint_inj: "sint (a :: 'a::len word) = sint b \<longleftrightarrow> a = b"
  using signed_word_eqI by blast

lemma of_kind_iff:
  "of_kind KInt64 v \<longleftrightarrow> (\<exists>x. v = GInt64 x)" "of_kind KInt32 v \<longleftrightarrow> (\<exists>y. v = GInt32 y)"
  "of_kind KFloat64 v \<longleftrightarrow> (\<exists>x. v = GFloat64 x \<and> f64_plain x)" "of_kind KString v \<longleftrightarrow> (\<exists>s. v = GString s)"
  "of_kind KBytes v \<longleftrightarrow> (\<exists>b. v = GBytes b)" "of_kind KObjectID v \<longleftrightarrow> (\<exists>b. v = GObjectID b)"
  by (simp_all split: gval.split)

declare of_kind.simps [simp del]

lemma val_compare_eq: "of_kind k a \<Longrightarrow> of_kind k b \<Longrightarrow> val_compare a b = 0 \<longleftrightarrow> a = b"
  by (cases k) (auto simp: of_kind_iff val_compare_def cmp3_laws(1) sint_inj f64_cmp_laws(1))

lemma val_compare_flip: "of_kind k a \<Longrightarrow> of_kind k b \<Longrightarrow> val_compare b a = - val_compare a b"
  by (cases k; clarsimp simp: of_kind_iff val_compare_def;
      (rule cmp3_laws(2) bytes_compare_flip | rule f64_cmp_laws(2); assumption))

lemma val_compare_trans:
  "of_kind k a \<Longrightarrow> of_kind k b \<Longrightarrow> of_kind k c \<Longrightarrow> val_compare a b < 0 \<Longrightarrow> val_compare b c < 0 \<Longrightarrow> val_compare a c < 0"
  by (cases k; clarsimp simp: of_kind_iff val_compare_def;
      (erule (1) cmp3_laws(3) bytes_compare_trans | erule (4) f64_cmp_laws(3)))

interpretation vkeys: key_order bt_compare "keys_of k" for k
proof unfold_locales
  fix a b c assume "a \<in> keys_of k" "b \<in> keys_of k"
  then show "bt_compare a b = 0 \<longleftrightarrow> a = b" "bt_compare b a = - bt_compare a b"
    by (auto simp: keys_of_def val_compare_eq intro: val_compare_flip)
next
  fix a b c assume "a \<in> keys_of k" "b \<in> keys_of k" "c \<in> keys_of k" "bt_compare a b < 0" "bt_compare b c < 0"
  then show "bt_compare a c < 0" by (auto simp: keys_of_def intro: val_compare_trans)
qed

text \<open>Components of a composite key: null, or a value of the kind of its field.\<close>

datatype comp_kind = CInt | CBool | CKey key_kind

fun of_comp :: "comp_kind \<Rightarrow> gval \<Rightarrow> bool" where
  "of_comp CInt v \<longleftrightarrow> (\<exists>x. v = GInt x)"
| "of_comp CBool v \<longleftrightarrow> (\<exists>b. v = GBool b)"
| "of_comp (CKey k) v \<longleftrightarrow> of_kind k v"

fun of_shape :: "comp_kind list \<Rightarrow> gval list \<Rightarrow> bool" where
  "of_shape ts [] \<longleftrightarrow> True"
| "of_shape [] (v # vs) \<longleftrightarrow> False"
| "of_shape (t # ts) (v # vs) \<longleftrightarrow> (v = GNil \<or> of_comp t v) \<and> of_shape ts vs"

lemma of_kind_not_nil [simp]: "\<not> of_kind k GNil"
  by (cases k) (simp_all add: of_kind_iff)

lemma of_comp_not_nil [simp]: "\<not> of_comp t GNil"
  by (cases t) simp_all

lemma same_type_cmp_key: "of_kind k a \<Longrightarrow> of_kind k b \<Longrightarrow> same_type_cmp a b = val_compare a b"
  by (cases k) (auto simp: of_kind_iff same_type_cmp_def val_compare_def)

lemma same_type_cmp_laws:
  assumes "of_comp t a" "of_comp t b"
  shows "same_type_cmp a b = 0 \<longleftrightarrow> a = b" "same_type_cmp b a = - same_type_cmp a b"
    "of_comp t c \<Longrightarrow> same_type_cmp a b < 0 \<Longrightarrow> same_type_cmp b c < 0 \<Longrightarrow> same_type_cmp a c < 0"
proof -
  show "same_type_cmp a b = 0 \<longleftrightarrow> a = b"
    using assms by (cases t) (auto simp: same_type_cmp_key val_compare_eq, auto simp: same_type_cmp_def cmp3_laws(1) sint_inj bool_cmp_laws(1))
  show "same_type_cmp b a = - same_type_cmp a b"
  proof (cases t)
    case (CKey k)
    with assms val_compare_flip[of k a b] show ?thesis by (simp add: same_type_cmp_key)
  next
    case CInt
    with assms show ?thesis by (clarsimp simp: same_type_cmp_def) (rule cmp3_laws(2))
  next
    case CBool
    with assms show ?thesis by (clarsimp simp: same_type_cmp_def) (rule bool_cmp_laws(2))
  qed
  show "same_type_cmp a c < 0" if "of_comp t c" "same_type_cmp a b < 0" "same_type_cmp b c < 0"
  proof (cases t)
    case (CKey k)
    with assms that val_compare_trans[of k a b c] show ?thesis by (simp add: same_type_cmp_key)
  next
    case CInt
    with assms that show ?thesis by (clarsimp simp: same_type_cmp_def) (erule (1) cmp3_laws(3))
  next
    case CBool
    with assms that show ?thesis by (clarsimp simp: same_type_cmp_def) (erule (1) bool_cmp_laws(3))
  qed
qed

abbreviation (input) null_or :: "comp_kind \<Rightarrow> gval \<Rightarrow> bool" where
  "null_or t v \<equiv> v = GNil \<or> of_comp t v"

lemma compareValues_laws:
  assumes "null_or t a" "null_or t b"
  shows "compareValues a b = 0 \<longleftrightarrow> a = b" "compareValues b a = - compareValues a b"
    "null_or t c \<Longrightarrow> compareValues a b < 0 \<Longrightarrow> compareValues b c < 0 \<Longrightarrow> compareValues a c < 0"
proof -
  show "compareValues a b = 0 \<longleftrightarrow> a = b"
    using assms same_type_cmp_laws(1)[of t a b] by (auto simp: compareValues_def)
  show "compareValues b a = - compareValues a b"
    using assms same_type_cmp_laws(2)[of t a b] by (auto simp: compareValues_def)
  show "null_or t c \<Longrightarrow> compareValues a b < 0 \<Longrightarrow> compareValues b c < 0 \<Longrightarrow> compareValues a c < 0"
    using assms same_type_cmp_laws(3)[of t a b c] by (auto simp: compareValues_def split: if_splits)
qed

lemma composite_eq: "of_shape ts a \<Longrightarrow> of_shape ts b \<Longrightarrow> composite_Compare a b = 0 \<longleftrightarrow> a = b"
proof (induction ts a arbitrary: b rule: of_shape.induct)
  case (3 t ts v vs)
  show ?case
  proof (cases b)
    case (Cons w ws)
    with 3 compareValues_laws(1)[of v t w] show ?thesis by auto
  qed (use 3 in simp)
qed (case_tac b; simp)+

lemma composite_flip: "of_shape ts a \<Longrightarrow> of_shape ts b \<Longrightarrow> composite_Compare b a = - composite_Compare a b"
proof (induction ts a arbitrary: b rule: of_shape.induct)
  case (3 t ts v vs)
  show ?case
  proof (cases b)
    case (Cons w ws)
    with 3 compareValues_laws(2)[of v t w] show ?thesis by auto
  qed (use 3 in simp)
qed (case_tac b; simp)+

lemma composite_trans:
  "of_shape ts a \<Longrightarrow> of_shape ts b \<Longrightarrow> of_shape ts c \<Longrightarrow> composite_Compare a b < 0 \<Longrightarrow> composite_Compare b c < 0 \<Longrightarrow>
   composite_Compare a c < 0"
proof (induction ts a arbitrary: b c rule: of_shape.induct)
  case (1 ts)
  then show ?case by (cases b; cases c) simp_all
next
  case (3 t ts v vs)
  obtain w ws x xs where b: "b = w # ws" "c = x # xs" using 3(5,6) by (cases b; cases c) (auto split: if_splits)
  then have n: "null_or t v" "null_or t w" "null_or t x" using 3(2-4) by auto
  show ?case
  proof (cases "v = w")
    case True
    then have "compareValues v w = 0" using compareValues_laws(1)[OF n(1,2)] by simp
    then have "composite_Compare vs ws < 0" using 3(5) b by simp
    with 3(1)[of ws xs] 3(2-4,6) b True show ?thesis by (simp split: if_splits)
  next
    case False
    then have "compareValues v w < 0" using compareValues_laws(1)[OF n(1,2)] 3(5) b by simp
    moreover have "w = x \<or> compareValues w x < 0" using compareValues_laws(1)[OF n(2,3)] 3(6) b by (simp split: if_splits)
    ultimately have "compareValues v x < 0" using compareValues_laws(3)[OF n] by auto
    then show ?thesis using b by simp
  qed
qed simp

definition composite_keys :: "comp_kind list \<Rightarrow> ikey set" where
  "composite_keys ts = KComposite ` Collect (of_shape ts)"

interpretation ckeys: key_order bt_compare "composite_keys ts" for ts
proof unfold_locales
  fix a b assume "a \<in> composite_keys ts" "b \<in> composite_keys ts"
  then show "bt_compare a b = 0 \<longleftrightarrow> a = b" "bt_compare b a = - bt_compare a b"
    by (auto simp: composite_keys_def composite_eq intro: composite_flip)
next
  fix a b c assume "a \<in> composite_keys ts" "b \<in> composite_keys ts" "c \<in> composite_keys ts" "bt_compare a b < 0" "bt_compare b c < 0"
  then show "bt_compare a c < 0" by (auto simp: composite_keys_def intro: composite_trans)
qed

end
