(* ===== verification/Float64.thy ===== *)
theory Float64
  imports KeyOrder
begin

text \<open>
  The numbers of the query language. Go converts every number to \<^verbatim>\<open>float64\<close> before it compares or adds; a \<^verbatim>\<open>float64\<close> is its
  IEEE 754 bit pattern, and conversions and arithmetic round to nearest, ties to even. The bits of a NaN result are not specified by Go; here they are those
  of \<open>f64_NaN\<close>.
\<close>

subsection \<open>Rounding\<close>

function bitlen :: "int \<Rightarrow> int" where
  "bitlen n = (if n \<le> 0 then 0 else 1 + bitlen (n div 2))"
  by pat_completeness auto
termination
  by (relation "measure nat") auto

declare bitlen.simps [simp del]

definition half_even :: "int \<Rightarrow> nat \<Rightarrow> int" where
  "half_even m sh =
     (let q = m div 2 ^ sh; r = m mod 2 ^ sh
      in if 2 * r > 2 ^ sh \<or> 2 * r = 2 ^ sh \<and> odd q then q + 1 else q)"

definition f64_Inf :: int where
  "f64_Inf = 0x7FF0000000000000"

text \<open>
  The pattern nearest to \<open>m * 2 ^ e\<close> for a natural number \<open>m\<close>: the exponent of the last place is at least -1074, and the patterns count up to infinity.
\<close>

definition round_pattern :: "int \<Rightarrow> int \<Rightarrow> int" where
  "round_pattern m e =
     (if m = 0 then 0
      else let E = max (e + bitlen m - 53) (-1074);
               q = (if E \<le> e then m * 2 ^ nat (e - E) else half_even m (nat (E - e)))
           in min f64_Inf ((E + 1074) * 2 ^ 52 + q))"

definition f64_sign :: "bool \<Rightarrow> int \<Rightarrow> u64" where
  "f64_sign s p = of_int p OR (if s then 0x8000000000000000 else 0)"

definition f64_of_int :: "int \<Rightarrow> u64" where
  "f64_of_int n = f64_sign (n < 0) (round_pattern \<bar>n\<bar> 0)"

subsection \<open>Parts of a number\<close>

definition f64_neg :: "u64 \<Rightarrow> bool" where
  "f64_neg w = bit w 63"

definition f64_bexp :: "u64 \<Rightarrow> int" where
  "f64_bexp w = uint (drop_bit 52 w) mod 2048"

definition f64_frac :: "u64 \<Rightarrow> int" where
  "f64_frac w = uint w mod 2 ^ 52"

definition f64_is_inf :: "u64 \<Rightarrow> bool" where
  "f64_is_inf w \<longleftrightarrow> f64_bexp w = 2047 \<and> f64_frac w = 0"

text \<open>A finite number is \<open>mantissa * 2 ^ exponent\<close>.\<close>

definition f64_mant :: "u64 \<Rightarrow> int" where
  "f64_mant w = (if f64_bexp w = 0 then f64_frac w else f64_frac w + 2 ^ 52)"

definition f64_exp :: "u64 \<Rightarrow> int" where
  "f64_exp w = (if f64_bexp w = 0 then -1074 else f64_bexp w - 1075)"

definition f64_NaN :: u64 where
  "f64_NaN = 0x7FF8000000000001"

definition f64_eq :: "u64 \<Rightarrow> u64 \<Rightarrow> bool" where
  "f64_eq a b \<longleftrightarrow> \<not> f64_nan a \<and> \<not> f64_nan b \<and> f64_rank a = f64_rank b"

subsection \<open>Arithmetic\<close>

definition signed_mant :: "u64 \<Rightarrow> int" where
  "signed_mant w = (if f64_neg w then - f64_mant w else f64_mant w)"

definition f64_add :: "u64 \<Rightarrow> u64 \<Rightarrow> u64" where
  "f64_add a b =
     (if f64_nan a \<or> f64_nan b then f64_NaN
      else if f64_is_inf a then (if f64_is_inf b \<and> f64_neg a \<noteq> f64_neg b then f64_NaN else a)
      else if f64_is_inf b then b
      else let e = min (f64_exp a) (f64_exp b);
               s = signed_mant a * 2 ^ nat (f64_exp a - e) + signed_mant b * 2 ^ nat (f64_exp b - e)
           in if s = 0 then f64_sign (f64_neg a \<and> f64_neg b) 0 else f64_sign (s < 0) (round_pattern \<bar>s\<bar> e))"

definition f64_mul :: "u64 \<Rightarrow> u64 \<Rightarrow> u64" where
  "f64_mul a b =
     (let s = (f64_neg a \<noteq> f64_neg b)
      in if f64_nan a \<or> f64_nan b then f64_NaN
         else if f64_is_inf a then (if f64_mant b = 0 then f64_NaN else f64_sign s f64_Inf)
         else if f64_is_inf b then (if f64_mant a = 0 then f64_NaN else f64_sign s f64_Inf)
         else f64_sign s (round_pattern (f64_mant a * f64_mant b) (f64_exp a + f64_exp b)))"

subsection \<open>Conversions\<close>

text \<open>\<^verbatim>\<open>float64(x)\<close> of a \<^verbatim>\<open>float32\<close> pattern is exact.\<close>

definition f64_of_f32 :: "u32 \<Rightarrow> u64" where
  "f64_of_f32 w =
     (let s = bit w 31; ex = uint (drop_bit 23 w) mod 256; fr = uint w mod 2 ^ 23
      in if ex = 255 then (if fr = 0 then f64_sign s f64_Inf else f64_NaN)
         else if ex = 0 then f64_sign s (round_pattern fr (-149))
         else f64_sign s (round_pattern (fr + 2 ^ 23) (ex - 150)))"

text \<open>
  \<^verbatim>\<open>int64(x)\<close> truncates toward zero. Go leaves the result open for a NaN and outside the range of an \<^verbatim>\<open>int64\<close>; here it is the least \<^verbatim>\<open>int64\<close>, as on
  amd64.
\<close>

definition f64_to_int64 :: "u64 \<Rightarrow> u64" where
  "f64_to_int64 w =
     (let m = f64_mant w; e = f64_exp w;
          a = (if 0 \<le> e then m * 2 ^ nat e else m div 2 ^ nat (- e));
          n = (if f64_neg w then - a else a)
      in if f64_bexp w = 2047 \<or> n < - (2 ^ 63) \<or> n \<ge> 2 ^ 63 then 0x8000000000000000 else of_int n)"

definition toFloat64 :: "gval \<Rightarrow> u64 option" where
  "toFloat64 v =
     (case v of
        GFloat64 w \<Rightarrow> Some w
      | GFloat32 w \<Rightarrow> Some (f64_of_f32 w)
      | GInt w \<Rightarrow> Some (f64_of_int (sint w))
      | GInt32 w \<Rightarrow> Some (f64_of_int (sint w))
      | GInt64 w \<Rightarrow> Some (f64_of_int (sint w))
      | GUint w \<Rightarrow> Some (f64_of_int (uint w))
      | GUint32 w \<Rightarrow> Some (f64_of_int (uint w))
      | GUint64 w \<Rightarrow> Some (f64_of_int (uint w))
      | _ \<Rightarrow> None)"

definition toInt64 :: "gval \<Rightarrow> u64 option" where
  "toInt64 v =
     (case v of
        GInt w \<Rightarrow> Some w
      | GInt32 w \<Rightarrow> Some (scast w)
      | GInt64 w \<Rightarrow> Some w
      | GUint w \<Rightarrow> Some w
      | GUint32 w \<Rightarrow> Some (ucast w)
      | GFloat64 w \<Rightarrow> Some (f64_to_int64 w)
      | _ \<Rightarrow> None)"
section \<open>Integers up to \<open>2 ^ 53\<close> are exact\<close>

lemma bitlen_nonneg [simp]: "0 \<le> bitlen n"
  by (induction n rule: bitlen.induct) (subst bitlen.simps, simp)

lemma bitlen_pos: "0 < n \<Longrightarrow> bitlen n = 1 + bitlen (n div 2)"
  by (subst bitlen.simps) simp

lemma bitlen_bounds: "0 < n \<Longrightarrow> 2 ^ nat (bitlen n) \<le> 2 * n \<and> n < 2 ^ nat (bitlen n)"
proof (induction n rule: bitlen.induct)
  case (1 n)
  show ?case
  proof (cases "n = 1")
    case True then show ?thesis by (simp add: bitlen.simps)
  next
    case False
    then have h: "0 < n div 2" using 1(2) by simp
    have L: "nat (bitlen n) = Suc (nat (bitlen (n div 2)))" using bitlen_pos[OF 1(2)] by (simp add: nat_add_distrib)
    have "2 ^ nat (bitlen (n div 2)) \<le> 2 * (n div 2)" "n div 2 < 2 ^ nat (bitlen (n div 2))" using 1(1)[OF _ h] 1(2) by simp_all
    moreover have "2 * (n div 2) \<le> n" "n \<le> 2 * (n div 2) + 1" by presburger+
    ultimately show ?thesis unfolding L power_Suc by linarith
  qed
qed

lemma bitlen_le: assumes "0 < n" "n < 2 ^ k" shows "bitlen n \<le> int k"
proof (rule ccontr)
  assume "\<not> bitlen n \<le> int k"
  then have "Suc k \<le> nat (bitlen n)" by simp
  then have "(2 :: int) ^ Suc k \<le> 2 ^ nat (bitlen n)" by (rule power_increasing) simp
  then show False using bitlen_bounds[OF assms(1)] assms(2) by simp
qed

lemma bitlen_mono: "0 < m \<Longrightarrow> m \<le> n \<Longrightarrow> bitlen m \<le> bitlen n"
  using bitlen_le[of m "nat (bitlen n)"] bitlen_bounds[of n] by simp

text \<open>The significand of a number below \<open>2 ^ 53\<close> has its leading bit in place 52.\<close>

lemma significand:
  assumes "0 < m" "m < 2 ^ 53"
  shows "2 ^ 52 \<le> m * 2 ^ nat (53 - bitlen m)" "m * 2 ^ nat (53 - bitlen m) < 2 ^ 53"
proof -
  have b: "bitlen m \<le> 53" using bitlen_le[OF assms(1), of 53] assms(2) by simp
  have s: "nat (bitlen m) + nat (53 - bitlen m) = 53" using b bitlen_nonneg[of m] by arith
  have e: "(2 :: int) ^ nat (bitlen m) * 2 ^ nat (53 - bitlen m) = 2 ^ 53" unfolding power_add[symmetric] s ..
  have "(2 :: int) ^ nat (bitlen m) * 2 ^ nat (53 - bitlen m) \<le> (2 * m) * 2 ^ nat (53 - bitlen m)"
    "m * 2 ^ nat (53 - bitlen m) < 2 ^ nat (bitlen m) * 2 ^ nat (53 - bitlen m)"
    using bitlen_bounds[OF assms(1)] by (auto intro: mult_right_mono)
  then show "2 ^ 52 \<le> m * 2 ^ nat (53 - bitlen m)" "m * 2 ^ nat (53 - bitlen m) < 2 ^ 53" unfolding e by simp_all
qed

lemma round_pattern_exact:
  assumes "0 < m" "m < 2 ^ 53"
  shows "round_pattern m 0 = (bitlen m + 1021) * 2 ^ 52 + m * 2 ^ nat (53 - bitlen m)"
proof -
  have b: "bitlen m \<le> 53" "0 \<le> bitlen m" using bitlen_le[OF assms(1), of 53] assms(2) by simp_all
  have E: "max (0 + bitlen m - 53) (-1074) = bitlen m - 53" using b by simp
  have "(bitlen m + 1021) * 2 ^ 52 + m * 2 ^ nat (53 - bitlen m) \<le> f64_Inf" using significand(2)[OF assms] b by (simp add: f64_Inf_def)
  then show ?thesis using assms(1) b unfolding round_pattern_def E by (simp add: Let_def)
qed

lemma round_pattern_strict_mono:
  assumes "0 \<le> m" "m < n" "n < 2 ^ 53" shows "round_pattern m 0 < round_pattern n 0"
proof (cases "m = 0")
  case True
  have "0 < n" using assms by simp
  then have "0 < (bitlen n + 1021) * 2 ^ 52 + n * 2 ^ nat (53 - bitlen n)"
    using bitlen_nonneg[of n] by (intro add_nonneg_pos mult_nonneg_nonneg mult_pos_pos) simp_all
  moreover have "round_pattern m 0 = 0" using True by (simp add: round_pattern_def)
  ultimately show ?thesis using round_pattern_exact[of n] assms by simp
next
  case False
  then have m: "0 < m" "m < 2 ^ 53" and n: "0 < n" using assms by simp_all
  note pm = round_pattern_exact[OF m] and pn = round_pattern_exact[OF n assms(3)]
  have "bitlen m \<le> bitlen n" using bitlen_mono[OF m(1)] assms(2) by simp
  then consider "bitlen m = bitlen n" | "bitlen m + 1 \<le> bitlen n" by linarith
  then show ?thesis
  proof cases
    case 1 then show ?thesis unfolding pm pn using assms(2) by simp
  next
    case 2 then show ?thesis unfolding pm pn using significand(2)[OF m] significand(1)[OF n assms(3)] by simp
  qed
qed

lemma half_even_nonneg: "0 \<le> m \<Longrightarrow> 0 \<le> half_even m sh"
  by (simp add: half_even_def Let_def pos_imp_zdiv_nonneg_iff)

lemma round_pattern_range:
  assumes "0 \<le> m" shows "0 \<le> round_pattern m e" "round_pattern m e \<le> f64_Inf"
proof -
  define E where "E = max (e + bitlen m - 53) (-1074)"
  define q where "q = (if E \<le> e then m * 2 ^ nat (e - E) else half_even m (nat (E - e)))"
  have "0 \<le> q" using assms half_even_nonneg by (simp add: q_def)
  moreover have "0 \<le> E + 1074" by (simp add: E_def)
  ultimately have "0 \<le> (E + 1074) * 2 ^ 52 + q" by simp
  moreover have "round_pattern m e = (if m = 0 then 0 else min f64_Inf ((E + 1074) * 2 ^ 52 + q))"
    by (simp only: round_pattern_def Let_def E_def[symmetric] q_def[symmetric])
  ultimately show "0 \<le> round_pattern m e" "round_pattern m e \<le> f64_Inf" by (simp_all add: f64_Inf_def)
qed

lemma f64_sign_parts:
  assumes "0 \<le> p" "p \<le> f64_Inf"
  shows "f64_sign s p AND 0x7FFFFFFFFFFFFFFF = of_int p" "bit (f64_sign s p) 63 = s"
proof -
  have p: "p < 2 ^ 63" using assms(2) by (simp add: f64_Inf_def)
  have nb: "\<not> bit (of_int p :: u64) n" if "63 \<le> n" for n
  proof -
    have "take_bit 63 p = p" using assms(1) p by (simp add: take_bit_int_eq_self)
    then have "bit p n \<longleftrightarrow> n < 63 \<and> bit p n" using bit_take_bit_iff[of 63 p n] by simp
    then show ?thesis using that by (simp add: bit_word_of_int_iff)
  qed
  show "bit (f64_sign s p) 63 = s" using nb[of 63] f64_masks(2)[of 63] by (simp add: f64_sign_def bit_or_iff)
  show "f64_sign s p AND 0x7FFFFFFFFFFFFFFF = of_int p"
  proof (rule bit_word_eqI)
    fix n assume "n < LENGTH(64)"
    then have n: "n < 64" by simp
    then show "bit (f64_sign s p AND 0x7FFFFFFFFFFFFFFF) n = bit (of_int p :: u64) n"
      using nb[of n] f64_masks[OF n] by (cases "n < 63") (auto simp: f64_sign_def bit_or_iff bit_and_iff)
  qed
qed

lemma f64_sign_rank:
  assumes "0 \<le> p" "p \<le> f64_Inf"
  shows "f64_rank (f64_sign s p) = (if s then - p else p)" "\<not> f64_nan (f64_sign s p)"
proof -
  have u: "uint (of_int p :: u64) = p" using assms by (simp add: uint_word_of_int take_bit_int_eq_self f64_Inf_def)
  then show "f64_rank (f64_sign s p) = (if s then - p else p)" using f64_sign_parts[OF assms] by (simp add: f64_rank_def)
  show "\<not> f64_nan (f64_sign s p)" using assms u f64_sign_parts(1)[OF assms, of s] by (simp add: f64_nan_def word_less_def f64_Inf_def)
qed

lemma f64_of_int_not_nan [simp]: "\<not> f64_nan (f64_of_int n)"
  by (simp add: f64_of_int_def f64_sign_rank round_pattern_range)

definition exact_int :: "int \<Rightarrow> bool" where
  "exact_int n \<longleftrightarrow> \<bar>n\<bar> < 2 ^ 53"

lemma f64_of_int_rank: "f64_rank (f64_of_int n) = (if n < 0 then - round_pattern \<bar>n\<bar> 0 else round_pattern \<bar>n\<bar> 0)"
  by (simp add: f64_of_int_def f64_sign_rank round_pattern_range)

lemma f64_of_int_less:
  assumes "exact_int a" "exact_int b" shows "f64_less (f64_of_int a) (f64_of_int b) \<longleftrightarrow> a < b"
proof -
  have mono: "f64_rank (f64_of_int a) < f64_rank (f64_of_int b)" if "a < b" "exact_int a" "exact_int b" for a b
  proof -
    note m = round_pattern_strict_mono
    consider "0 \<le> a" | "a < 0" "0 \<le> b" | "b < 0" by linarith
    then show ?thesis
    proof cases
      case 1 then show ?thesis using that m[of a b] by (simp add: f64_of_int_rank exact_int_def)
    next
      case 2 then show ?thesis using that m[of 0 "- a"] round_pattern_range(1)[of b 0] by (simp add: f64_of_int_rank exact_int_def round_pattern_def[of 0])
    next
      case 3 then show ?thesis using that m[of "- b" "- a"] by (simp add: f64_of_int_rank exact_int_def)
    qed
  qed
  show ?thesis using mono[OF _ assms] mono[OF _ assms(2,1)] by (cases a b rule: linorder_cases) (auto simp: f64_less_def)
qed

lemma f64_of_int_eq: "exact_int a \<Longrightarrow> exact_int b \<Longrightarrow> f64_eq (f64_of_int a) (f64_of_int b) \<longleftrightarrow> a = b"
  using f64_of_int_less[of a b] f64_of_int_less[of b a] by (cases a b rule: linorder_cases) (auto simp: f64_less_def f64_eq_def)
subsection \<open>Sums\<close>

lemma bitlen_double: "0 < m \<Longrightarrow> bitlen (m * 2 ^ k) = bitlen m + int k"
proof (induction k)
  case (Suc k)
  have "bitlen (m * 2 ^ Suc k) = 1 + bitlen (m * 2 ^ Suc k div 2)" using Suc.prems by (intro bitlen_pos) simp
  also have "m * 2 ^ Suc k div 2 = m * 2 ^ k" by simp
  finally show ?case using Suc by simp
qed simp

lemma half_even_exact: "half_even (x * 2 ^ sh) sh = x"
  by (simp add: half_even_def)

text \<open>Rounding does not depend on how the number is scaled.\<close>

lemma round_pattern_scale:
  assumes "0 < m" "m < 2 ^ 53" shows "round_pattern (m * 2 ^ k) (- int k) = round_pattern m 0"
proof -
  have b: "bitlen m \<le> 53" "0 \<le> bitlen m" using bitlen_le[OF assms(1), of 53] assms(2) by simp_all
  define E where "E = bitlen m - 53"
  have E: "max (- int k + bitlen (m * 2 ^ k) - 53) (-1074) = E" "max (0 + bitlen m - 53) (-1074) = E" using b by (simp_all add: bitlen_double[OF assms(1)] E_def)
  have "(if E \<le> - int k then m * 2 ^ k * 2 ^ nat (- int k - E) else half_even (m * 2 ^ k) (nat (E - - int k))) = m * 2 ^ nat (0 - E)"
  proof (cases "E \<le> - int k")
    case True
    then have "k + nat (- int k - E) = nat (0 - E)" by arith
    then show ?thesis using True by (simp add: power_add[symmetric] mult.assoc)
  next
    case False
    then have "nat (0 - E) + nat (E + int k) = k" using b by (simp add: E_def)
    then have "m * 2 ^ k = m * 2 ^ nat (0 - E) * 2 ^ nat (E + int k)" by (simp only: power_add[symmetric] mult.assoc)
    then have "half_even (m * 2 ^ k) (nat (E + int k)) = m * 2 ^ nat (0 - E)" by (simp only: half_even_exact)
    then show ?thesis using False by simp
  qed
  moreover have "E \<le> 0" using b by (simp add: E_def)
  ultimately show ?thesis using assms(1) unfolding round_pattern_def E Let_def by simp
qed

lemma uint_f64_sign:
  assumes "0 \<le> p" "p \<le> f64_Inf" shows "uint (f64_sign s p) = p + (if s then 2 ^ 63 else 0)"
proof -
  have p: "p < 2 ^ 63" using assms(2) by (simp add: f64_Inf_def)
  have "(of_int p :: u64) AND 0x8000000000000000 = 0"
  proof (rule bit_word_eqI)
    fix n assume "n < LENGTH(64)"
    moreover have "take_bit 63 p = p" using assms(1) p by (simp add: take_bit_int_eq_self)
    then have "\<not> bit p 63" using bit_take_bit_iff[of 63 p 63] by simp
    ultimately show "bit ((of_int p :: u64) AND 0x8000000000000000) n = bit (0 :: u64) n"
      using f64_masks(2)[of n] by (auto simp: bit_and_iff bit_word_of_int_iff)
  qed
  then have w: "f64_sign s p = of_int (p + (if s then 2 ^ 63 else 0))" by (simp add: f64_sign_def disjunctive_add_eq_or[symmetric])
  show ?thesis unfolding w using assms(1) p by (simp only: uint_word_of_int) (simp add: take_bit_int_eq_self)
qed

lemma uint_drop: "uint (drop_bit n (w :: u64)) = uint w div 2 ^ n"
proof -
  have "take_bit 64 (uint w) = uint w" using uint_lt2p[of w] by (simp add: take_bit_int_eq_self)
  then have "uint (drop_bit n w) = drop_bit n (uint w)" by (simp add: unsigned_drop_bit_eq)
  also have "\<dots> = uint w div 2 ^ n" by (rule drop_bit_eq_div)
  finally show ?thesis .
qed

lemma f64_fields:
  assumes "w = f64_sign s (x * 2 ^ 52 + y)" "0 < x" "x < 2047" "0 \<le> y" "y < 2 ^ 52"
  shows "f64_neg w = s" "f64_mant w = y + 2 ^ 52" "f64_exp w = x - 1075" "f64_bexp w = x"
proof -
  have r: "0 \<le> x * 2 ^ 52 + y" "x * 2 ^ 52 + y \<le> f64_Inf" using assms by (simp_all add: f64_Inf_def)
  have "uint w = x * 2 ^ 52 + y + (if s then 2 ^ 63 else 0)" unfolding assms(1) by (rule uint_f64_sign[OF r])
  then have "uint w = y + (x + (if s then 2048 else 0)) * 2 ^ 52" by simp
  then have "uint w div 2 ^ 52 = x + (if s then 2048 else 0)" "uint w mod 2 ^ 52 = y" using assms(4,5) by (simp_all only: mod_mult_self1) simp_all
  then have f: "f64_frac w = y" "f64_bexp w = x" using assms(2,3)
    unfolding f64_frac_def f64_bexp_def uint_drop by simp_all
  then show "f64_bexp w = x" "f64_mant w = y + 2 ^ 52" "f64_exp w = x - 1075" using assms(2) by (simp_all add: f64_mant_def f64_exp_def)
  show "f64_neg w = s" using f64_sign_parts(2)[OF r] assms(1) by (simp add: f64_neg_def)
qed
text \<open>The parts of an exact integer.\<close>

lemma f64_of_int_parts:
  assumes "exact_int n"
  obtains k where "signed_mant (f64_of_int n) = n * 2 ^ k" "f64_exp (f64_of_int n) = - int k" "\<not> f64_is_inf (f64_of_int n)" "f64_neg (f64_of_int n) = (n < 0)"
proof (cases "n = 0")
  case True
  have "f64_of_int 0 = 0" by (simp add: f64_of_int_def f64_sign_def round_pattern_def)
  then show thesis using True that[of 1074]
    by (simp add: signed_mant_def f64_mant_def f64_frac_def f64_bexp_def f64_exp_def f64_is_inf_def f64_neg_def)
next
  case False
  define m where "m = \<bar>n\<bar>"
  have m: "0 < m" "m < 2 ^ 53" using False assms by (simp_all add: m_def exact_int_def)
  have b: "bitlen m \<le> 53" "1 \<le> bitlen m" using bitlen_le[OF m(1), of 53] m(2) bitlen_pos[OF m(1)] by simp_all
  define q where "q = m * 2 ^ nat (53 - bitlen m)"
  have q: "2 ^ 52 \<le> q" "q < 2 ^ 53" using significand[OF m] by (simp_all add: q_def)
  have "f64_of_int n = f64_sign (n < 0) ((bitlen m + 1022) * 2 ^ 52 + (q - 2 ^ 52))"
    using round_pattern_exact[OF m] by (simp add: f64_of_int_def m_def[symmetric] q_def algebra_simps)
  note f = f64_fields[OF this]
  have x: "0 < bitlen m + 1022" "bitlen m + 1022 < 2047" "0 \<le> q - 2 ^ 52" "q - 2 ^ 52 < 2 ^ 52" using b q by simp_all
  have "signed_mant (f64_of_int n) = n * 2 ^ nat (53 - bitlen m)"
    using f(1,2)[OF x] by (auto simp: signed_mant_def q_def m_def)
  moreover have "f64_exp (f64_of_int n) = - int (nat (53 - bitlen m))" using f(3)[OF x] b by simp
  moreover have "\<not> f64_is_inf (f64_of_int n)" using f(4)[OF x] x(2) by (simp add: f64_is_inf_def)
  ultimately show thesis using f(1)[OF x] by (rule that)
qed

lemma f64_add_exact:
  assumes "exact_int a" "exact_int b" "exact_int (a + b)"
  shows "f64_add (f64_of_int a) (f64_of_int b) = f64_of_int (a + b)"
proof -
  obtain i where i: "signed_mant (f64_of_int a) = a * 2 ^ i" "f64_exp (f64_of_int a) = - int i" "\<not> f64_is_inf (f64_of_int a)" "f64_neg (f64_of_int a) = (a < 0)"
    using assms(1) by (rule f64_of_int_parts)
  obtain j where j: "signed_mant (f64_of_int b) = b * 2 ^ j" "f64_exp (f64_of_int b) = - int j" "\<not> f64_is_inf (f64_of_int b)" "f64_neg (f64_of_int b) = (b < 0)"
    using assms(2) by (rule f64_of_int_parts)
  define K where "K = max i j"
  have e: "min (- int i) (- int j) = - int K" by (simp add: K_def)
  have "i + nat (- int i - - int K) = K" "j + nat (- int j - - int K) = K" by (simp_all add: K_def)
  then have s: "a * 2 ^ i * 2 ^ nat (- int i - - int K) + b * 2 ^ j * 2 ^ nat (- int j - - int K) = (a + b) * 2 ^ K"
    by (simp only: mult.assoc power_add[symmetric] distrib_right)
  have r: "round_pattern \<bar>(a + b) * 2 ^ K\<bar> (- int K) = round_pattern \<bar>a + b\<bar> 0" if "a + b \<noteq> 0"
    using round_pattern_scale[of "\<bar>a + b\<bar>" K] that assms(3) by (simp add: exact_int_def abs_mult)
  have "f64_add (f64_of_int a) (f64_of_int b) =
    (if (a + b) * 2 ^ K = 0 then f64_sign (a < 0 \<and> b < 0) 0 else f64_sign ((a + b) * 2 ^ K < 0) (round_pattern \<bar>(a + b) * 2 ^ K\<bar> (- int K)))"
    using i(3) j(3) unfolding f64_add_def i(1,2,4) j(1,2,4) e Let_def s by simp
  also have "\<dots> = f64_of_int (a + b)"
  proof (cases "a + b = 0")
    case True
    then have n: "(a < 0 \<and> b < 0) = False" by auto
    show ?thesis unfolding n using True by (simp add: f64_of_int_def round_pattern_def)
  next
    case False then show ?thesis using r by (simp add: f64_of_int_def mult_less_0_iff)
  qed
  finally show ?thesis .
qed

end
