(* ===== verification/Query.thy ===== *)
theory Query
  imports Float64
begin

text \<open>
  \<^verbatim>\<open>pkg/query/operators.go\<close> and \<^verbatim>\<open>query.go\<close>: filters and projections. A filter is the list of the entries of a Go map in the order in
  which one iteration meets them. Evaluation returns an error or a truth value. The matcher of \<^verbatim>\<open>regexp\<close> is an argument: \<open>None\<close> is an invalid
  pattern.
\<close>

subsection \<open>Conditions in sequence\<close>

text \<open>Loops over conditions that stop at the first error and at the first false, or at the first true.\<close>

fun err_all :: "('a \<Rightarrow> 'e + bool) \<Rightarrow> 'a list \<Rightarrow> 'e + bool" where
  "err_all f [] = Inr True"
| "err_all f (x # xs) = (case f x of Inl e \<Rightarrow> Inl e | Inr False \<Rightarrow> Inr False | Inr True \<Rightarrow> err_all f xs)"

fun err_any :: "('a \<Rightarrow> 'e + bool) \<Rightarrow> 'a list \<Rightarrow> 'e + bool" where
  "err_any f [] = Inr False"
| "err_any f (x # xs) = (case f x of Inl e \<Rightarrow> Inl e | Inr True \<Rightarrow> Inr True | Inr False \<Rightarrow> err_any f xs)"

lemma err_all_cong [fundef_cong]: "xs = ys \<Longrightarrow> (\<And>x. x \<in> set ys \<Longrightarrow> f x = g x) \<Longrightarrow> err_all f xs = err_all g ys"
  by (induction xs arbitrary: ys) (auto split: sum.split bool.split)

lemma err_any_cong [fundef_cong]: "xs = ys \<Longrightarrow> (\<And>x. x \<in> set ys \<Longrightarrow> f x = g x) \<Longrightarrow> err_any f xs = err_any g ys"
  by (induction xs arbitrary: ys) (auto split: sum.split bool.split)

subsection \<open>Deep equality\<close>

lemma size_entry_less: "(k, v) \<in> set m \<Longrightarrow> size v < size (GMap m)"
  by (induction m) auto

lemma size_items_less: "GMap m \<in> set xs \<Longrightarrow> size (GMap m) < size (GArr xs)"
  by (rule size_item_less)

lemma size_zip_less: "(x, y) \<in> set (zip xs ys) \<Longrightarrow> size x < size (GArr xs)"
  by (rule size_item_less) (rule set_zip_leftD)

text \<open>
  \<^verbatim>\<open>reflect.DeepEqual\<close>: floats are equal as numbers, maps without regard to order, pointers by what they point to. Values of the
  types that the database does not know count as different.
\<close>

function deep_equal :: "gval \<Rightarrow> gval \<Rightarrow> bool" and deep_value :: "bvalue \<Rightarrow> bvalue \<Rightarrow> bool" and deep_doc :: "document \<Rightarrow> document \<Rightarrow> bool" where
  "deep_equal a b =
     (case a of
        GFloat64 x \<Rightarrow> (case b of GFloat64 y \<Rightarrow> f64_eq x y | _ \<Rightarrow> False)
      | GFloat32 x \<Rightarrow> (case b of GFloat32 y \<Rightarrow> f64_eq (f64_of_f32 x) (f64_of_f32 y) | _ \<Rightarrow> False)
      | GArr xs \<Rightarrow> (case b of GArr ys \<Rightarrow> length xs = length ys \<and> list_all (\<lambda>(x, y). deep_equal x y) (zip xs ys) | _ \<Rightarrow> False)
      | GMap m \<Rightarrow>
         (case b of
            GMap n \<Rightarrow> length m = length n \<and> list_all (\<lambda>(k, v). case map_of n k of None \<Rightarrow> False | Some w \<Rightarrow> deep_equal v w) m
          | _ \<Rightarrow> False)
      | GDocPtr d \<Rightarrow> (case b of GDocPtr e \<Rightarrow> deep_doc d e | _ \<Rightarrow> False)
      | GDoc d \<Rightarrow> (case b of GDoc e \<Rightarrow> deep_doc d e | _ \<Rightarrow> False)
      | GValuePtr v \<Rightarrow> (case b of GValuePtr w \<Rightarrow> deep_value v w | _ \<Rightarrow> False)
      | GOther \<Rightarrow> False
      | _ \<Rightarrow> a = b)"
| "deep_value (Value s a) (Value t b) \<longleftrightarrow> s = t \<and> deep_equal a b"
| "deep_doc (Document fs os) (Document gs ps) \<longleftrightarrow>
     os = ps \<and> length fs = length gs \<and> list_all (\<lambda>(k, v). case map_of gs k of None \<Rightarrow> False | Some w \<Rightarrow> deep_value v w) fs"
  by pat_completeness auto
termination
  by (relation "measure (\<lambda>x. case x of Inl (a, _) \<Rightarrow> size a | Inr (Inl (v, _)) \<Rightarrow> size v | Inr (Inr (d, _)) \<Rightarrow> size d)")
    (auto dest!: size_zip_less size_entry_less size_field_less)

declare deep_equal.simps [simp del]

subsection \<open>Operators\<close>

datatype query_error = ErrExistsValue | ErrRegexType | ErrRegexInvalid | ErrElemMatchValue | ErrUnsupported string | ErrLogical string

definition evaluateEqual :: "gval \<Rightarrow> gval \<Rightarrow> bool" where
  "evaluateEqual a b =
     (if a = GNil \<and> b = GNil then True
      else if a = GNil \<or> b = GNil then False
      else if deep_equal a b then True
      else case (toFloat64 a, toFloat64 b) of (Some x, Some y) \<Rightarrow> f64_eq x y | _ \<Rightarrow> False)"

text \<open>The comparison of two values as numbers, or else as strings.\<close>

definition evaluateLessThan :: "gval \<Rightarrow> gval \<Rightarrow> bool" where
  "evaluateLessThan a b =
     (case (toFloat64 a, toFloat64 b) of
        (Some x, Some y) \<Rightarrow> f64_less x y
      | _ \<Rightarrow> (case a of GString s \<Rightarrow> (case b of GString t \<Rightarrow> bytes_compare (str_bytes s) (str_bytes t) < 0 | _ \<Rightarrow> False) | _ \<Rightarrow> False))"

definition evaluateGreaterThan :: "gval \<Rightarrow> gval \<Rightarrow> bool" where
  "evaluateGreaterThan a b =
     (case (toFloat64 a, toFloat64 b) of
        (Some x, Some y) \<Rightarrow> f64_less y x
      | _ \<Rightarrow> (case a of GString s \<Rightarrow> (case b of GString t \<Rightarrow> bytes_compare (str_bytes t) (str_bytes s) < 0 | _ \<Rightarrow> False) | _ \<Rightarrow> False))"

definition evaluateGreaterThanOrEqual :: "gval \<Rightarrow> gval \<Rightarrow> bool" where
  "evaluateGreaterThanOrEqual a b = (evaluateGreaterThan a b \<or> evaluateEqual a b)"

definition evaluateLessThanOrEqual :: "gval \<Rightarrow> gval \<Rightarrow> bool" where
  "evaluateLessThanOrEqual a b = (evaluateLessThan a b \<or> evaluateEqual a b)"

text \<open>
  The elements of a value whose \<^verbatim>\<open>reflect\<close> kind is slice or array: an object id is an array of twelve bytes, and a byte is of no type that the
  operators know.
\<close>

definition elements :: "gval \<Rightarrow> gval list option" where
  "elements v =
     (case v of
        GArr xs \<Rightarrow> Some xs
      | GBytes bs \<Rightarrow> Some (map (\<lambda>_. GOther) bs)
      | GObjectID bs \<Rightarrow> Some (map (\<lambda>_. GOther) bs)
      | _ \<Rightarrow> None)"

definition evaluateIn :: "gval \<Rightarrow> gval \<Rightarrow> bool" where
  "evaluateIn v array = (case elements array of None \<Rightarrow> False | Some xs \<Rightarrow> list_ex (evaluateEqual v) xs)"

definition evaluateSize :: "gval \<Rightarrow> gval \<Rightarrow> bool" where
  "evaluateSize v n =
     (case elements v of
        None \<Rightarrow> False
      | Some xs \<Rightarrow> (case toInt64 n of None \<Rightarrow> False | Some k \<Rightarrow> int (length xs) = sint k))"

definition evaluateRegex :: "(string \<Rightarrow> string \<Rightarrow> bool option) \<Rightarrow> gval \<Rightarrow> gval \<Rightarrow> query_error + bool" where
  "evaluateRegex rx v pattern =
     (case v of
        GString str \<Rightarrow>
          (case pattern of
             GString pat \<Rightarrow> (case rx pat str of None \<Rightarrow> Inl ErrRegexInvalid | Some b \<Rightarrow> Inr b)
           | _ \<Rightarrow> Inl ErrRegexType)
      | _ \<Rightarrow> Inr False)"

function EvaluateOperator :: "(string \<Rightarrow> string \<Rightarrow> bool option) \<Rightarrow> string \<Rightarrow> gval \<Rightarrow> gval \<Rightarrow> query_error + bool"
  and evaluateElemMatch :: "(string \<Rightarrow> string \<Rightarrow> bool option) \<Rightarrow> gval \<Rightarrow> gval \<Rightarrow> query_error + bool" where
  "EvaluateOperator rx op fieldValue operatorValue =
     (if op = ''$eq'' then Inr (evaluateEqual fieldValue operatorValue)
      else if op = ''$ne'' then Inr (\<not> evaluateEqual fieldValue operatorValue)
      else if op = ''$gt'' then Inr (evaluateGreaterThan fieldValue operatorValue)
      else if op = ''$gte'' then Inr (evaluateGreaterThanOrEqual fieldValue operatorValue)
      else if op = ''$lt'' then Inr (evaluateLessThan fieldValue operatorValue)
      else if op = ''$lte'' then Inr (evaluateLessThanOrEqual fieldValue operatorValue)
      else if op = ''$in'' then Inr (evaluateIn fieldValue operatorValue)
      else if op = ''$nin'' then Inr (\<not> evaluateIn fieldValue operatorValue)
      else if op = ''$exists'' then (case operatorValue of GBool b \<Rightarrow> Inr ((fieldValue \<noteq> GNil) = b) | _ \<Rightarrow> Inl ErrExistsValue)
      else if op = ''$regex'' then evaluateRegex rx fieldValue operatorValue
      else if op = ''$size'' then Inr (evaluateSize fieldValue operatorValue)
      else if op = ''$elemMatch'' then evaluateElemMatch rx fieldValue operatorValue
      else Inl (ErrUnsupported op))"
| "evaluateElemMatch rx value conditions =
     (case elements value of
        None \<Rightarrow> Inr False
      | Some xs \<Rightarrow>
         (case conditions of
            GMap condMap \<Rightarrow> err_any (\<lambda>element. err_all (\<lambda>(opStr, opValue). EvaluateOperator rx opStr element opValue) condMap) xs
          | _ \<Rightarrow> Inl ErrElemMatchValue))"
  by pat_completeness auto
termination
  by (relation "measure (\<lambda>x. case x of Inl (_, _, _, v) \<Rightarrow> 2 * size v + 1 | Inr (_, _, v) \<Rightarrow> 2 * size v)") (auto dest!: size_entry_less)

declare EvaluateOperator.simps [simp del] evaluateElemMatch.simps [simp del]

subsection \<open>Filters\<close>

definition evaluateOperatorMap ::
  "(string \<Rightarrow> string \<Rightarrow> bool option) \<Rightarrow> gval \<times> bool \<Rightarrow> (string \<times> gval) list \<Rightarrow> query_error + bool" where
  "evaluateOperatorMap rx field operatorMap =
     err_all (\<lambda>(opStr, opValue).
       if opStr \<noteq> ''$exists'' \<and> \<not> snd field then Inr False else EvaluateOperator rx opStr (fst field) opValue) operatorMap"

function evaluateFilter :: "(string \<Rightarrow> string \<Rightarrow> bool option) \<Rightarrow> document \<Rightarrow> (string \<times> gval) list \<Rightarrow> query_error + bool"
  and evaluateAnd :: "(string \<Rightarrow> string \<Rightarrow> bool option) \<Rightarrow> document \<Rightarrow> gval \<Rightarrow> query_error + bool"
  and evaluateOr :: "(string \<Rightarrow> string \<Rightarrow> bool option) \<Rightarrow> document \<Rightarrow> gval \<Rightarrow> query_error + bool" where
  "evaluateFilter rx doc flt =
     err_all (\<lambda>(key, val).
       if key = ''$and'' then evaluateAnd rx doc val
       else if key = ''$or'' then evaluateOr rx doc val
       else
         (case val of
            GMap operatorMap \<Rightarrow> evaluateOperatorMap rx (doc_Get doc key) operatorMap
          | _ \<Rightarrow> Inr (snd (doc_Get doc key) \<and> evaluateEqual (fst (doc_Get doc key)) val))) flt"
| "evaluateAnd rx doc val =
     (case val of
        GArr cs \<Rightarrow> err_all (\<lambda>c. case c of GMap condMap \<Rightarrow> evaluateFilter rx doc condMap | _ \<Rightarrow> Inl (ErrLogical ''$and'')) cs
      | _ \<Rightarrow> Inl (ErrLogical ''$and''))"
| "evaluateOr rx doc val =
     (case val of
        GArr cs \<Rightarrow> err_any (\<lambda>c. case c of GMap condMap \<Rightarrow> evaluateFilter rx doc condMap | _ \<Rightarrow> Inl (ErrLogical ''$or'')) cs
      | _ \<Rightarrow> Inl (ErrLogical ''$or''))"
  by pat_completeness auto
termination
  by (relation "measure (\<lambda>x. case x of Inl (_, _, f) \<Rightarrow> size (GMap f) | Inr (Inl (_, _, v)) \<Rightarrow> size v | Inr (Inr (_, _, v)) \<Rightarrow> size v)")
    (auto dest!: size_entry_less size_item_less)

declare evaluateFilter.simps [simp del] evaluateAnd.simps [simp del] evaluateOr.simps [simp del]

subsection \<open>Queries\<close>

record SortField =
  sf_Field :: string
  sf_Ascending :: bool

record Query =
  q_filter :: "(string \<times> gval) list"
  q_projection :: "(string \<times> bool) list"
  q_sort :: "SortField list"
  q_limit :: int
  q_skip :: int

definition NewQuery :: "(string \<times> gval) list \<Rightarrow> Query" where
  "NewQuery flt = \<lparr>q_filter = flt, q_projection = [], q_sort = [], q_limit = 0, q_skip = 0\<rparr>"

definition Matches :: "(string \<Rightarrow> string \<Rightarrow> bool option) \<Rightarrow> Query \<Rightarrow> document \<Rightarrow> query_error + bool" where
  "Matches rx q doc = (if q_filter q = [] then Inr True else evaluateFilter rx doc (q_filter q))"

text \<open>A nil projection and an empty one are both the empty list.\<close>

definition set_if_exists :: "document \<Rightarrow> string \<Rightarrow> document \<Rightarrow> document" where
  "set_if_exists doc field result = (if snd (doc_Get doc field) then doc_Set result field (fst (doc_Get doc field)) else result)"

definition ApplyProjection :: "Query \<Rightarrow> document \<Rightarrow> document" where
  "ApplyProjection q doc =
     (let p = q_projection q
      in if p = [] then doc
         else if \<exists>x\<in>set p. snd x
              then foldl (\<lambda>r (field, inc). if inc then set_if_exists doc field r else r) NewDocument p
              else foldl (\<lambda>r key. case map_of p key of Some True \<Rightarrow> r | _ \<Rightarrow> set_if_exists doc key r) NewDocument (doc_Keys doc))"

section \<open>Correctness\<close>

subsection \<open>Conjunctions and disjunctions\<close>

lemma err_all_True: "err_all f xs = Inr True \<longleftrightarrow> (\<forall>x\<in>set xs. f x = Inr True)"
  by (induction xs) (auto split: sum.split bool.split)

lemma err_all_total: "\<forall>x\<in>set xs. \<not> isl (f x) \<Longrightarrow> err_all f xs = Inr (\<forall>x\<in>set xs. f x = Inr True)"
  by (induction xs) (auto simp: isl_def split: sum.split bool.split)

lemma err_any_total: "\<forall>x\<in>set xs. \<not> isl (f x) \<Longrightarrow> err_any f xs = Inr (\<exists>x\<in>set xs. f x = Inr True)"
  by (induction xs) (auto simp: isl_def split: sum.split bool.split)

text \<open>What one entry of a filter asks for.\<close>

definition filter_entry :: "(string \<Rightarrow> string \<Rightarrow> bool option) \<Rightarrow> document \<Rightarrow> string \<times> gval \<Rightarrow> query_error + bool" where
  "filter_entry rx doc e = evaluateFilter rx doc [e]"

lemma evaluateFilter_entries: "evaluateFilter rx doc flt = err_all (filter_entry rx doc) flt"
proof -
  have "(case e of (key, val) \<Rightarrow>
       if key = ''$and'' then evaluateAnd rx doc val
       else if key = ''$or'' then evaluateOr rx doc val
       else
         (case val of
            GMap operatorMap \<Rightarrow> evaluateOperatorMap rx (doc_Get doc key) operatorMap
          | _ \<Rightarrow> Inr (snd (doc_Get doc key) \<and> evaluateEqual (fst (doc_Get doc key)) val))) = filter_entry rx doc e" for e
    by (auto simp: filter_entry_def evaluateFilter.simps[of _ _ "[e]"] split: sum.split bool.split)
  then show ?thesis by (subst evaluateFilter.simps) (rule err_all_cong, simp_all)
qed

lemma filter_entry_field:
  assumes "key \<noteq> ''$and''" "key \<noteq> ''$or''"
  shows "filter_entry rx doc (key, val) =
    (case val of GMap ops \<Rightarrow> evaluateOperatorMap rx (doc_Get doc key) ops
     | _ \<Rightarrow> Inr (snd (doc_Get doc key) \<and> evaluateEqual (fst (doc_Get doc key)) val))"
  using assms by (auto simp: filter_entry_def evaluateFilter.simps[of _ _ "[(key, val)]"] split: gval.split sum.split bool.split)

lemma Matches_entry: "Matches rx q doc = Inr True \<Longrightarrow> e \<in> set (q_filter q) \<Longrightarrow> filter_entry rx doc e = Inr True"
  by (auto simp: Matches_def evaluateFilter_entries err_all_True split: if_splits)

text \<open>
  The order in which Go iterates over a filter does not change what it matches, as long as no entry of the filter fails on the document.
\<close>

theorem filter_order_irrelevant:
  assumes "set (q_filter q') = set (q_filter q)" "\<forall>e\<in>set (q_filter q). \<not> isl (filter_entry rx doc e)"
  shows "Matches rx q' doc = Matches rx q doc"
proof -
  have "Matches rx p doc = Inr (\<forall>e\<in>set (q_filter q). filter_entry rx doc e = Inr True)" if "set (q_filter p) = set (q_filter q)" for p
  proof (cases "q_filter p = []")
    case True then show ?thesis using that by (simp add: Matches_def)
  next
    case False
    then show ?thesis using that assms(2) err_all_total[of "q_filter p" "filter_entry rx doc"]
      by (simp add: Matches_def evaluateFilter_entries)
  qed
  then show ?thesis using assms(1) by simp
qed

subsection \<open>Projection\<close>

lemma doc_Get_ok: "doc_ok d \<Longrightarrow> snd (doc_Get d k) \<Longrightarrow> v_Data (NewValue (fst (doc_Get d k))) = fst (doc_Get d k)"
proof (cases d)
  case (Document fs os)
  assume ok: "doc_ok d" and "snd (doc_Get d k)"
  then obtain v where v: "map_of fs k = Some v" "fst (doc_Get d k) = v_Data v"
    using Document by (auto simp: doc_Get_def split: option.splits)
  have "val_ok v" using ok Document map_of_SomeD[OF v(1)] by (auto simp: list_all_iff)
  then have "NewValue (v_Data v) = v" by (cases v) auto
  then show ?thesis using v(2) by simp
qed

lemma doc_Get_missing: "\<not> snd (doc_Get d k) \<Longrightarrow> doc_Get d k = (GNil, False)"
  by (auto simp: doc_Get_def split: option.splits)

lemma doc_Get_set_if_exists:
  assumes "doc_ok d"
  shows "doc_Get (set_if_exists d f r) k = (if k = f \<and> snd (doc_Get d f) then doc_Get d k else doc_Get r k)"
  using doc_Get_ok[OF assms, of f] by (auto simp: set_if_exists_def doc_Get_Set prod_eq_iff)

lemma project_loop:
  assumes "doc_ok d"
  shows "doc_Get (foldl (\<lambda>r x. if P x then set_if_exists d (key x) r else r) r xs) k =
    (if (\<exists>x\<in>set xs. P x \<and> key x = k) \<and> snd (doc_Get d k) then doc_Get d k else doc_Get r k)"
  by (induction xs arbitrary: r) (auto simp: doc_Get_set_if_exists[OF assms])

lemma doc_Get_NewDocument [simp]: "doc_Get NewDocument k = (GNil, False)"
  by (simp add: doc_Get_def NewDocument_def)

lemma doc_Get_Keys: "doc_ok d \<Longrightarrow> snd (doc_Get d k) \<longleftrightarrow> k \<in> set (doc_Keys d)"
  by (subst doc_Has_Keys[symmetric]) (auto simp: doc_Has_def doc_Get_def split: option.splits)



theorem filter_order_irrelevant_witness:
  "Matches (\<lambda>_ _. None) (NewQuery [(''age'', GInt64 3), (''name'', GString ''x'')]) NewDocument =
   Matches (\<lambda>_ _. None) (NewQuery [(''name'', GString ''x''), (''age'', GInt64 3)]) NewDocument"
  by (rule filter_order_irrelevant) (auto simp: NewQuery_def filter_entry_field)

end
