(* ===== verification/Btree.thy ===== *)
theory Btree
  imports KeyOrder
begin

text \<open>
  \<^verbatim>\<open>pkg/index/btree.go\<close>: the in-memory B+ tree, with its nodes in an explicit store. A node
  pointer is an index into the list of allocated nodes; parent, child and next pointers are
  fields of a node, as in the source. \<open>cmp\<close> is the tree's key comparison. The recursions of the
  source run along child pointers and the scan along next pointers; here each
  takes a bound on its length, the number of nodes, and \<open>None\<close> is an
  index out of range or a pointer chain longer than that.
\<close>

subsection \<open>Nodes and tree\<close>

record ('k, 'v) BTreeNode =
  bn_isLeaf :: bool
  bn_keys :: "'k list"
  bn_values :: "'v list"
  bn_children :: "nat list"
  bn_next :: "nat option"
  bn_parent :: "nat option"

record ('k, 'v) BTree =
  bt_root :: nat
  bt_order :: int
  bt_size :: int
  bt_height :: int
  bt_lastSplitKey :: 'k
  bt_nodes :: "('k, 'v) BTreeNode list"

datatype index_error = ErrDuplicateKey | ErrKeyNotFound

definition NewBTree :: "'k \<Rightarrow> int \<Rightarrow> ('k, 'v) BTree" where
  "NewBTree nilKey order =
     \<lparr>bt_root = 0, bt_order = (if order < 3 then 3 else order), bt_size = 0, bt_height = 1,
      bt_lastSplitKey = nilKey,
      bt_nodes = [\<lparr>bn_isLeaf = True, bn_keys = [], bn_values = [], bn_children = [], bn_next = None, bn_parent = None\<rparr>]\<rparr>"

definition set_node :: "nat \<Rightarrow> ('k, 'v) BTreeNode \<Rightarrow> ('k, 'v) BTree \<Rightarrow> ('k, 'v) BTree" where
  "set_node n nd bt = bt\<lparr>bt_nodes := (bt_nodes bt)[n := nd]\<rparr>"

definition new_node :: "('k, 'v) BTreeNode \<Rightarrow> ('k, 'v) BTree \<Rightarrow> ('k, 'v) BTree" where
  "new_node nd bt = bt\<lparr>bt_nodes := bt_nodes bt @ [nd]\<rparr>"

definition set_parent :: "nat \<Rightarrow> nat \<Rightarrow> ('k, 'v) BTree \<Rightarrow> ('k, 'v) BTree" where
  "set_parent p n bt = set_node n ((bt_nodes bt ! n)\<lparr>bn_parent := Some p\<rparr>) bt"

fun findPosition :: "('k \<Rightarrow> 'k \<Rightarrow> int) \<Rightarrow> 'k list \<Rightarrow> 'k \<Rightarrow> nat" where
  "findPosition cmp [] key = 0"
| "findPosition cmp (k # ks) key = (if cmp key k < 0 then 0 else Suc (findPosition cmp ks key))"

subsection \<open>Insertion\<close>

text \<open>
  Both splits end alike: when the node that was split is the root, a new root is made over the two halves;
  otherwise the separator is left in \<open>lastSplitKey\<close> for the parent.
\<close>

definition attachSplit :: "nat \<Rightarrow> nat \<Rightarrow> 'k \<Rightarrow> nat option \<Rightarrow> ('k, 'v) BTree \<Rightarrow> nat option \<times> ('k, 'v) BTree" where
  "attachSplit n new sep parent bt =
     (if parent = None then
        let newRoot = length (bt_nodes bt)
        in (Some newRoot,
            set_parent newRoot new (set_parent newRoot n
              (new_node \<lparr>bn_isLeaf = False, bn_keys = [sep], bn_values = [], bn_children = [n, new],
                         bn_next = None, bn_parent = None\<rparr> bt)))
      else (Some new, bt\<lparr>bt_lastSplitKey := sep\<rparr>))"

definition splitLeaf :: "nat \<Rightarrow> ('k, 'v) BTree \<Rightarrow> (nat option \<times> ('k, 'v) BTree) option" where
  "splitLeaf n bt =
     (let leaf = bt_nodes bt ! n; mid = length (bn_keys leaf) div 2;
          newLeaf = \<lparr>bn_isLeaf = True, bn_keys = drop mid (bn_keys leaf), bn_values = drop mid (bn_values leaf),
                     bn_children = [], bn_next = bn_next leaf, bn_parent = bn_parent leaf\<rparr>;
          new = length (bt_nodes bt)
      in if bn_keys newLeaf = [] then None
         else Some (attachSplit n new (hd (bn_keys newLeaf)) (bn_parent leaf)
                (set_node n (leaf\<lparr>bn_keys := take mid (bn_keys leaf), bn_values := take mid (bn_values leaf),
                                  bn_next := Some new\<rparr>) (new_node newLeaf bt))))"

definition splitInternal :: "nat \<Rightarrow> ('k, 'v) BTree \<Rightarrow> (nat option \<times> ('k, 'v) BTree) option" where
  "splitInternal n bt =
     (let node = bt_nodes bt ! n; mid = length (bn_keys node) div 2; new = length (bt_nodes bt)
      in if mid \<ge> length (bn_keys node) \<or> Suc mid > length (bn_children node) then None
         else let newNode = \<lparr>bn_isLeaf = False, bn_keys = drop (Suc mid) (bn_keys node), bn_values = [],
                             bn_children = drop (Suc mid) (bn_children node), bn_next = None, bn_parent = bn_parent node\<rparr>;
                  bt1 = fold (set_parent new) (bn_children newNode) (new_node newNode bt)
              in Some (attachSplit n new (bn_keys node ! mid) (bn_parent node)
                   (set_node n (node\<lparr>bn_keys := take mid (bn_keys node),
                                     bn_children := take (Suc mid) (bn_children node)\<rparr>) bt1)))"

definition insertIntoLeaf ::
  "('k \<Rightarrow> 'k \<Rightarrow> int) \<Rightarrow> nat \<Rightarrow> 'k \<Rightarrow> 'v \<Rightarrow> ('k, 'v) BTree \<Rightarrow> (nat option \<times> ('k, 'v) BTree) option" where
  "insertIntoLeaf cmp n key val bt =
     (let leaf = bt_nodes bt ! n; pos = findPosition cmp (bn_keys leaf) key
      in if pos > length (bn_values leaf) then None
         else let leaf' = leaf\<lparr>bn_keys := take pos (bn_keys leaf) @ [key] @ drop pos (bn_keys leaf),
                               bn_values := take pos (bn_values leaf) @ [val] @ drop pos (bn_values leaf)\<rparr>;
                  bt1 = set_node n leaf' bt
              in if int (length (bn_keys leaf')) \<ge> bt_order bt then splitLeaf n bt1 else Some (None, bt1))"

definition linkChild :: "('k \<Rightarrow> 'k \<Rightarrow> int) \<Rightarrow> nat \<Rightarrow> nat \<Rightarrow> ('k, 'v) BTree \<Rightarrow> (nat option \<times> ('k, 'v) BTree) option" where
  "linkChild cmp n newChild bt =
     (let node = bt_nodes bt ! n; splitKey = bt_lastSplitKey bt; pos = findPosition cmp (bn_keys node) splitKey
      in if Suc pos > length (bn_children node) then None
         else let node' = node\<lparr>bn_keys := take pos (bn_keys node) @ [splitKey] @ drop pos (bn_keys node),
                               bn_children := take (Suc pos) (bn_children node) @ [newChild] @ drop (Suc pos) (bn_children node)\<rparr>;
                  bt1 = set_node n node' bt
              in if int (length (bn_keys node')) \<ge> bt_order bt then splitInternal n bt1 else Some (None, bt1))"

fun insertIntoNode ::
  "('k \<Rightarrow> 'k \<Rightarrow> int) \<Rightarrow> nat \<Rightarrow> nat \<Rightarrow> 'k \<Rightarrow> 'v \<Rightarrow> ('k, 'v) BTree \<Rightarrow> (nat option \<times> ('k, 'v) BTree) option" where
  "insertIntoNode cmp 0 n key val bt = None"
| "insertIntoNode cmp (Suc fuel) n key val bt =
     (if n \<ge> length (bt_nodes bt) then None
      else let node = bt_nodes bt ! n
      in if bn_isLeaf node then insertIntoLeaf cmp n key val bt
         else let pos = findPosition cmp (bn_keys node) key
              in if pos \<ge> length (bn_children node) then None
                 else case insertIntoNode cmp fuel (bn_children node ! pos) key val bt of
                   None \<Rightarrow> None
                 | Some (None, bt1) \<Rightarrow> Some (None, bt1)
                 | Some (Some newChild, bt1) \<Rightarrow> linkChild cmp n newChild bt1)"

subsection \<open>Search\<close>

fun search_leaf :: "('k \<Rightarrow> 'k \<Rightarrow> int) \<Rightarrow> 'k \<Rightarrow> 'k list \<Rightarrow> 'v list \<Rightarrow> 'v option option" where
  "search_leaf cmp key [] vs = Some None"
| "search_leaf cmp key (k # ks) vs =
     (if cmp key k = 0 then (case vs of [] \<Rightarrow> None | v # _ \<Rightarrow> Some (Some v))
      else if cmp key k < 0 then Some None
      else search_leaf cmp key ks (tl vs))"

fun searchNode :: "('k \<Rightarrow> 'k \<Rightarrow> int) \<Rightarrow> nat \<Rightarrow> nat \<Rightarrow> 'k \<Rightarrow> ('k, 'v) BTree \<Rightarrow> 'v option option" where
  "searchNode cmp 0 n key bt = None"
| "searchNode cmp (Suc fuel) n key bt =
     (if n \<ge> length (bt_nodes bt) then None
      else let node = bt_nodes bt ! n
      in if bn_isLeaf node then search_leaf cmp key (bn_keys node) (bn_values node)
         else let pos = findPosition cmp (bn_keys node) key
              in if pos \<ge> length (bn_children node) then None
                 else searchNode cmp fuel (bn_children node ! pos) key bt)"

text \<open>\<open>nodeBound\<close>: no chain of child or next pointers of a tree is longer than its number of nodes.\<close>

abbreviation nodeBound :: "('k, 'v) BTree \<Rightarrow> nat" where
  "nodeBound bt \<equiv> length (bt_nodes bt)"

definition bt_Search :: "('k \<Rightarrow> 'k \<Rightarrow> int) \<Rightarrow> 'k \<Rightarrow> ('k, 'v) BTree \<Rightarrow> 'v option option" where
  "bt_Search cmp key bt = searchNode cmp (nodeBound bt) (bt_root bt) key bt"

definition bt_Insert ::
  "('k \<Rightarrow> 'k \<Rightarrow> int) \<Rightarrow> 'k \<Rightarrow> 'v \<Rightarrow> ('k, 'v) BTree \<Rightarrow> ((index_error + unit) \<times> ('k, 'v) BTree) option" where
  "bt_Insert cmp key val bt =
     (case searchNode cmp (nodeBound bt) (bt_root bt) key bt of
        None \<Rightarrow> None
      | Some (Some _) \<Rightarrow> Some (Inl ErrDuplicateKey, bt)
      | Some None \<Rightarrow>
         (case insertIntoNode cmp (nodeBound bt) (bt_root bt) key val bt of
            None \<Rightarrow> None
          | Some (newRoot, bt1) \<Rightarrow>
             let bt2 = (case newRoot of None \<Rightarrow> bt1 | Some r \<Rightarrow> bt1\<lparr>bt_root := r, bt_height := bt_height bt1 + 1\<rparr>)
             in Some (Inr (), bt2\<lparr>bt_size := bt_size bt2 + 1\<rparr>)))"

subsection \<open>Deletion\<close>

fun index_of :: "('k \<Rightarrow> 'k \<Rightarrow> int) \<Rightarrow> 'k \<Rightarrow> 'k list \<Rightarrow> nat option" where
  "index_of cmp key [] = None"
| "index_of cmp key (k # ks) = (if cmp key k = 0 then Some 0 else map_option Suc (index_of cmp key ks))"

fun deleteFromNode :: "('k \<Rightarrow> 'k \<Rightarrow> int) \<Rightarrow> nat \<Rightarrow> nat \<Rightarrow> 'k \<Rightarrow> ('k, 'v) BTree \<Rightarrow> (bool \<times> ('k, 'v) BTree) option" where
  "deleteFromNode cmp 0 n key bt = None"
| "deleteFromNode cmp (Suc fuel) n key bt =
     (if n \<ge> length (bt_nodes bt) then None
      else let node = bt_nodes bt ! n
      in if bn_isLeaf node then
           (case index_of cmp key (bn_keys node) of
              None \<Rightarrow> Some (False, bt)
            | Some i \<Rightarrow>
               if i \<ge> length (bn_values node) then None
               else Some (True, set_node n (node\<lparr>bn_keys := take i (bn_keys node) @ drop (Suc i) (bn_keys node),
                                               bn_values := take i (bn_values node) @ drop (Suc i) (bn_values node)\<rparr>) bt))
         else let pos = findPosition cmp (bn_keys node) key
              in if pos \<ge> length (bn_children node) then None
                 else deleteFromNode cmp fuel (bn_children node ! pos) key bt)"

definition bt_Delete :: "('k \<Rightarrow> 'k \<Rightarrow> int) \<Rightarrow> 'k \<Rightarrow> ('k, 'v) BTree \<Rightarrow> ((index_error + unit) \<times> ('k, 'v) BTree) option" where
  "bt_Delete cmp key bt =
     (case searchNode cmp (nodeBound bt) (bt_root bt) key bt of
        None \<Rightarrow> None
      | Some None \<Rightarrow> Some (Inl ErrKeyNotFound, bt)
      | Some (Some _) \<Rightarrow>
         (case deleteFromNode cmp (nodeBound bt) (bt_root bt) key bt of
            None \<Rightarrow> None
          | Some (_, bt1) \<Rightarrow> Some (Inr (), bt1\<lparr>bt_size := bt_size bt1 - 1\<rparr>)))"

subsection \<open>Range scan\<close>

fun leftmost :: "nat \<Rightarrow> nat \<Rightarrow> ('k, 'v) BTree \<Rightarrow> nat option" where
  "leftmost 0 n bt = None"
| "leftmost (Suc fuel) n bt =
     (if n \<ge> length (bt_nodes bt) then None
      else let node = bt_nodes bt ! n
      in if bn_isLeaf node then Some n
         else case bn_children node of [] \<Rightarrow> None | c # _ \<Rightarrow> leftmost fuel c bt)"

fun findLeaf :: "('k \<Rightarrow> 'k \<Rightarrow> int) \<Rightarrow> nat \<Rightarrow> nat \<Rightarrow> 'k \<Rightarrow> ('k, 'v) BTree \<Rightarrow> nat option" where
  "findLeaf cmp 0 n key bt = None"
| "findLeaf cmp (Suc fuel) n key bt =
     (if n \<ge> length (bt_nodes bt) then None
      else let node = bt_nodes bt ! n
      in if bn_isLeaf node then Some n
         else let pos = findPosition cmp (bn_keys node) key
              in if pos \<ge> length (bn_children node) then None
                 else findLeaf cmp fuel (bn_children node ! pos) key bt)"

text \<open>
  The pairs of one leaf that are in range, and whether the scan has passed the end.
\<close>

fun scan_leaf ::
  "('k \<Rightarrow> 'k \<Rightarrow> int) \<Rightarrow> 'k option \<Rightarrow> 'k option \<Rightarrow> 'k list \<Rightarrow> 'v list \<Rightarrow> (('k \<times> 'v) list \<times> bool) option" where
  "scan_leaf cmp start end' [] vs = Some ([], False)"
| "scan_leaf cmp start end' (k # ks) vs =
     (let includeStart = (case start of None \<Rightarrow> True | Some s \<Rightarrow> cmp k s \<ge> 0);
          includeEnd = (case end' of None \<Rightarrow> True | Some e \<Rightarrow> cmp k e \<le> 0);
          past = (case end' of None \<Rightarrow> False | Some e \<Rightarrow> cmp k e > 0)
      in if includeStart \<and> includeEnd \<and> vs = [] then None
         else let here = (if includeStart \<and> includeEnd then [(k, hd vs)] else [])
              in if past then Some (here, True)
                 else case scan_leaf cmp start end' ks (tl vs) of
                   None \<Rightarrow> None | Some (rest, done) \<Rightarrow> Some (here @ rest, done))"

fun scan_leaves ::
  "('k \<Rightarrow> 'k \<Rightarrow> int) \<Rightarrow> 'k option \<Rightarrow> 'k option \<Rightarrow> nat \<Rightarrow> nat option \<Rightarrow> ('k, 'v) BTree \<Rightarrow> ('k \<times> 'v) list option" where
  "scan_leaves cmp start end' fuel None bt = Some []"
| "scan_leaves cmp start end' 0 (Some n) bt = None"
| "scan_leaves cmp start end' (Suc fuel) (Some n) bt =
     (if n \<ge> length (bt_nodes bt) then None
      else let leaf = bt_nodes bt ! n
      in case scan_leaf cmp start end' (bn_keys leaf) (bn_values leaf) of
           None \<Rightarrow> None
         | Some (here, done) \<Rightarrow>
            if done then Some here
            else map_option (\<lambda>rest. here @ rest) (scan_leaves cmp start end' fuel (bn_next leaf) bt))"

definition RangeScan ::
  "('k \<Rightarrow> 'k \<Rightarrow> int) \<Rightarrow> 'k option \<Rightarrow> 'k option \<Rightarrow> ('k, 'v) BTree \<Rightarrow> ('k \<times> 'v) list option" where
  "RangeScan cmp start end' bt =
     (case (case start of None \<Rightarrow> leftmost (nodeBound bt) (bt_root bt) bt
                        | Some s \<Rightarrow> findLeaf cmp (nodeBound bt) (bt_root bt) s bt) of
        None \<Rightarrow> None
      | Some leaf \<Rightarrow> scan_leaves cmp start end' (nodeBound bt) (Some leaf) bt)"

section \<open>The tree that the nodes represent\<close>

datatype ('k, 'v) btr = Lf nat "('k \<times> 'v) list" | Nd nat "'k list" "('k, 'v) btr list"

fun addr :: "('k, 'v) btr \<Rightarrow> nat" where
  "addr (Lf a _) = a"
| "addr (Nd a _ _) = a"

fun firstLeaf :: "('k, 'v) btr \<Rightarrow> nat" where
  "firstLeaf (Lf a _) = a"
| "firstLeaf (Nd a _ []) = a"
| "firstLeaf (Nd a _ (c # cs)) = firstLeaf c"

fun entries :: "('k, 'v) btr \<Rightarrow> ('k \<times> 'v) list" where
  "entries (Lf _ kvs) = kvs"
| "entries (Nd _ _ cs) = concat (map entries cs)"

fun addrs :: "('k, 'v) btr \<Rightarrow> nat list" where
  "addrs (Lf a _) = [a]"
| "addrs (Nd a _ cs) = a # concat (map addrs cs)"

text \<open>
  \<open>rep h p ex t\<close>: the store \<open>h\<close> holds \<open>t\<close>, whose root has the parent \<open>p\<close> and whose last leaf has the next
  pointer \<open>ex\<close>.
\<close>

fun rep :: "('k, 'v) BTreeNode list \<Rightarrow> nat option \<Rightarrow> nat option \<Rightarrow> ('k, 'v) btr \<Rightarrow> bool"
and reps :: "('k, 'v) BTreeNode list \<Rightarrow> nat option \<Rightarrow> nat option \<Rightarrow> ('k, 'v) btr list \<Rightarrow> bool" where
  "rep h p ex (Lf a kvs) \<longleftrightarrow> a < length h \<and>
     h ! a = \<lparr>bn_isLeaf = True, bn_keys = map fst kvs, bn_values = map snd kvs, bn_children = [], bn_next = ex, bn_parent = p\<rparr>"
| "rep h p ex (Nd a ks cs) \<longleftrightarrow> a < length h \<and>
     h ! a = \<lparr>bn_isLeaf = False, bn_keys = ks, bn_values = [], bn_children = map addr cs, bn_next = None, bn_parent = p\<rparr> \<and>
     reps h (Some a) ex cs"
| "reps h p ex [] \<longleftrightarrow> True"
| "reps h p ex (c # cs) \<longleftrightarrow> rep h p (case cs of [] \<Rightarrow> ex | c' # _ \<Rightarrow> Some (firstLeaf c')) c \<and> reps h p ex cs"

text \<open>
  \<open>within\<close>: a key between the separators on its two sides; \<open>swithin\<close>: a separator between its neighbours.
  \<open>ordered cmp K m lo hi d t\<close>: \<open>t\<close> has all its leaves at depth \<open>d\<close>, fewer than \<open>m\<close> keys in each node, and its keys
  in increasing order between \<open>lo\<close> and \<open>hi\<close>.
\<close>

definition within :: "('k \<Rightarrow> 'k \<Rightarrow> int) \<Rightarrow> 'k set \<Rightarrow> 'k option \<Rightarrow> 'k option \<Rightarrow> 'k \<Rightarrow> bool" where
  "within cmp K lo hi k \<longleftrightarrow> k \<in> K \<and> (\<forall>l. lo = Some l \<longrightarrow> l \<in> K \<and> cmp l k \<le> 0) \<and> (\<forall>h. hi = Some h \<longrightarrow> h \<in> K \<and> cmp k h < 0)"

definition swithin :: "('k \<Rightarrow> 'k \<Rightarrow> int) \<Rightarrow> 'k set \<Rightarrow> 'k option \<Rightarrow> 'k option \<Rightarrow> 'k \<Rightarrow> bool" where
  "swithin cmp K lo hi k \<longleftrightarrow> within cmp K lo hi k \<and> lo \<noteq> Some k"

abbreviation increasing :: "('k \<Rightarrow> 'k \<Rightarrow> int) \<Rightarrow> 'k list \<Rightarrow> bool" where
  "increasing cmp ks \<equiv> sorted_wrt (\<lambda>a b. cmp a b < 0) ks"

fun ordered :: "('k \<Rightarrow> 'k \<Rightarrow> int) \<Rightarrow> 'k set \<Rightarrow> int \<Rightarrow> 'k option \<Rightarrow> 'k option \<Rightarrow> nat \<Rightarrow> ('k, 'v) btr \<Rightarrow> bool"
and orderedc :: "('k \<Rightarrow> 'k \<Rightarrow> int) \<Rightarrow> 'k set \<Rightarrow> int \<Rightarrow> 'k option \<Rightarrow> 'k option \<Rightarrow> nat \<Rightarrow> 'k list \<Rightarrow> ('k, 'v) btr list \<Rightarrow> bool" where
  "ordered cmp K m lo hi d (Lf a kvs) \<longleftrightarrow>
     d = 0 \<and> int (length kvs) < m \<and> increasing cmp (map fst kvs) \<and> list_all (within cmp K lo hi) (map fst kvs)"
| "ordered cmp K m lo hi d (Nd a ks cs) \<longleftrightarrow>
     0 < d \<and> int (length ks) < m \<and> orderedc cmp K m lo hi (d - 1) ks cs"
| "orderedc cmp K m lo hi d [] [c] \<longleftrightarrow> ordered cmp K m lo hi d c"
| "orderedc cmp K m lo hi d (k # ks) (c # cs) \<longleftrightarrow>
     swithin cmp K lo hi k \<and> ordered cmp K m lo (Some k) d c \<and> orderedc cmp K m (Some k) hi d ks cs"
| "orderedc cmp K m lo hi d _ _ \<longleftrightarrow> False"

subsection \<open>Representation lemmas\<close>

lemma addr_in_addrs [simp]: "addr t \<in> set (addrs t)"
  by (cases t) auto

lemma addrs_neq_Nil [simp]: "addrs t \<noteq> []"
  by (cases t) auto

lemma rep_frame:
  "rep h p ex t \<Longrightarrow> (\<And>a. a \<in> set (addrs t) \<Longrightarrow> h' ! a = h ! a) \<Longrightarrow> length h \<le> length h' \<Longrightarrow> rep h' p ex t"
  "reps h p ex ts \<Longrightarrow> (\<And>a t. t \<in> set ts \<Longrightarrow> a \<in> set (addrs t) \<Longrightarrow> h' ! a = h ! a) \<Longrightarrow> length h \<le> length h' \<Longrightarrow> reps h' p ex ts"
proof (induction h p ex t and h p ex ts rule: rep_reps.induct)
  case (4 h p ex c cs) then show ?case by (cases cs) auto
qed auto

lemma rep_addr_bound:
  "rep h p ex t \<Longrightarrow> a \<in> set (addrs t) \<Longrightarrow> a < length h"
  "reps h p ex ts \<Longrightarrow> t \<in> set ts \<Longrightarrow> a \<in> set (addrs t) \<Longrightarrow> a < length h"
  by (induction h p ex t and h p ex ts arbitrary: a and a t rule: rep_reps.induct) auto

lemma reps_append:
  "reps h p ex (xs @ ys) \<longleftrightarrow> reps h p (case ys of [] \<Rightarrow> ex | y # _ \<Rightarrow> Some (firstLeaf y)) xs \<and> reps h p ex ys"
proof (induction xs)
  case (Cons x xs) then show ?case by (cases xs; cases ys) auto
qed simp

lemma rep_reparent:
  assumes "rep h p ex t" "distinct (addrs t)" "length h \<le> length h'"
    and "\<And>a. a \<in> set (addrs t) \<Longrightarrow> h' ! a = (if a = addr t then (h ! a)\<lparr>bn_parent := q\<rparr> else h ! a)"
  shows "rep h' q ex t"
proof (cases t)
  case (Nd a ks cs)
  have fr: "h' ! b = h ! b" if "c \<in> set cs" "b \<in> set (addrs c)" for b c
  proof -
    have "b \<noteq> a" using assms(2) that unfolding Nd by auto
    moreover have "b \<in> set (addrs t)" using that unfolding Nd by auto
    ultimately show ?thesis using assms(4)[of b] unfolding Nd by simp
  qed
  have "reps h (Some a) ex cs" using assms(1) unfolding Nd by simp
  then have "reps h' (Some a) ex cs" by (rule rep_frame(2)[OF _ fr assms(3)])
  then show ?thesis using assms(1,3) assms(4)[of a] Nd by simp
next
  case (Lf a kvs)
  then show ?thesis using assms(1,3) assms(4)[of a] by simp
qed

lemma reps_reparent:
  assumes "reps h p ex ts" "distinct (concat (map addrs ts))" "length h \<le> length h'"
    and "\<And>t a. t \<in> set ts \<Longrightarrow> a \<in> set (addrs t) \<Longrightarrow> h' ! a = (if a = addr t then (h ! a)\<lparr>bn_parent := q\<rparr> else h ! a)"
  shows "reps h' q ex ts"
  using assms
proof (induction ts)
  case (Cons t ts)
  have "rep h' q (case ts of [] \<Rightarrow> ex | c' # _ \<Rightarrow> Some (firstLeaf c')) t"
    by (rule rep_reparent[of h p]) (use Cons.prems in auto)
  then show ?case using Cons by auto
qed simp

lemma distinct_addrs_child:
  assumes "distinct (concat (map addrs cs))" "c \<in> set cs" shows "distinct (addrs c)"
  using assms by (induction cs) auto

subsection \<open>Node updates\<close>

lemma nodes_set_node [simp]: "bt_nodes (set_node n nd bt) = (bt_nodes bt)[n := nd]"
  by (simp add: set_node_def)

lemma nodes_new_node [simp]: "bt_nodes (new_node nd bt) = bt_nodes bt @ [nd]"
  by (simp add: new_node_def)

lemma length_set_parent [simp]: "length (bt_nodes (set_parent p n bt)) = length (bt_nodes bt)"
  by (simp add: set_parent_def)

lemma nth_set_parent:
  "a < length (bt_nodes bt) \<Longrightarrow>
   bt_nodes (set_parent p n bt) ! a = (if a = n then (bt_nodes bt ! a)\<lparr>bn_parent := Some p\<rparr> else bt_nodes bt ! a)"
  by (auto simp: set_parent_def)

lemma length_fold_set_parent [simp]: "length (bt_nodes (fold (set_parent p) ns bt)) = length (bt_nodes bt)"
  by (induction ns arbitrary: bt) auto

lemma nth_fold_set_parent:
  "a < length (bt_nodes bt) \<Longrightarrow>
   bt_nodes (fold (set_parent p) ns bt) ! a = (if a \<in> set ns then (bt_nodes bt ! a)\<lparr>bn_parent := Some p\<rparr> else bt_nodes bt ! a)"
  by (induction ns arbitrary: bt) (auto simp: nth_set_parent)

definition same_header :: "('k, 'v) BTree \<Rightarrow> ('k, 'v) BTree \<Rightarrow> bool" where
  "same_header a b \<longleftrightarrow> bt_root a = bt_root b \<and> bt_order a = bt_order b \<and> bt_size a = bt_size b \<and> bt_height a = bt_height b"

lemma same_header_simps [simp]:
  "same_header bt bt" "same_header (set_node n nd bt) bt' = same_header bt bt'" "same_header (new_node nd bt) bt' = same_header bt bt'"
  "same_header (set_parent p n bt) bt' = same_header bt bt'" "same_header (bt\<lparr>bt_lastSplitKey := k\<rparr>) bt' = same_header bt bt'"
  by (simp_all add: same_header_def set_node_def new_node_def set_parent_def)

lemma same_header_fold_set_parent [simp]: "same_header (fold (set_parent p) ns bt) bt' = same_header bt bt'"
  by (induction ns arbitrary: bt) auto

lemma same_header_trans: "same_header a b \<Longrightarrow> same_header b c \<Longrightarrow> same_header a c"
  by (simp add: same_header_def)

subsection \<open>Order lemmas\<close>

context key_order
begin

lemma within_K: "within cmp K lo hi k \<Longrightarrow> k \<in> K"
  by (simp add: within_def)

lemma within_right:
  "within cmp K lo hi k \<Longrightarrow> within cmp K (Some k) hi x \<Longrightarrow> within cmp K lo hi x"
  by (auto simp: within_def intro: cmp_le_trans[of _ k x])

lemma within_left:
  "within cmp K lo hi k \<Longrightarrow> within cmp K lo (Some k) x \<Longrightarrow> within cmp K lo hi x"
  by (auto simp: within_def intro: cmp_trans[of x k])

lemma swithin_right:
  assumes "swithin cmp K lo hi k" "swithin cmp K (Some k) hi x" shows "swithin cmp K lo hi x"
proof -
  have "x \<in> K" "k \<in> K" "cmp k x \<le> 0" "k \<noteq> x" "within cmp K lo hi x"
    using assms within_right[of lo hi k x] by (auto simp: swithin_def within_def)
  moreover have "cmp x k \<le> 0" if "lo = Some x" using assms that by (auto simp: swithin_def within_def)
  ultimately show ?thesis using cmp_eq[of k x] cmp_flip[of k x] by (auto simp: swithin_def)
qed

lemma swithin_left:
  "swithin cmp K lo hi k \<Longrightarrow> swithin cmp K lo (Some k) x \<Longrightarrow> swithin cmp K lo hi x"
  by (simp add: swithin_def) (meson within_left)

lemma orderedc_Nil: "orderedc cmp K m lo hi d [] cs \<longleftrightarrow> (\<exists>c. cs = [c] \<and> ordered cmp K m lo hi d c)"
  by (cases cs; cases "tl cs") auto

lemma orderedc_Cons:
  "orderedc cmp K m lo hi d (k # ks) cs \<longleftrightarrow>
     (\<exists>c cs'. cs = c # cs' \<and> swithin cmp K lo hi k \<and> ordered cmp K m lo (Some k) d c \<and> orderedc cmp K m (Some k) hi d ks cs')"
  by (cases cs) auto

lemma orderedc_length: "orderedc cmp K m lo hi d ks cs \<Longrightarrow> length cs = Suc (length ks)"
  by (induction ks arbitrary: lo cs) (auto simp: orderedc_Nil orderedc_Cons)

lemma orderedc_within:
  assumes "orderedc cmp K m lo hi d ks cs" "c \<in> set cs" "e \<in> set (entries c)"
    and "\<And>c lo hi. c \<in> set cs \<Longrightarrow> ordered cmp K m lo hi d c \<Longrightarrow> (\<forall>e\<in>set (entries c). within cmp K lo hi (fst e))"
  shows "within cmp K lo hi (fst e)"
  using assms
proof (induction ks arbitrary: lo cs)
  case Nil then show ?case by (auto simp: orderedc_Nil)
next
  case (Cons k ks)
  then obtain c1 cs1 where cs: "cs = c1 # cs1" "swithin cmp K lo hi k" "ordered cmp K m lo (Some k) d c1"
      "orderedc cmp K m (Some k) hi d ks cs1" by (auto simp: orderedc_Cons)
  then have k: "within cmp K lo hi k" by (simp add: swithin_def)
  show ?case
  proof (cases "c = c1")
    case True then show ?thesis using Cons.prems(3,4) cs by (intro within_left[OF k]) auto
  next
    case False
    have "within cmp K (Some k) hi (fst e)"
      by (rule Cons.IH[of _ cs1]) (use False Cons.prems cs in auto)
    then show ?thesis by (rule within_right[OF k])
  qed
qed

lemma ordered_within: "ordered cmp K m lo hi d t \<Longrightarrow> \<forall>e\<in>set (entries t). within cmp K lo hi (fst e)"
proof (induction t arbitrary: lo hi d)
  case (Lf a kvs) then show ?case by (auto simp: list_all_iff)
next
  case (Nd a ks cs)
  show ?case
  proof
    fix e assume "e \<in> set (entries (Nd a ks cs))"
    then obtain c where c: "c \<in> set cs" "e \<in> set (entries c)" by auto
    show "within cmp K lo hi (fst e)"
      by (rule orderedc_within[OF _ c, of m _ _ "d - 1" ks]) (use Nd in auto)
  qed
qed

lemma orderedc_entries_within:
  assumes "orderedc cmp K m lo hi d ks cs" "e \<in> set (concat (map entries cs))"
  shows "within cmp K lo hi (fst e)"
proof -
  obtain c where c: "c \<in> set cs" "e \<in> set (entries c)" using assms(2) by auto
  show ?thesis by (rule orderedc_within[OF assms(1) c]) (rule ordered_within)
qed

lemma increasing_append:
  assumes "increasing cmp xs" "increasing cmp ys" "\<forall>x\<in>set xs. within cmp K lo (Some k) x" "\<forall>y\<in>set ys. within cmp K (Some k) hi y"
  shows "increasing cmp (xs @ ys)"
  using assms by (auto simp: sorted_wrt_append within_def intro: cmp_less_le[of _ k])

lemma orderedc_increasing:
  assumes "orderedc cmp K m lo hi d ks cs"
    and "\<And>c lo hi. c \<in> set cs \<Longrightarrow> ordered cmp K m lo hi d c \<Longrightarrow> increasing cmp (map fst (entries c))"
  shows "increasing cmp (map fst (concat (map entries cs)))"
  using assms
proof (induction ks arbitrary: lo cs)
  case Nil then show ?case by (auto simp: orderedc_Nil)
next
  case (Cons k ks)
  then obtain c1 cs1 where cs: "cs = c1 # cs1" "ordered cmp K m lo (Some k) d c1" "orderedc cmp K m (Some k) hi d ks cs1"
    by (auto simp: orderedc_Cons)
  have tl: "increasing cmp (map fst (concat (map entries cs1)))"
    by (rule Cons.IH[OF cs(3)]) (use cs Cons.prems(2) in auto)
  have "within cmp K (Some k) hi (fst e)" if "e \<in> set (concat (map entries cs1))" for e
    by (rule orderedc_entries_within[OF cs(3) that])
  then show ?case unfolding cs(1) list.map concat.simps map_append
    by (intro increasing_append[OF _ tl]) (use cs Cons.prems(2) ordered_within[OF cs(2)] in auto)
qed

lemma ordered_increasing: "ordered cmp K m lo hi d t \<Longrightarrow> increasing cmp (map fst (entries t))"
proof (induction t arbitrary: lo hi d)
  case (Nd a ks cs)
  then show ?case using orderedc_increasing[of m lo hi "d - 1" ks cs] by auto
qed simp

end

text \<open>
  The child that a key belongs to, as a hole in a node: the key range \<open>lo'\<close> to \<open>hi'\<close> of the child, and the two ways in which
  insertion fills the hole again, with one tree or with two trees and a new separator.
\<close>

definition hole ::
  "('k \<Rightarrow> 'k \<Rightarrow> int) \<Rightarrow> 'k set \<Rightarrow> int \<Rightarrow> 'k option \<Rightarrow> 'k option \<Rightarrow> nat \<Rightarrow> 'k list \<Rightarrow> 'k list \<Rightarrow>
   ('k, 'v) btr list \<Rightarrow> ('k, 'v) btr list \<Rightarrow> 'k option \<Rightarrow> 'k option \<Rightarrow> bool" where
  "hole cmp K m lo hi d ks1 ks2 cs1 cs2 lo' hi' \<longleftrightarrow>
     length cs1 = length ks1 \<and>
     (\<forall>c. ordered cmp K m lo' hi' d c \<longrightarrow> orderedc cmp K m lo hi d (ks1 @ ks2) (cs1 @ c # cs2)) \<and>
     (\<forall>l sk r. swithin cmp K lo' hi' sk \<longrightarrow> ordered cmp K m lo' (Some sk) d l \<longrightarrow> ordered cmp K m (Some sk) hi' d r \<longrightarrow>
        orderedc cmp K m lo hi d (ks1 @ sk # ks2) (cs1 @ l # r # cs2)) \<and>
     (\<forall>x. within cmp K lo' hi' x \<longrightarrow>
        within cmp K lo hi x \<and> findPosition cmp (ks1 @ ks2) x = length ks1 \<and>
        (\<forall>e\<in>set (concat (map entries cs1)). cmp (fst e) x < 0) \<and> (\<forall>e\<in>set (concat (map entries cs2)). cmp x (fst e) < 0))"

context key_order
begin

lemma swithin_before:
  assumes "swithin cmp K lo hi k" "swithin cmp K lo (Some k) sk" shows "swithin cmp K (Some sk) hi k"
proof -
  have "sk \<in> K" "k \<in> K" "cmp sk k < 0" using assms by (auto simp: swithin_def within_def)
  moreover from this have "sk \<noteq> k" using cmp_refl[of k] by auto
  ultimately show ?thesis using assms(1) by (auto simp: swithin_def within_def)
qed

lemma hole_first:
  assumes "swithin cmp K lo hi k" "orderedc cmp K m (Some k) hi d ks cs"
  shows "hole cmp K m lo hi d [] (k # ks) [] cs lo (Some k)"
proof -
  have k: "within cmp K lo hi k" using assms(1) by (simp add: swithin_def)
  have "cmp x (fst e) < 0" if "within cmp K lo (Some k) x" "e \<in> set (concat (map entries cs))" for x e
    using orderedc_entries_within[OF assms(2) that(2)] that(1) by (auto simp: within_def intro: cmp_less_le[of _ k])
  moreover have "cmp x k < 0" if "within cmp K lo (Some k) x" for x using that by (simp add: within_def)
  ultimately show ?thesis
    using assms within_left[OF k] swithin_left[OF assms(1)] swithin_before[OF assms(1)] by (auto simp: hole_def)
qed

lemma hole_next:
  assumes "swithin cmp K lo hi k" "ordered cmp K m lo (Some k) d c" "hole cmp K m (Some k) hi d ks1 ks2 cs1 cs2 lo' hi'"
  shows "hole cmp K m lo hi d (k # ks1) ks2 (c # cs1) cs2 lo' hi'"
proof -
  have k: "within cmp K lo hi k" using assms(1) by (simp add: swithin_def)
  have x: "within cmp K (Some k) hi x" "\<not> cmp x k < 0" if "within cmp K lo' hi' x" for x
  proof -
    show w: "within cmp K (Some k) hi x" using assms(3) that by (simp add: hole_def)
    then have "x \<in> K" "k \<in> K" "cmp k x \<le> 0" by (auto simp: within_def)
    then show "\<not> cmp x k < 0" using cmp_flip[of k x] by linarith
  qed
  have "\<forall>e\<in>set (entries c). cmp (fst e) x < 0" if "within cmp K lo' hi' x" for x
    using ordered_within[OF assms(2)] x(1)[OF that(1)] by (auto simp: within_def intro: cmp_less_le[of _ k])
  then show ?thesis
    using assms x within_right[OF k] by (simp add: hole_def ball_Un)
qed

lemma locate:
  assumes "orderedc cmp K m lo hi d ks cs" "within cmp K lo hi key"
  obtains ks1 ks2 cs1 c cs2 lo' hi' where "ks = ks1 @ ks2" "cs = cs1 @ c # cs2"
    "hole cmp K m lo hi d ks1 ks2 cs1 cs2 lo' hi'" "ordered cmp K m lo' hi' d c" "within cmp K lo' hi' key"
  using assms
proof (induction ks arbitrary: lo cs thesis)
  case Nil
  then obtain c where "cs = [c]" "ordered cmp K m lo hi d c" by (auto simp: orderedc_Nil)
  then show ?case using Nil.prems by (intro Nil.prems(1)[of "[]" "[]" "[]" c "[]" lo hi]) (auto simp: hole_def)
next
  case (Cons k ks)
  then obtain c1 cs1 where cs: "cs = c1 # cs1" "swithin cmp K lo hi k" "ordered cmp K m lo (Some k) d c1"
      "orderedc cmp K m (Some k) hi d ks cs1" by (auto simp: orderedc_Cons)
  have kK: "k \<in> K" "key \<in> K" using cs(2) Cons.prems(3) by (auto simp: swithin_def within_def)
  show ?case
  proof (cases "cmp key k < 0")
    case True
    then have "within cmp K lo (Some k) key" using Cons.prems(3) kK by (auto simp: within_def)
    then show ?thesis using cs hole_first[OF cs(2,4)]
      by (intro Cons.prems(1)[of "[]" "k # ks" "[]" c1 cs1 lo "Some k"]) auto
  next
    case False
    then have "within cmp K (Some k) hi key" using Cons.prems(3) kK cmp_not_less[of key k] by (auto simp: within_def)
    from Cons.IH[OF _ cs(4) this] obtain ks1 ks2 cs1' c cs2 lo' hi' where *: "ks = ks1 @ ks2" "cs1 = cs1' @ c # cs2"
      "hole cmp K m (Some k) hi d ks1 ks2 cs1' cs2 lo' hi'" "ordered cmp K m lo' hi' d c" "within cmp K lo' hi' key"
      by blast
    show ?thesis using * cs hole_next[OF cs(2,3) *(3)]
      by (intro Cons.prems(1)[of "k # ks1" ks2 "c1 # cs1'" c cs2 lo' hi']) auto
  qed
qed

text \<open>Splitting a node's separators and children around a promoted key.\<close>

lemma orderedc_split:
  assumes "orderedc cmp K m lo hi d (ks1 @ k # ks2) (cs1 @ cs2)" "length cs1 = Suc (length ks1)"
  shows "swithin cmp K lo hi k \<and> orderedc cmp K m lo (Some k) d ks1 cs1 \<and> orderedc cmp K m (Some k) hi d ks2 cs2"
  using assms
proof (induction ks1 arbitrary: lo cs1)
  case Nil
  then obtain c where "cs1 = [c]" by (cases cs1) auto
  then show ?case using Nil by auto
next
  case (Cons k1 ks1)
  then obtain c cs1' where cs: "cs1 = c # cs1'" by (cases cs1) auto
  with Cons.prems have p: "swithin cmp K lo hi k1" "ordered cmp K m lo (Some k1) d c"
      "orderedc cmp K m (Some k1) hi d (ks1 @ k # ks2) (cs1' @ cs2)" "length cs1' = Suc (length ks1)" by auto
  note ih = Cons.IH[OF p(3,4)]
  have kk: "swithin cmp K lo hi k" by (rule swithin_right[OF p(1)]) (use ih in simp)
  have "cmp k1 k \<le> 0" "k1 \<noteq> k" "k \<in> K" "k1 \<in> K" using ih by (auto simp: swithin_def within_def)
  then have "cmp k1 k < 0" using cmp_eq[of k1 k] by auto
  then have "swithin cmp K lo (Some k) k1" using p(1) \<open>k \<in> K\<close> by (auto simp: swithin_def within_def)
  then show ?case using cs kk ih p by auto
qed

end

end
