(* ===== verification/BtreeMap.thy ===== *)
theory BtreeMap
  imports Btree
begin

text \<open>
  The B+ tree as a sorted map: insertion, lookup, deletion and range scan of \<^verbatim>\<open>pkg/index/btree.go\<close> on the store of
  nodes, for keys that the comparison orders (the locale \<open>key_order\<close>).
\<close>

subsection \<open>What insertion does to a subtree\<close>

definition keeps :: "('k, 'v) BTree \<Rightarrow> ('k, 'v) BTree \<Rightarrow> nat set \<Rightarrow> bool" where
  "keeps bt bt' A \<longleftrightarrow> same_header bt' bt \<and> length (bt_nodes bt) \<le> length (bt_nodes bt') \<and>
     (\<forall>a<length (bt_nodes bt). a \<notin> A \<longrightarrow> bt_nodes bt' ! a = bt_nodes bt ! a)"

abbreviation fresh :: "('k, 'v) BTree \<Rightarrow> ('k, 'v) BTree \<Rightarrow> nat set" where
  "fresh bt bt' \<equiv> {length (bt_nodes bt)..<length (bt_nodes bt')}"

definition rebuilt where
  "rebuilt cmp K bt bt' p ex lo hi d t t' \<longleftrightarrow>
     keeps bt bt' (set (addrs t)) \<and> addr t' = addr t \<and> firstLeaf t' = firstLeaf t \<and> rep (bt_nodes bt') p ex t' \<and>
     ordered cmp K (bt_order bt) lo hi d t' \<and> distinct (addrs t') \<and> set (addrs t') \<subseteq> set (addrs t) \<union> fresh bt bt'"

definition ins_one where
  "ins_one cmp K bt bt' p ex lo hi d t e t' \<longleftrightarrow>
     rebuilt cmp K bt bt' p ex lo hi d t t' \<and> set (entries t') = insert e (set (entries t))"

definition ins_two where
  "ins_two cmp K bt bt' p ex lo hi d t e l sk r \<longleftrightarrow>
     keeps bt bt' (set (addrs t)) \<and> addr l = addr t \<and> firstLeaf l = firstLeaf t \<and>
     rep (bt_nodes bt') p (Some (firstLeaf r)) l \<and> rep (bt_nodes bt') p ex r \<and>
     swithin cmp K lo hi sk \<and> ordered cmp K (bt_order bt) lo (Some sk) d l \<and> ordered cmp K (bt_order bt) (Some sk) hi d r \<and>
     set (entries l) \<union> set (entries r) = insert e (set (entries t)) \<and>
     distinct (addrs l @ addrs r) \<and> set (addrs l @ addrs r) \<subseteq> set (addrs t) \<union> fresh bt bt'"

lemma keeps_refl [simp]: "keeps bt bt A"
  by (simp add: keeps_def)

lemma keeps_order: "keeps a b A \<Longrightarrow> bt_order b = bt_order a"
  by (simp add: keeps_def same_header_def)

lemma keeps_mono: "keeps a b A \<Longrightarrow> A \<subseteq> B \<Longrightarrow> keeps a b B"
  by (auto simp: keeps_def)

lemma keeps_length: "keeps a b A \<Longrightarrow> length (bt_nodes a) \<le> length (bt_nodes b)"
  by (simp add: keeps_def)

lemma keeps_nth: "keeps a b A \<Longrightarrow> n < length (bt_nodes a) \<Longrightarrow> n \<notin> A \<Longrightarrow> bt_nodes b ! n = bt_nodes a ! n"
  by (simp add: keeps_def)

lemma keeps_trans:
  assumes "keeps a b A" "keeps b c B" "B \<subseteq> A \<union> fresh a b" shows "keeps a c A"
proof -
  have "bt_nodes c ! n = bt_nodes a ! n" if "n < length (bt_nodes a)" "n \<notin> A" for n
  proof -
    have "n \<notin> B" using assms(3) that by auto
    then show ?thesis using keeps_nth[OF assms(1) that] keeps_nth[OF assms(2)] keeps_length[OF assms(1)] that(1) by simp
  qed
  then show ?thesis using assms(1,2) by (auto simp: keeps_def intro: same_header_trans)
qed

lemma keeps_set_node [simp]: "n \<in> A \<Longrightarrow> keeps bt (set_node n nd bt) A"
  unfolding keeps_def by (simp, metis nth_list_update_neq)

lemma keeps_lastSplitKey [simp]: "keeps bt (bt'\<lparr>bt_lastSplitKey := k\<rparr>) A = keeps bt bt' A"
  by (simp add: keeps_def)

text \<open>Filling the hole of a node again in the store.\<close>

lemma reps_refill:
  assumes "reps (bt_nodes bt) q ex (cs1 @ c # cs2)" "keeps bt bt' (set (addrs c))" "distinct (concat (map addrs (cs1 @ c # cs2)))"
    and "reps (bt_nodes bt') q (case cs2 of [] \<Rightarrow> ex | y # _ \<Rightarrow> Some (firstLeaf y)) new" "new \<noteq> []" "firstLeaf (hd new) = firstLeaf c"
  shows "reps (bt_nodes bt') q ex (cs1 @ new @ cs2)"
proof -
  have old: "reps (bt_nodes bt) q (Some (firstLeaf c)) cs1" "reps (bt_nodes bt) q ex cs2"
    using assms(1) by (auto simp: reps_append)
  have fr: "bt_nodes bt' ! a = bt_nodes bt ! a" if "t \<in> set cs1 \<union> set cs2" "a \<in> set (addrs t)" for a t
  proof (rule keeps_nth[OF assms(2)])
    show "a < length (bt_nodes bt)" using rep_addr_bound(2)[OF assms(1), of t a] that by auto
    show "a \<notin> set (addrs c)" using assms(3) that by auto
  qed
  have cs1: "reps (bt_nodes bt') q (Some (firstLeaf c)) cs1"
    by (rule rep_frame(2)[OF old(1) fr keeps_length[OF assms(2)]]) auto
  have "reps (bt_nodes bt') q ex cs2"
    by (rule rep_frame(2)[OF old(2) fr keeps_length[OF assms(2)]]) auto
  then have nw: "reps (bt_nodes bt') q ex (new @ cs2)" using assms(4) by (simp only: reps_append)
  have "(case new @ cs2 of [] \<Rightarrow> ex | y # _ \<Rightarrow> Some (firstLeaf y)) = Some (firstLeaf c)"
    using assms(5,6) by (cases new) auto
  then show ?thesis using cs1 nw by (simp only: reps_append[of _ _ _ cs1])
qed

subsection \<open>Insertion into a leaf\<close>

context key_order
begin

lemma leaf_position:
  assumes "increasing cmp (map fst kvs)" "fst ` set kvs \<subseteq> K" "key \<in> K" "key \<notin> fst ` set kvs"
  obtains xs ys where "kvs = xs @ ys" "findPosition cmp (map fst kvs) key = length xs"
    "\<forall>x\<in>set xs. cmp (fst x) key < 0" "\<forall>y\<in>set ys. cmp key (fst y) < 0"
  using assms
proof (induction kvs arbitrary: thesis)
  case Nil then show ?case by simp
next
  case (Cons e kvs)
  have K: "fst e \<in> K" "key \<in> K" "fst e \<noteq> key" using Cons.prems by auto
  show ?case
  proof (cases "cmp key (fst e) < 0")
    case True
    have "cmp key (fst y) < 0" if "y \<in> set kvs" for y
      by (rule cmp_trans[of _ "fst e"]) (use Cons.prems that True in auto)
    then show ?thesis using True by (intro Cons.prems(1)[of "[]" "e # kvs"]) auto
  next
    case False
    then have lt: "cmp (fst e) key < 0" using cmp_flip[OF K(1,2)] cmp_eq[OF K(1,2)] K(3) by linarith
    obtain xs ys where "kvs = xs @ ys" "findPosition cmp (map fst kvs) key = length xs"
        "\<forall>x\<in>set xs. cmp (fst x) key < 0" "\<forall>y\<in>set ys. cmp key (fst y) < 0"
      using Cons.IH Cons.prems by auto
    then show ?thesis using lt False by (intro Cons.prems(1)[of "e # xs" ys]) auto
  qed
qed

lemma increasing_insert:
  assumes "increasing cmp (map fst (xs @ ys))" "\<forall>x\<in>set xs. cmp (fst x) key < 0" "\<forall>y\<in>set ys. cmp key (fst y) < 0"
  shows "increasing cmp (map fst (xs @ (key, v) # ys))"
  using assms by (auto simp: sorted_wrt_append)

lemma splitLeaf_ok:
  assumes node: "a < length (bt_nodes bt)" "bt_nodes bt ! a = \<lparr>bn_isLeaf = True, bn_keys = map fst kvs, bn_values = map snd kvs,
      bn_children = [], bn_next = ex, bn_parent = p\<rparr>"
    and kvs: "2 \<le> length kvs" "int (length kvs) \<le> bt_order bt" "increasing cmp (map fst kvs)" "list_all (within cmp K lo hi) (map fst kvs)"
  obtains bt' sk xs ys where "splitLeaf a bt = Some (attachSplit a (length (bt_nodes bt)) sk p bt')" "kvs = xs @ ys"
    "keeps bt bt' {a}" "length (bt_nodes bt') = Suc (length (bt_nodes bt))"
    "rep (bt_nodes bt') p (Some (length (bt_nodes bt))) (Lf a xs)" "rep (bt_nodes bt') p ex (Lf (length (bt_nodes bt)) ys)"
    "swithin cmp K lo hi sk" "ordered cmp K (bt_order bt) lo (Some sk) 0 (Lf a xs)"
    "ordered cmp K (bt_order bt) (Some sk) hi 0 (Lf (length (bt_nodes bt)) ys)"
proof -
  define n where "n = length (bt_nodes bt)"
  define xs where "xs = take (length kvs div 2) kvs"
  define ys where "ys = drop (length kvs div 2) kvs"
  have len: "0 < length xs" "0 < length ys" "length xs < length kvs" "length ys < length kvs"
    using kvs(1) by (auto simp: xs_def ys_def)
  have small: "int (length xs) < bt_order bt" "int (length ys) < bt_order bt" using len(3,4) kvs(2) by linarith+
  have xy: "kvs = xs @ ys" by (simp add: xs_def ys_def)
  obtain y ys' where y: "ys = y # ys'" using len(2) by (cases ys) auto
  define bt' where "bt' = set_node a \<lparr>bn_isLeaf = True, bn_keys = map fst xs, bn_values = map snd xs, bn_children = [],
      bn_next = Some n, bn_parent = p\<rparr> (new_node \<lparr>bn_isLeaf = True, bn_keys = map fst ys, bn_values = map snd ys,
      bn_children = [], bn_next = ex, bn_parent = p\<rparr> bt)"
  have run: "splitLeaf a bt = Some (attachSplit a n (fst y) p bt')"
    using y kvs(1) by (simp add: splitLeaf_def Let_def node n_def bt'_def xs_def ys_def take_map drop_map hd_map)
  have keep: "keeps bt bt' {a}" using node(1) by (auto simp: bt'_def keeps_def nth_append nth_list_update)
  have nodes: "length (bt_nodes bt') = Suc n" "bt_nodes bt' ! a = \<lparr>bn_isLeaf = True, bn_keys = map fst xs, bn_values = map snd xs, bn_children = [],
      bn_next = Some n, bn_parent = p\<rparr>" "bt_nodes bt' ! n = \<lparr>bn_isLeaf = True, bn_keys = map fst ys, bn_values = map snd ys,
      bn_children = [], bn_next = ex, bn_parent = p\<rparr>"
    using node(1) by (auto simp: bt'_def nth_append n_def nth_list_update)
  have w: "within cmp K lo hi (fst e)" if "e \<in> set kvs" for e using kvs(4) that by (simp add: list_all_iff)
  have lt: "cmp (fst x) (fst e) < 0" if "x \<in> set xs" "e \<in> set ys" for x e
    using kvs(3) that by (auto simp: xy sorted_wrt_append)
  have le: "cmp (fst y) (fst e) \<le> 0" if "e \<in> set ys" for e
    using kvs(3) that w[of y] cmp_refl[of "fst y"] by (auto simp: xy sorted_wrt_append y within_def)
  have yK: "fst y \<in> K" using w[of y] by (simp add: xy y within_def)
  have "lo \<noteq> Some (fst y)"
  proof
    assume lo: "lo = Some (fst y)"
    have "hd xs \<in> set xs" "hd xs \<in> set kvs" using len(1) xy by auto
    with lo w[of "hd xs"] lt[of "hd xs" y] cmp_flip[of "fst y" "fst (hd xs)"] show False by (auto simp: within_def y)
  qed
  then have "swithin cmp K lo hi (fst y)" using w[of y] by (simp add: swithin_def xy y)
  moreover have "ordered cmp K (bt_order bt) lo (Some (fst y)) 0 (Lf a xs)"
    using w lt[of _ y] small kvs(3) yK by (auto simp: list_all_iff xy y within_def sorted_wrt_append)
  moreover have "ordered cmp K (bt_order bt) (Some (fst y)) hi 0 (Lf n ys)"
    using w le small kvs(3) yK by (auto simp: list_all_iff xy within_def sorted_wrt_append)
  ultimately show ?thesis using run xy keep nodes node(1)
    by (intro that[of "fst y" bt' xs ys]) (auto simp: n_def)
qed

end

text \<open>The two outcomes of an insertion below a node with parent \<open>p\<close>.\<close>

definition inserted where
  "inserted cmp K bt p ex lo hi d t e res \<longleftrightarrow>
     (\<exists>bt' t'. res = Some (None, bt') \<and> ins_one cmp K bt bt' p ex lo hi d t e t') \<or>
     (\<exists>bt' l sk r. res = Some (attachSplit (addr t) (addr r) sk p bt') \<and> ins_two cmp K bt bt' p ex lo hi d t e l sk r)"

context key_order
begin

lemma insertIntoLeaf_ok:
  assumes rep: "rep (bt_nodes bt) p ex (Lf a kvs)" and ord: "ordered cmp K (bt_order bt) lo hi d (Lf a kvs)"
    and key: "within cmp K lo hi key" "key \<notin> fst ` set kvs" and m: "3 \<le> bt_order bt"
  shows "inserted cmp K bt p ex lo hi d (Lf a kvs) (key, val) (insertIntoLeaf cmp a key val bt)"
proof -
  have K: "fst ` set kvs \<subseteq> K" "key \<in> K" using ord key(1) by (auto simp: list_all_iff within_def)
  have "increasing cmp (map fst kvs)" using ord by simp
  from leaf_position[OF this K key(2)] obtain xs ys where xy: "kvs = xs @ ys" "findPosition cmp (map fst kvs) key = length xs"
      "\<forall>x\<in>set xs. cmp (fst x) key < 0" "\<forall>y\<in>set ys. cmp key (fst y) < 0" by blast
  define kvs' where "kvs' = xs @ (key, val) # ys"
  define bt1 where "bt1 = set_node a \<lparr>bn_isLeaf = True, bn_keys = map fst kvs', bn_values = map snd kvs', bn_children = [],
      bn_next = ex, bn_parent = p\<rparr> bt"
  have run: "insertIntoLeaf cmp a key val bt = (if int (length kvs') \<ge> bt_order bt then splitLeaf a bt1 else Some (None, bt1))"
    using rep xy(2) by (simp add: insertIntoLeaf_def Let_def bt1_def kvs'_def xy(1))
  have inc: "increasing cmp (map fst kvs')" and wth: "list_all (within cmp K lo hi) (map fst kvs')" and len: "int (length kvs') \<le> bt_order bt"
    and set: "set kvs' = insert (key, val) (set kvs)"
    using increasing_insert[OF _ xy(3,4)] ord key(1) by (auto simp: kvs'_def xy(1))
  have b1: "a < length (bt_nodes bt1)" "bt_nodes bt1 ! a = \<lparr>bn_isLeaf = True, bn_keys = map fst kvs', bn_values = map snd kvs',
      bn_children = [], bn_next = ex, bn_parent = p\<rparr>" "bt_order bt1 = bt_order bt" "length (bt_nodes bt1) = length (bt_nodes bt)" "keeps bt bt1 {a}"
    using rep by (auto simp: bt1_def set_node_def keeps_def same_header_def nth_list_update)
  show ?thesis
  proof (cases "int (length kvs') \<ge> bt_order bt")
    case False
    then have "ins_one cmp K bt bt1 p ex lo hi d (Lf a kvs) (key, val) (Lf a kvs')"
      using b1 inc wth ord set by (auto simp: ins_one_def rebuilt_def)
    then show ?thesis using run False by (auto simp: inserted_def)
  next
    case True
    have "2 \<le> length kvs'" "int (length kvs') \<le> bt_order bt1" using True m len b1(3) by auto
    from splitLeaf_ok[OF b1(1,2) this inc wth] obtain bt' sk us vs where
      s: "splitLeaf a bt1 = Some (attachSplit a (length (bt_nodes bt1)) sk p bt')" "kvs' = us @ vs"
      "keeps bt1 bt' {a}" "length (bt_nodes bt') = Suc (length (bt_nodes bt1))"
      "rep (bt_nodes bt') p (Some (length (bt_nodes bt1))) (Lf a us)" "rep (bt_nodes bt') p ex (Lf (length (bt_nodes bt1)) vs)"
      "swithin cmp K lo hi sk" "ordered cmp K (bt_order bt1) lo (Some sk) 0 (Lf a us)"
      "ordered cmp K (bt_order bt1) (Some sk) hi 0 (Lf (length (bt_nodes bt1)) vs)" by metis
    have "keeps bt bt' {a}" using keeps_trans[OF b1(5) s(3)] by auto
    then have "ins_two cmp K bt bt' p ex lo hi d (Lf a kvs) (key, val) (Lf a us) sk (Lf (length (bt_nodes bt)) vs)"
      using s(2,4-) set ord b1 by (auto simp: ins_two_def)
    then show ?thesis using run True s(1) b1(4) unfolding inserted_def by fastforce
  qed
qed

end

subsection \<open>Splitting an internal node\<close>

lemma split_nodes:
  assumes "b < length (bt_nodes bt)" "a < length (bt_nodes bt)" "n = length (bt_nodes bt)"
  shows "bt_nodes (set_node a nd (fold (set_parent n) ns (new_node nn bt))) ! b =
    (if b = a then nd else if b \<in> set ns then (bt_nodes bt ! b)\<lparr>bn_parent := Some n\<rparr> else bt_nodes bt ! b)"
  using assms by (simp add: nth_list_update nth_fold_set_parent nth_append)

lemma distinct_concat_map_same:
  "distinct (concat (map f xs)) \<Longrightarrow> x \<in> set xs \<Longrightarrow> y \<in> set xs \<Longrightarrow> a \<in> set (f x) \<Longrightarrow> a \<in> set (f y) \<Longrightarrow> x = y"
  by (induction xs) auto

lemma split_new_node:
  assumes "a < length (bt_nodes bt)" "n = length (bt_nodes bt)" "\<forall>b\<in>set ns. b < n"
  shows "bt_nodes (set_node a nd (fold (set_parent n) ns (new_node nn bt))) ! n = nn"
  using assms by (auto simp: nth_list_update nth_fold_set_parent nth_append)

context key_order
begin

lemma splitInternal_reps:
  assumes rep: "rep (bt_nodes bt) p ex (Nd a ks (cs1 @ cs2))" and dist: "distinct (addrs (Nd a ks (cs1 @ cs2)))" and ne: "cs1 \<noteq> []" "cs2 \<noteq> []"
    and n: "n = length (bt_nodes bt)"
    and bt': "bt' = set_node a \<lparr>bn_isLeaf = False, bn_keys = ks1, bn_values = [], bn_children = map addr cs1, bn_next = None, bn_parent = p\<rparr>
      (fold (set_parent n) (map addr cs2) (new_node \<lparr>bn_isLeaf = False, bn_keys = ks2, bn_values = [], bn_children = map addr cs2,
        bn_next = None, bn_parent = p\<rparr> bt))"
  shows "rep (bt_nodes bt') p (Some (firstLeaf (Nd n ks2 cs2))) (Nd a ks1 cs1)" "rep (bt_nodes bt') p ex (Nd n ks2 cs2)"
    "keeps bt bt' (set (addrs (Nd a ks (cs1 @ cs2))))" "length (bt_nodes bt') = Suc n"
proof -
  have a: "a < n" and cs: "reps (bt_nodes bt) (Some a) (Some (firstLeaf (hd cs2))) cs1" "reps (bt_nodes bt) (Some a) ex cs2"
    using rep ne by (auto simp: reps_append n neq_Nil_conv)
  have bnd: "b < n" if "t \<in> set (cs1 @ cs2)" "b \<in> set (addrs t)" for t b
    using rep_addr_bound(2)[of "bt_nodes bt" "Some a" ex "cs1 @ cs2" t b] rep that n by simp
  have nth: "bt_nodes bt' ! b = (if b = a then \<lparr>bn_isLeaf = False, bn_keys = ks1, bn_values = [], bn_children = map addr cs1,
      bn_next = None, bn_parent = p\<rparr> else if b \<in> addr ` set cs2 then (bt_nodes bt ! b)\<lparr>bn_parent := Some n\<rparr> else bt_nodes bt ! b)"
    if "b < n" for b using that a unfolding bt' by (subst split_nodes) (auto simp: n)
  have new: "bt_nodes bt' ! n = \<lparr>bn_isLeaf = False, bn_keys = ks2, bn_values = [], bn_children = map addr cs2, bn_next = None, bn_parent = p\<rparr>"
    unfolding bt' by (rule split_new_node) (use a n bnd[OF _ addr_in_addrs] in auto)
  show len: "length (bt_nodes bt') = Suc n" by (simp add: bt' n)
  have sep: "addr t \<notin> set (addrs u)" if "t \<in> set cs2" "u \<in> set cs1" for t u
    using dist that addr_in_addrs[of t] by fastforce
  have na: "a \<notin> set (addrs t)" if "t \<in> set (cs1 @ cs2)" for t using dist that by auto
  have fr: "bt_nodes bt' ! b = bt_nodes bt ! b" if "t \<in> set cs1" "b \<in> set (addrs t)" for b t
  proof -
    have "b < n" "b \<noteq> a" "b \<notin> addr ` set cs2" using bnd[of t b] na[of t] sep[of _ t] that by auto
    then show ?thesis by (simp add: nth)
  qed
  have "reps (bt_nodes bt') (Some a) (Some (firstLeaf (hd cs2))) cs1"
    by (rule rep_frame(2)[OF cs(1) fr]) (use len n in auto)
  moreover have "firstLeaf (Nd n ks2 cs2) = firstLeaf (hd cs2)" using ne(2) by (cases cs2) auto
  ultimately show "rep (bt_nodes bt') p (Some (firstLeaf (Nd n ks2 cs2))) (Nd a ks1 cs1)" using a len nth[OF a] by simp
  have inner: "b = addr t" if tb: "t \<in> set cs2" "b \<in> set (addrs t)" "b \<in> addr ` set cs2" for t b
  proof -
    obtain u where u: "u \<in> set cs2" "b = addr u" using tb(3) by auto
    have "u = t"
      using dist u tb(1,2) addr_in_addrs[of u] by (auto dest: distinct_concat_map_same)
    then show ?thesis using u by simp
  qed
  have mv: "bt_nodes bt' ! b = (if b = addr t then (bt_nodes bt ! b)\<lparr>bn_parent := Some n\<rparr> else bt_nodes bt ! b)"
    if "t \<in> set cs2" "b \<in> set (addrs t)" for b t
  proof -
    have "b < n" "b \<noteq> a" "b \<in> addr ` set cs2 \<longleftrightarrow> b = addr t" using bnd[of t b] na[of t] inner[of t b] that by auto
    then show ?thesis by (simp add: nth)
  qed
  have "reps (bt_nodes bt') (Some n) ex cs2"
    by (rule reps_reparent[OF cs(2) _ _ mv]) (use dist len n in auto)
  then show "rep (bt_nodes bt') p ex (Nd n ks2 cs2)" using new len by simp
  have "same_header bt' bt" by (simp add: bt')
  then show "keeps bt bt' (set (addrs (Nd a ks (cs1 @ cs2))))" using nth len n by (auto simp: keeps_def)
qed

end

subsection \<open>Insertion into a subtree\<close>

context key_order
begin

lemma splitInternal_ok:
  assumes rep: "rep (bt_nodes bt) p ex (Nd a ks cs)" and dist: "distinct (addrs (Nd a ks cs))"
    and ord: "orderedc cmp K (bt_order bt) lo hi d ks cs" and len: "3 \<le> length ks" "int (length ks) \<le> bt_order bt"
  obtains bt' sk l r where "splitInternal a bt = Some (attachSplit a (addr r) sk p bt')"
    "keeps bt bt' (set (addrs (Nd a ks cs)))" "addr l = a" "firstLeaf l = firstLeaf (Nd a ks cs)"
    "rep (bt_nodes bt') p (Some (firstLeaf r)) l" "rep (bt_nodes bt') p ex r"
    "swithin cmp K lo hi sk" "ordered cmp K (bt_order bt) lo (Some sk) (Suc d) l" "ordered cmp K (bt_order bt) (Some sk) hi (Suc d) r"
    "entries l @ entries r = entries (Nd a ks cs)"
    "distinct (addrs l @ addrs r)" "set (addrs l @ addrs r) \<subseteq> set (addrs (Nd a ks cs)) \<union> fresh bt bt'"
proof -
  define mid where "mid = length ks div 2"
  define n where "n = length (bt_nodes bt)"
  define ks1 where "ks1 = take mid ks"
  define sk where "sk = ks ! mid"
  define ks2 where "ks2 = drop (Suc mid) ks"
  define cs1 where "cs1 = take (Suc mid) cs"
  define cs2 where "cs2 = drop (Suc mid) cs"
  have lc: "length cs = Suc (length ks)" by (rule orderedc_length[OF ord])
  have mid: "0 < mid" "Suc mid < length ks" using len(1) by (auto simp: mid_def)
  have ks: "ks = ks1 @ sk # ks2" using mid by (simp add: ks1_def sk_def ks2_def id_take_nth_drop[symmetric])
  have cs: "cs = cs1 @ cs2" by (simp add: cs1_def cs2_def)
  have ls: "length ks1 = mid" "length cs1 = Suc (length ks1)" "cs1 \<noteq> []" "cs2 \<noteq> []" "length ks1 < length ks" "length ks2 < length ks"
    using mid lc by (auto simp: ks1_def ks2_def cs1_def cs2_def)
  define bt' where "bt' = set_node a \<lparr>bn_isLeaf = False, bn_keys = ks1, bn_values = [], bn_children = map addr cs1, bn_next = None, bn_parent = p\<rparr>
      (fold (set_parent n) (map addr cs2) (new_node \<lparr>bn_isLeaf = False, bn_keys = ks2, bn_values = [], bn_children = map addr cs2,
        bn_next = None, bn_parent = p\<rparr> bt))"
  have run: "splitInternal a bt = Some (attachSplit a n sk p bt')"
    using rep mid lc by (simp add: splitInternal_def Let_def bt'_def n_def mid_def[symmetric] ks1_def ks2_def cs1_def cs2_def sk_def take_map drop_map)
  note R = splitInternal_reps[OF rep[unfolded cs] dist[unfolded cs] ls(3,4) n_def bt'_def, folded cs]
  from orderedc_split[of _ lo hi d ks1 sk ks2 cs1 cs2] ord ls(2)
  have O: "swithin cmp K lo hi sk" "orderedc cmp K (bt_order bt) lo (Some sk) d ks1 cs1" "orderedc cmp K (bt_order bt) (Some sk) hi d ks2 cs2"
    by (auto simp: ks cs)
  have small: "int (length ks1) < bt_order bt" "int (length ks2) < bt_order bt" using ls(5,6) len(2) by linarith+
  have nn: "n \<notin> set (addrs (Nd a ks cs))" using rep_addr_bound(1)[OF rep, of n] by (auto simp: n_def)
  show ?thesis
    by (rule that[of "Nd n ks2 cs2" sk bt' "Nd a ks1 cs1"])
      (use run R O small nn dist ls(3) in \<open>auto simp: cs n_def neq_Nil_conv\<close>)
qed

lemma reps_outside:
  assumes "reps (bt_nodes bt) q ex cs" "a \<notin> set (concat (map addrs cs))" "a < length (bt_nodes bt)"
  shows "reps (bt_nodes (set_node a nd bt)) q ex cs"
proof (rule rep_frame(2)[OF assms(1)])
  show "bt_nodes (set_node a nd bt) ! b = bt_nodes bt ! b" if "t \<in> set cs" "b \<in> set (addrs t)" for b t
  proof -
    have "a \<noteq> b" using assms(2) that by auto
    then show ?thesis by simp
  qed
qed simp

lemma link_step:
  assumes rep: "rep (bt_nodes bt) p ex (Nd a ks (cs1 @ c # cs2))" and dist: "distinct (addrs (Nd a ks (cs1 @ c # cs2)))"
    and two: "ins_two cmp K bt bt1 (Some a) (case cs2 of [] \<Rightarrow> ex | y # _ \<Rightarrow> Some (firstLeaf y)) lo' hi' d c e l sk r"
    and t': "t' = Nd a ks' (cs1 @ l # r # cs2)"
    and bt2: "bt2 = set_node a \<lparr>bn_isLeaf = False, bn_keys = ks', bn_values = [], bn_children = map addr (cs1 @ l # r # cs2), bn_next = None, bn_parent = p\<rparr>
      (bt1\<lparr>bt_lastSplitKey := sk\<rparr>)"
  shows "keeps bt bt2 (set (addrs (Nd a ks (cs1 @ c # cs2))))" "rep (bt_nodes bt2) p ex t'" "distinct (addrs t')"
    "set (addrs t') \<subseteq> set (addrs (Nd a ks (cs1 @ c # cs2))) \<union> fresh bt bt2"
    "set (entries t') = insert e (set (entries (Nd a ks (cs1 @ c # cs2))))" "firstLeaf t' = firstLeaf (Nd a ks (cs1 @ c # cs2))"
proof -
  have keep: "keeps bt bt1 (set (addrs c))" using two by (simp add: ins_two_def)
  have sub: "set (addrs l) \<union> set (addrs r) \<subseteq> set (addrs c) \<union> fresh bt bt1" using two by (simp add: ins_two_def)
  have a: "a < length (bt_nodes bt)" using rep by simp
  have old: "b < length (bt_nodes bt)" if "t \<in> set (cs1 @ c # cs2)" "b \<in> set (addrs t)" for t b
    using rep_addr_bound(1)[OF rep, of b] that by auto
  have "reps (bt_nodes bt1) (Some a) ex (cs1 @ [l, r] @ cs2)"
    by (rule reps_refill[of bt _ _ _ c]) (use rep keep dist two in \<open>auto simp: ins_two_def\<close>)
  moreover have na: "a \<notin> set (concat (map addrs (cs1 @ l # r # cs2)))" using dist sub a by auto
  ultimately have "reps (bt_nodes bt2) (Some a) ex (cs1 @ l # r # cs2)"
    unfolding bt2 by (intro reps_outside) (use a keeps_length[OF keep] in auto)
  then show "rep (bt_nodes bt2) p ex t'" using a keeps_length[OF keep] by (auto simp: t' bt2)
  have "keeps bt (bt1\<lparr>bt_lastSplitKey := sk\<rparr>) (set (addrs (Nd a ks (cs1 @ c # cs2))))"
    unfolding keeps_lastSplitKey by (rule keeps_mono[OF keep]) auto
  then show "keeps bt bt2 (set (addrs (Nd a ks (cs1 @ c # cs2))))"
    unfolding bt2 by (rule keeps_trans[OF _ keeps_set_node[of a "{a}"]]) auto
  have dj: "b \<notin> set (addrs l) \<union> set (addrs r)" if "t \<in> set cs1 \<union> set cs2" "b \<in> set (addrs t)" for t b
  proof -
    have "b < length (bt_nodes bt)" using old that by auto
    moreover have "b \<notin> set (addrs c)" using dist that by auto
    ultimately show ?thesis using sub by auto
  qed
  have "distinct (addrs l @ addrs r)" using two by (simp add: ins_two_def)
  moreover have "distinct (concat (map addrs (cs1 @ cs2)))" using dist by auto
  ultimately show "distinct (addrs t')" using dj na by (auto simp: t')
  show "set (addrs t') \<subseteq> set (addrs (Nd a ks (cs1 @ c # cs2))) \<union> fresh bt bt2" using sub by (auto simp: t' bt2)
  show "set (entries t') = insert e (set (entries (Nd a ks (cs1 @ c # cs2))))" using two by (auto simp: t' ins_two_def)
  show "firstLeaf t' = firstLeaf (Nd a ks (cs1 @ c # cs2))" using two by (cases cs1) (auto simp: t' ins_two_def)
qed

lemma linkChild_ok:
  assumes rep: "rep (bt_nodes bt) p ex (Nd a (ks1 @ ks2) (cs1 @ c # cs2))" and dist: "distinct (addrs (Nd a (ks1 @ ks2) (cs1 @ c # cs2)))"
    and hole: "hole cmp K (bt_order bt) lo hi d ks1 ks2 cs1 cs2 lo' hi'" and small: "int (length (ks1 @ ks2)) < bt_order bt" "3 \<le> bt_order bt"
    and two: "ins_two cmp K bt bt1 (Some a) (case cs2 of [] \<Rightarrow> ex | y # _ \<Rightarrow> Some (firstLeaf y)) lo' hi' d c e l sk r"
  shows "inserted cmp K bt p ex lo hi (Suc d) (Nd a (ks1 @ ks2) (cs1 @ c # cs2)) e (linkChild cmp a (addr r) (bt1\<lparr>bt_lastSplitKey := sk\<rparr>))"
proof -
  define t where "t = Nd a (ks1 @ ks2) (cs1 @ c # cs2)"
  define t' where "t' = Nd a (ks1 @ sk # ks2) (cs1 @ l # r # cs2)"
  define bt2 where "bt2 = set_node a \<lparr>bn_isLeaf = False, bn_keys = ks1 @ sk # ks2, bn_values = [], bn_children = map addr (cs1 @ l # r # cs2),
      bn_next = None, bn_parent = p\<rparr> (bt1\<lparr>bt_lastSplitKey := sk\<rparr>)"
  note L = link_step[OF rep dist two t'_def bt2_def, folded t_def]
  have keep: "keeps bt bt1 (set (addrs c))" and sw: "swithin cmp K lo' hi' sk" and al: "addr l = addr c" using two by (simp_all add: ins_two_def)
  have m: "bt_order bt2 = bt_order bt" by (rule keeps_order[OF L(1)])
  have "bt_nodes bt1 ! a = bt_nodes bt ! a" by (rule keeps_nth[OF keep]) (use rep dist in auto)
  moreover have "findPosition cmp (ks1 @ ks2) sk = length ks1" "length cs1 = length ks1" using hole sw by (auto simp: hole_def swithin_def)
  ultimately have run: "linkChild cmp a (addr r) (bt1\<lparr>bt_lastSplitKey := sk\<rparr>) =
      (if int (length (ks1 @ sk # ks2)) \<ge> bt_order bt then splitInternal a bt2 else Some (None, bt2))"
    using rep keeps_order[OF keep] al by (simp add: linkChild_def Let_def bt2_def)
  have ord: "orderedc cmp K (bt_order bt) lo hi d (ks1 @ sk # ks2) (cs1 @ l # r # cs2)"
    using hole two by (auto simp: hole_def ins_two_def)
  show ?thesis
  proof (cases "int (length (ks1 @ sk # ks2)) \<ge> bt_order bt")
    case False
    then have "ins_one cmp K bt bt2 p ex lo hi (Suc d) t e t'" using L ord by (auto simp: ins_one_def rebuilt_def t'_def t_def)
    then show ?thesis using run False by (auto simp: inserted_def t_def)
  next
    case True
    have len: "3 \<le> length (ks1 @ sk # ks2)" "int (length (ks1 @ sk # ks2)) \<le> bt_order bt2" using True small m by auto
    have ord2: "orderedc cmp K (bt_order bt2) lo hi d (ks1 @ sk # ks2) (cs1 @ l # r # cs2)" using ord m by simp
    obtain bt' sk' l' r' where
      s: "splitInternal a bt2 = Some (attachSplit a (addr r') sk' p bt')" "keeps bt2 bt' (set (addrs t'))" "addr l' = a"
        "firstLeaf l' = firstLeaf t'" "rep (bt_nodes bt') p (Some (firstLeaf r')) l'" "rep (bt_nodes bt') p ex r'" "swithin cmp K lo hi sk'"
        "ordered cmp K (bt_order bt) lo (Some sk') (Suc d) l'" "ordered cmp K (bt_order bt) (Some sk') hi (Suc d) r'"
        "entries l' @ entries r' = entries t'" "distinct (addrs l' @ addrs r')" "set (addrs l' @ addrs r') \<subseteq> set (addrs t') \<union> fresh bt2 bt'"
      by (rule splitInternal_ok[OF L(2)[unfolded t'_def] L(3)[unfolded t'_def] ord2 len, unfolded m, folded t'_def]) (rule that)
    have "keeps bt bt' (set (addrs t))" by (rule keeps_trans[OF L(1) s(2) L(4)])
    moreover have "set (entries l') \<union> set (entries r') = insert e (set (entries t))" using s(10) L(5) by (metis set_append)
    moreover have "set (addrs l' @ addrs r') \<subseteq> set (addrs t) \<union> fresh bt bt'"
      using s(12) L(4) keeps_length[OF s(2)] keeps_length[OF L(1)] by fastforce
    ultimately have "ins_two cmp K bt bt' p ex lo hi (Suc d) t e l' sk' r'"
      using s L(6) by (auto simp: ins_two_def t_def)
    then show ?thesis using run True s(1) unfolding inserted_def t_def by fastforce
  qed
qed

lemma refill_rebuilt:
  assumes rep: "rep (bt_nodes bt) p ex (Nd a (ks1 @ ks2) (cs1 @ c # cs2))" and dist: "distinct (addrs (Nd a (ks1 @ ks2) (cs1 @ c # cs2)))"
    and hole: "hole cmp K (bt_order bt) lo hi d ks1 ks2 cs1 cs2 lo' hi'" and small: "int (length (ks1 @ ks2)) < bt_order bt"
    and one: "rebuilt cmp K bt bt' (Some a) (case cs2 of [] \<Rightarrow> ex | y # _ \<Rightarrow> Some (firstLeaf y)) lo' hi' d c c'"
  shows "rebuilt cmp K bt bt' p ex lo hi (Suc d) (Nd a (ks1 @ ks2) (cs1 @ c # cs2)) (Nd a (ks1 @ ks2) (cs1 @ c' # cs2))"
proof -
  let ?t = "Nd a (ks1 @ ks2) (cs1 @ c # cs2)" and ?t' = "Nd a (ks1 @ ks2) (cs1 @ c' # cs2)"
  have keep: "keeps bt bt' (set (addrs c))" and sub: "set (addrs c') \<subseteq> set (addrs c) \<union> fresh bt bt'" using one by (simp_all add: rebuilt_def)
  have a: "a < length (bt_nodes bt)" "a \<notin> set (addrs c)" using rep dist by auto
  have "reps (bt_nodes bt') (Some a) ex (cs1 @ [c'] @ cs2)"
    by (rule reps_refill[of bt _ _ _ c]) (use rep keep dist one in \<open>auto simp: rebuilt_def\<close>)
  moreover have "bt_nodes bt' ! a = bt_nodes bt ! a" by (rule keeps_nth[OF keep a])
  ultimately have R: "rep (bt_nodes bt') p ex ?t'" using rep one a keeps_length[OF keep] by (auto simp: rebuilt_def)
  have dj: "b \<notin> set (addrs c')" if "t \<in> set cs1 \<union> set cs2" "b \<in> set (addrs t)" for t b
  proof -
    have "b < length (bt_nodes bt)" using rep_addr_bound(1)[OF rep, of b] that by auto
    moreover have "b \<notin> set (addrs c)" using dist that by auto
    ultimately show ?thesis using sub by auto
  qed
  have D: "distinct (addrs ?t')" using dist dj sub one a(1) by (auto simp: rebuilt_def)
  have O: "orderedc cmp K (bt_order bt) lo hi d (ks1 @ ks2) (cs1 @ c' # cs2)" using hole one by (auto simp: hole_def rebuilt_def)
  have k: "keeps bt bt' (set (addrs ?t))" by (rule keeps_mono[OF keep]) auto
  have fst: "firstLeaf ?t' = firstLeaf ?t" using one by (cases cs1) (auto simp: rebuilt_def)
  have "set (addrs ?t') \<subseteq> set (addrs ?t) \<union> fresh bt bt'" using sub by auto
  then show ?thesis using R D O k fst small by (simp add: rebuilt_def)
qed

end

context key_order
begin

lemma insertIntoNode_ok:
  assumes "rep (bt_nodes bt) p ex t" "ordered cmp K (bt_order bt) lo hi d t" "distinct (addrs t)" "within cmp K lo hi key"
    and "key \<notin> fst ` set (entries t)" "3 \<le> bt_order bt" "d < fuel"
  shows "inserted cmp K bt p ex lo hi d t (key, val) (insertIntoNode cmp fuel (addr t) key val bt)"
  using assms
proof (induction fuel arbitrary: t p ex lo hi d)
  case (Suc fuel)
  show ?case
  proof (cases t)
    case (Lf a kvs)
    then show ?thesis using Suc.prems insertIntoLeaf_ok[of bt p ex a kvs lo hi d key val] by simp
  next
    case (Nd a ks cs)
    then obtain d' where d: "d = Suc d'" "orderedc cmp K (bt_order bt) lo hi d' ks cs" "int (length ks) < bt_order bt"
      using Suc.prems(2) by (cases d) auto
    obtain ks1 ks2 cs1 c cs2 lo' hi' where loc: "ks = ks1 @ ks2" "cs = cs1 @ c # cs2"
        "hole cmp K (bt_order bt) lo hi d' ks1 ks2 cs1 cs2 lo' hi'" "ordered cmp K (bt_order bt) lo' hi' d' c" "within cmp K lo' hi' key"
      by (rule locate[OF d(2) Suc.prems(4)]) (rule that)
    define ex' where "ex' = (case cs2 of [] \<Rightarrow> ex | y # _ \<Rightarrow> Some (firstLeaf y))"
    have pos: "findPosition cmp ks key = length ks1" "length cs1 = length ks1" using loc by (auto simp: hole_def)
    have t: "t = Nd a (ks1 @ ks2) (cs1 @ c # cs2)" using Nd loc by simp
    have c: "rep (bt_nodes bt) (Some a) ex' c" "distinct (addrs c)" "key \<notin> fst ` set (entries c)" "d' < fuel"
      using Suc.prems t d by (auto simp: reps_append ex'_def)
    have run: "insertIntoNode cmp (Suc fuel) (addr t) key val bt =
       (case insertIntoNode cmp fuel (addr c) key val bt of None \<Rightarrow> None
        | Some (None, bt1) \<Rightarrow> Some (None, bt1) | Some (Some newChild, bt1) \<Rightarrow> linkChild cmp a newChild bt1)"
      using Suc.prems(1) pos loc by (simp add: Nd Let_def nth_append)
    note one_or_two = Suc.IH[OF c(1) loc(4) c(2) loc(5) c(3) Suc.prems(6) c(4)]
    show ?thesis
    proof (cases "\<exists>bt' c'. insertIntoNode cmp fuel (addr c) key val bt = Some (None, bt') \<and> ins_one cmp K bt bt' (Some a) ex' lo' hi' d' c (key, val) c'")
      case True
      then obtain bt' c' where one: "insertIntoNode cmp fuel (addr c) key val bt = Some (None, bt')"
        "ins_one cmp K bt bt' (Some a) ex' lo' hi' d' c (key, val) c'" by auto
      have "ins_one cmp K bt bt' p ex lo hi d t (key, val) (Nd a ks (cs1 @ c' # cs2))"
        using refill_rebuilt[OF Suc.prems(1)[unfolded t] Suc.prems(3)[unfolded t] loc(3) d(3)[unfolded loc(1)], of bt' c', folded t loc(1) d(1)] one(2)
        by (auto simp: ins_one_def ex'_def t)
      then show ?thesis using run one(1) by (auto simp: inserted_def)
    next
      case False
      then obtain bt' l sk r where two: "insertIntoNode cmp fuel (addr c) key val bt = Some (attachSplit (addr c) (addr r) sk (Some a) bt')"
        "ins_two cmp K bt bt' (Some a) ex' lo' hi' d' c (key, val) l sk r" using one_or_two by (auto simp: inserted_def)
      have "inserted cmp K bt p ex lo hi d t (key, val) (linkChild cmp a (addr r) (bt'\<lparr>bt_lastSplitKey := sk\<rparr>))"
        by (rule linkChild_ok[OF Suc.prems(1)[unfolded t] Suc.prems(3)[unfolded t] loc(3) d(3)[unfolded loc(1)] Suc.prems(6)
              two(2)[unfolded ex'_def], folded t d(1)])
      then show ?thesis using run two(1) by (simp add: attachSplit_def)
    qed
  qed
qed simp

end

subsection \<open>Lookup and deletion in a subtree\<close>

lemma map_of_middle:
  "key \<notin> fst ` set xs \<Longrightarrow> key \<notin> fst ` set zs \<Longrightarrow> map_of (xs @ ys @ zs) key = map_of ys key"
  unfolding map_of_eq_None_iff[symmetric] by (simp add: map_add_def split: option.split)

context key_order
begin

lemma search_leaf_ok:
  assumes "increasing cmp (map fst kvs)" "fst ` set kvs \<subseteq> K" "key \<in> K"
  shows "search_leaf cmp key (map fst kvs) (map snd kvs) = Some (map_of kvs key)"
  using assms
proof (induction kvs)
  case (Cons e kvs)
  have K: "fst e \<in> K" using Cons.prems by auto
  have lt: "map_of kvs key = None" if "cmp key (fst e) < 0"
  proof -
    have "cmp key k < 0" if "k \<in> fst ` set kvs" for k
      by (rule cmp_trans[of _ "fst e"]) (use Cons.prems that \<open>cmp key (fst e) < 0\<close> in auto)
    then show ?thesis using cmp_refl[OF Cons.prems(3)] by (force simp: map_of_eq_None_iff)
  qed
  then show ?case using Cons cmp_eq[OF Cons.prems(3) K] by (cases e) auto
qed simp

lemma entries_hole:
  assumes "hole cmp K m lo hi d ks1 ks2 cs1 cs2 lo' hi'" "within cmp K lo' hi' key"
  shows "key \<notin> fst ` set (concat (map entries cs1))" "key \<notin> fst ` set (concat (map entries cs2))"
proof -
  have "\<forall>e\<in>set (concat (map entries cs1)). cmp (fst e) key < 0" "\<forall>e\<in>set (concat (map entries cs2)). cmp key (fst e) < 0"
    using assms by (simp_all add: hole_def)
  then show "key \<notin> fst ` set (concat (map entries cs1))" "key \<notin> fst ` set (concat (map entries cs2))"
    using cmp_refl[OF within_K[OF assms(2)]] by (metis imageE less_irrefl)+
qed

lemma searchNode_ok:
  assumes "rep (bt_nodes bt) p ex t" "ordered cmp K m lo hi d t" "within cmp K lo hi key" "d < fuel"
  shows "searchNode cmp fuel (addr t) key bt = Some (map_of (entries t) key)"
  using assms
proof (induction fuel arbitrary: t p ex lo hi d)
  case (Suc fuel)
  show ?case
  proof (cases t)
    case (Lf a kvs)
    moreover have "fst ` set kvs \<subseteq> K" "key \<in> K" using Suc.prems(2,3) Lf by (auto simp: list_all_iff within_def)
    ultimately show ?thesis using Suc.prems search_leaf_ok[of kvs key] by simp
  next
    case (Nd a ks cs)
    then obtain d' where d: "d = Suc d'" "orderedc cmp K m lo hi d' ks cs" using Suc.prems(2) by (cases d) auto
    obtain ks1 ks2 cs1 c cs2 lo' hi' where loc: "ks = ks1 @ ks2" "cs = cs1 @ c # cs2"
        "hole cmp K m lo hi d' ks1 ks2 cs1 cs2 lo' hi'" "ordered cmp K m lo' hi' d' c" "within cmp K lo' hi' key"
      by (rule locate[OF d(2) Suc.prems(3)]) (rule that)
    have pos: "findPosition cmp ks key = length ks1" "length cs1 = length ks1" using loc by (auto simp: hole_def)
    have "reps (bt_nodes bt) (Some a) ex (cs1 @ c # cs2)" using Suc.prems(1) Nd loc by simp
    then have "searchNode cmp fuel (addr c) key bt = Some (map_of (entries c) key)"
      using Suc.prems(4) d(1) by (intro Suc.IH[OF _ loc(4,5)]) (auto simp: reps_append)
    then show ?thesis
      using Suc.prems(1) pos map_of_middle[OF entries_hole[OF loc(3,5)], of "entries c"] by (simp add: Nd Let_def nth_append loc(1,2))
  qed
qed simp

lemma index_of_ok:
  assumes "increasing cmp (map fst kvs)" "fst ` set kvs \<subseteq> K" "key \<in> K"
  shows "index_of cmp key (map fst kvs) = None \<and> key \<notin> fst ` set kvs \<or>
    (\<exists>xs v ys. kvs = xs @ (key, v) # ys \<and> index_of cmp key (map fst kvs) = Some (length xs) \<and> key \<notin> fst ` set (xs @ ys))"
  using assms
proof (induction kvs)
  case (Cons e kvs)
  have K: "fst e \<in> K" using Cons.prems by auto
  show ?case
  proof (cases "fst e = key")
    case True
    have "\<forall>x\<in>set kvs. cmp key (fst x) < 0" using Cons.prems True by auto
    then have "key \<notin> fst ` set kvs" using cmp_refl[OF Cons.prems(3)] by force
    then show ?thesis using True cmp_refl[OF Cons.prems(3)]
      by (intro disjI2 exI[of _ "[]"] exI[of _ "snd e"] exI[of _ kvs]) (cases e, auto)
  next
    case False
    then have ne: "cmp key (fst e) \<noteq> 0" using cmp_eq[OF Cons.prems(3) K] by auto
    have "index_of cmp key (map fst kvs) = None \<and> key \<notin> fst ` set kvs \<or>
      (\<exists>xs v ys. kvs = xs @ (key, v) # ys \<and> index_of cmp key (map fst kvs) = Some (length xs) \<and> key \<notin> fst ` set (xs @ ys))"
      using Cons by auto
    then show ?thesis
    proof
      assume "index_of cmp key (map fst kvs) = None \<and> key \<notin> fst ` set kvs"
      then show ?thesis using ne False by auto
    next
      assume "\<exists>xs v ys. kvs = xs @ (key, v) # ys \<and> index_of cmp key (map fst kvs) = Some (length xs) \<and> key \<notin> fst ` set (xs @ ys)"
      then obtain xs v ys where "kvs = xs @ (key, v) # ys" "index_of cmp key (map fst kvs) = Some (length xs)" "key \<notin> fst ` set (xs @ ys)" by blast
      then show ?thesis using ne False by (intro disjI2 exI[of _ "e # xs"] exI[of _ v] exI[of _ ys]) auto
    qed
  qed
qed simp

end

definition removed where
  "removed cmp K bt p ex lo hi d t key res \<longleftrightarrow>
     (\<exists>b bt' t'. res = Some (b, bt') \<and> rebuilt cmp K bt bt' p ex lo hi d t t' \<and> entries t' = filter (\<lambda>e. fst e \<noteq> key) (entries t))"

lemma filter_neq_id: "key \<notin> fst ` set xs \<Longrightarrow> filter (\<lambda>e. fst e \<noteq> key) xs = xs"
  by (rule filter_True) auto

context key_order
begin

lemma delete_leaf_ok:
  assumes rep: "rep (bt_nodes bt) p ex (Lf a kvs)" and ord: "ordered cmp K (bt_order bt) lo hi d (Lf a kvs)" and key: "key \<in> K"
  shows "removed cmp K bt p ex lo hi d (Lf a kvs) key (deleteFromNode cmp (Suc fuel) a key bt)"
proof -
  have "fst ` set kvs \<subseteq> K" "increasing cmp (map fst kvs)" using ord by (auto simp: list_all_iff within_def)
  from index_of_ok[OF this(2,1) key] show ?thesis
  proof
    assume "index_of cmp key (map fst kvs) = None \<and> key \<notin> fst ` set kvs"
    then show ?thesis unfolding removed_def
      by (intro exI[of _ False] exI[of _ bt] exI[of _ "Lf a kvs"]) (use rep ord in \<open>simp add: rebuilt_def filter_neq_id\<close>)
  next
    assume "\<exists>xs v ys. kvs = xs @ (key, v) # ys \<and> index_of cmp key (map fst kvs) = Some (length xs) \<and> key \<notin> fst ` set (xs @ ys)"
    then obtain xs v ys where kvs: "kvs = xs @ (key, v) # ys" "index_of cmp key (map fst kvs) = Some (length xs)"
        "key \<notin> fst ` set (xs @ ys)" by blast
    then have nk: "key \<notin> fst ` set xs" "key \<notin> fst ` set ys" by auto
    define bt' where "bt' = set_node a \<lparr>bn_isLeaf = True, bn_keys = map fst (xs @ ys), bn_values = map snd (xs @ ys),
      bn_children = [], bn_next = ex, bn_parent = p\<rparr> bt"
    have "deleteFromNode cmp (Suc fuel) a key bt = Some (True, bt')"
      using rep kvs(2) by (simp add: Let_def bt'_def kvs(1))
    moreover have "rebuilt cmp K bt bt' p ex lo hi d (Lf a kvs) (Lf a (xs @ ys))"
      using rep ord by (auto simp: rebuilt_def bt'_def kvs(1) sorted_wrt_append)
    ultimately show ?thesis using filter_neq_id[OF nk(1)] filter_neq_id[OF nk(2)]
      unfolding removed_def by (intro exI[of _ True] exI[of _ bt'] exI[of _ "Lf a (xs @ ys)"]) (simp add: kvs(1))
  qed
qed

lemma deleteFromNode_ok:
  assumes "rep (bt_nodes bt) p ex t" "ordered cmp K (bt_order bt) lo hi d t" "distinct (addrs t)" "within cmp K lo hi key" "d < fuel"
  shows "removed cmp K bt p ex lo hi d t key (deleteFromNode cmp fuel (addr t) key bt)"
  using assms
proof (induction fuel arbitrary: t p ex lo hi d)
  case (Suc fuel)
  show ?case
  proof (cases t)
    case (Lf a kvs)
    then show ?thesis using Suc.prems delete_leaf_ok[of bt p ex a kvs lo hi d key fuel] within_K by auto
  next
    case (Nd a ks cs)
    then obtain d' where d: "d = Suc d'" "orderedc cmp K (bt_order bt) lo hi d' ks cs" "int (length ks) < bt_order bt"
      using Suc.prems(2) by (cases d) auto
    obtain ks1 ks2 cs1 c cs2 lo' hi' where loc: "ks = ks1 @ ks2" "cs = cs1 @ c # cs2"
        "hole cmp K (bt_order bt) lo hi d' ks1 ks2 cs1 cs2 lo' hi'" "ordered cmp K (bt_order bt) lo' hi' d' c" "within cmp K lo' hi' key"
      by (rule locate[OF d(2) Suc.prems(4)]) (rule that)
    define ex' where "ex' = (case cs2 of [] \<Rightarrow> ex | y # _ \<Rightarrow> Some (firstLeaf y))"
    have pos: "findPosition cmp ks key = length ks1" "length cs1 = length ks1" using loc by (auto simp: hole_def)
    have t: "t = Nd a (ks1 @ ks2) (cs1 @ c # cs2)" using Nd loc by simp
    have c: "rep (bt_nodes bt) (Some a) ex' c" "distinct (addrs c)" "d' < fuel"
      using Suc.prems t d by (auto simp: reps_append ex'_def)
    have run: "deleteFromNode cmp (Suc fuel) (addr t) key bt = deleteFromNode cmp fuel (addr c) key bt"
      using Suc.prems(1) pos loc by (simp add: Nd Let_def nth_append)
    obtain b bt' c' where one: "deleteFromNode cmp fuel (addr c) key bt = Some (b, bt')"
      "rebuilt cmp K bt bt' (Some a) ex' lo' hi' d' c c'" "entries c' = filter (\<lambda>e. fst e \<noteq> key) (entries c)"
      using Suc.IH[OF c(1) loc(4) c(2) loc(5) c(3)] by (auto simp: removed_def)
    have "rebuilt cmp K bt bt' p ex lo hi d t (Nd a ks (cs1 @ c' # cs2))"
      by (rule refill_rebuilt[OF Suc.prems(1)[unfolded t] Suc.prems(3)[unfolded t] loc(3) d(3)[unfolded loc(1)] one(2)[unfolded ex'_def], folded t loc(1) d(1)])
    moreover have "entries (Nd a ks (cs1 @ c' # cs2)) = filter (\<lambda>e. fst e \<noteq> key) (entries t)"
      using filter_neq_id[OF entries_hole(1)[OF loc(3,5)]] filter_neq_id[OF entries_hole(2)[OF loc(3,5)]] one(3) by (simp add: t)
    ultimately show ?thesis using run one(1) by (auto simp: removed_def)
  qed
qed simp

end

subsection \<open>The whole tree\<close>

text \<open>
  \<open>btree_inv bt kvs\<close>: the nodes of \<open>bt\<close> hold a balanced search tree with the entries \<open>kvs\<close>, fewer than \<open>order\<close> keys in each node,
  parent pointers and leaf links in place, and \<open>size\<close> and \<open>height\<close> are right.
\<close>

definition btree_inv :: "('k \<Rightarrow> 'k \<Rightarrow> int) \<Rightarrow> 'k set \<Rightarrow> ('k, 'v) BTree \<Rightarrow> ('k \<times> 'v) list \<Rightarrow> bool" where
  "btree_inv cmp K bt kvs \<longleftrightarrow>
     3 \<le> bt_order bt \<and> bt_size bt = int (length kvs) \<and>
     (\<exists>t d. rep (bt_nodes bt) None None t \<and> addr t = bt_root bt \<and> distinct (addrs t) \<and>
        ordered cmp K (bt_order bt) None None d t \<and> bt_height bt = int d + 1 \<and> entries t = kvs)"

lemma addrs_le_nodes:
  assumes "rep (bt_nodes bt) p ex t" "distinct (addrs t)" shows "length (addrs t) \<le> length (bt_nodes bt)"
proof -
  have "card (set (addrs t)) \<le> card {..<length (bt_nodes bt)}"
    by (rule card_mono) (use rep_addr_bound(1)[OF assms(1)] in auto)
  then show ?thesis using assms(2) by (simp add: distinct_card)
qed

context key_order
begin

lemma within_all [simp]: "within cmp K None None k \<longleftrightarrow> k \<in> K"
  by (simp add: within_def)

lemma ordered_depth: "ordered cmp K m lo hi d t \<Longrightarrow> d < length (addrs t)"
proof (induction t arbitrary: lo hi d)
  case (Nd a ks cs)
  then obtain d' where d: "d = Suc d'" "orderedc cmp K m lo hi d' ks cs" by (cases d) auto
  then obtain c cs' where cs: "cs = c # cs'" using orderedc_length[OF d(2)] by (cases cs) auto
  have "\<exists>hi. ordered cmp K m lo hi d' c" using d(2) cs by (cases ks) (auto simp: orderedc_Nil orderedc_Cons)
  then have "d' < length (addrs c)" using Nd.IH[of c] cs by auto
  then show ?case using d cs by simp
qed simp

lemma depth_less_nodes:
  assumes "rep (bt_nodes bt) p ex t" "distinct (addrs t)" "ordered cmp K m lo hi d t" shows "d < length (bt_nodes bt)"
  using ordered_depth[OF assms(3)] addrs_le_nodes[OF assms(1,2)] by simp

lemma increasing_unique:
  assumes "increasing cmp (map fst xs)" "increasing cmp (map fst ys)" "set xs = set ys" "fst ` set xs \<subseteq> K"
  shows "xs = ys"
  using assms
proof (induction xs arbitrary: ys)
  case (Cons x xs)
  then obtain y ys' where ys: "ys = y # ys'" by (cases ys) auto
  have nx: "z \<noteq> w" if "cmp (fst z) (fst w) < 0" "z \<in> set (x # xs)" for z w
    using that Cons.prems(4) cmp_refl[of "fst z"] by auto
  have xy: "x = y"
  proof (rule ccontr)
    assume "x \<noteq> y"
    then have "x \<in> set ys'" "y \<in> set xs" using Cons.prems(3) ys by (metis list.set_intros(1) set_ConsD)+
    then have "cmp (fst y) (fst x) < 0" "cmp (fst x) (fst y) < 0" "fst x \<in> K" "fst y \<in> K" using Cons.prems ys by auto
    then show False using cmp_flip[of "fst x" "fst y"] by linarith
  qed
  have "x \<notin> set xs" "y \<notin> set ys'" using Cons.prems(1,2) ys nx[of x x] xy by auto
  then have "set xs = set ys'" using Cons.prems(3) ys xy by auto
  then show ?case using Cons.IH[of ys'] Cons.prems ys xy by auto
qed simp

end

subsection \<open>Operations on the whole tree\<close>

fun sorted_ins :: "('k \<Rightarrow> 'k \<Rightarrow> int) \<Rightarrow> 'k \<Rightarrow> 'v \<Rightarrow> ('k \<times> 'v) list \<Rightarrow> ('k \<times> 'v) list" where
  "sorted_ins cmp key val [] = [(key, val)]"
| "sorted_ins cmp key val (e # es) = (if cmp key (fst e) < 0 then (key, val) # e # es else e # sorted_ins cmp key val es)"

lemma set_sorted_ins [simp]: "set (sorted_ins cmp key val es) = insert (key, val) (set es)"
  by (induction es) auto

lemma length_sorted_ins [simp]: "length (sorted_ins cmp key val es) = Suc (length es)"
  by (induction es) auto

lemma rep_two_reparent:
  assumes l: "rep (bt_nodes bt) p exl l" and r: "rep (bt_nodes bt) p exr r" and dist: "distinct (addrs l @ addrs r)"
    and n: "n = length (bt_nodes bt)"
    and bt': "bt' = set_parent n (addr r) (set_parent n (addr l) (new_node nd bt))"
  shows "rep (bt_nodes bt') (Some n) exl l" "rep (bt_nodes bt') (Some n) exr r" "bt_nodes bt' ! n = nd" "length (bt_nodes bt') = Suc n"
proof -
  have bl: "a < n" if "a \<in> set (addrs l)" for a using rep_addr_bound(1)[OF l that] n by simp
  have br: "a < n" if "a \<in> set (addrs r)" for a using rep_addr_bound(1)[OF r that] n by simp
  have nth: "bt_nodes bt' ! a = (if a = addr l \<or> a = addr r then (bt_nodes bt ! a)\<lparr>bn_parent := Some n\<rparr> else bt_nodes bt ! a)" if "a < n" for a
    using that n by (auto simp: bt' nth_set_parent nth_append)
  show len: "length (bt_nodes bt') = Suc n" by (simp add: bt' n)
  show "bt_nodes bt' ! n = nd" using bl[OF addr_in_addrs] br[OF addr_in_addrs] n by (auto simp: bt' nth_set_parent)
  have nr: "addr r \<notin> set (addrs l)" and nl: "addr l \<notin> set (addrs r)" using dist addr_in_addrs[of r] addr_in_addrs[of l] by (auto simp del: addr_in_addrs)
  show "rep (bt_nodes bt') (Some n) exl l"
    by (rule rep_reparent[OF l]) (use dist n nth bl nr len in auto)
  show "rep (bt_nodes bt') (Some n) exr r"
    by (rule rep_reparent[OF r]) (use dist n nth br nl len in auto)
qed

context key_order
begin

lemma sorted_ins_increasing:
  assumes "increasing cmp (map fst es)" "fst ` set es \<subseteq> K" "key \<in> K" "key \<notin> fst ` set es"
  shows "increasing cmp (map fst (sorted_ins cmp key val es))"
  using assms
proof (induction es)
  case (Cons e es)
  have K: "fst e \<in> K" "key \<noteq> fst e" using Cons.prems by auto
  show ?case
  proof (cases "cmp key (fst e) < 0")
    case True
    have "cmp key (fst x) < 0" if "x \<in> set es" for x by (rule cmp_trans[of _ "fst e"]) (use Cons.prems that True in auto)
    then show ?thesis using Cons.prems True by auto
  next
    case False
    then have "cmp (fst e) key < 0" using cmp_flip[OF K(1) Cons.prems(3)] cmp_eq[OF K(1) Cons.prems(3)] K(2)[symmetric] by linarith
    then show ?thesis using Cons False by auto
  qed
qed simp

lemma root_split:
  assumes "ins_two cmp K bt bt1 None None None None d t e l sk r" "3 \<le> bt_order bt"
    and res: "attachSplit (addr t) (addr r) sk None bt1 = (newRoot, bt2)"
  obtains t' n where "newRoot = Some n" "addr t' = n" "rep (bt_nodes bt2) None None t'" "distinct (addrs t')" "same_header bt2 bt"
    "ordered cmp K (bt_order bt) None None (Suc d) t'" "set (entries t') = insert e (set (entries t))"
proof -
  define n where "n = length (bt_nodes bt1)"
  have two: "keeps bt bt1 (set (addrs t))" "addr l = addr t" "rep (bt_nodes bt1) None (Some (firstLeaf r)) l" "rep (bt_nodes bt1) None None r"
      "swithin cmp K None None sk" "ordered cmp K (bt_order bt) None (Some sk) d l" "ordered cmp K (bt_order bt) (Some sk) None d r"
      "set (entries l) \<union> set (entries r) = insert e (set (entries t))" "distinct (addrs l @ addrs r)"
    using assms(1) by (simp_all add: ins_two_def)
  have bt2: "newRoot = Some n" "bt2 = set_parent n (addr r) (set_parent n (addr l) (new_node
      \<lparr>bn_isLeaf = False, bn_keys = [sk], bn_values = [], bn_children = [addr l, addr r], bn_next = None, bn_parent = None\<rparr> bt1))"
    using res by (auto simp: attachSplit_def Let_def n_def two(2))
  note R = rep_two_reparent[OF two(3,4,9) n_def bt2(2)]
  have "n \<notin> set (addrs l)" "n \<notin> set (addrs r)" using rep_addr_bound(1)[OF two(3), of n] rep_addr_bound(1)[OF two(4), of n] by (auto simp: n_def)
  then have "distinct (addrs (Nd n [sk] [l, r]))" using two(9) by auto
  moreover have "same_header bt2 bt" using two(1) by (simp add: bt2(2) keeps_def)
  moreover have "rep (bt_nodes bt2) None None (Nd n [sk] [l, r])" using R by simp
  moreover have "ordered cmp K (bt_order bt) None None (Suc d) (Nd n [sk] [l, r])" using two(5-7) assms(2) by simp
  ultimately show ?thesis using bt2(1) two(8) by (intro that[of n "Nd n [sk] [l, r]"]) auto
qed

lemma btree_inv_increasing:
  assumes "btree_inv cmp K bt kvs" shows "increasing cmp (map fst kvs)" "fst ` set kvs \<subseteq> K"
proof -
  obtain t d where "ordered cmp K (bt_order bt) None None d t" "entries t = kvs" using assms by (auto simp: btree_inv_def)
  then show "increasing cmp (map fst kvs)" "fst ` set kvs \<subseteq> K" using ordered_increasing[of _ None None d t] ordered_within[of _ None None d t] by auto
qed

lemma bt_Search_ok: 
  assumes "btree_inv cmp K bt kvs" "key \<in> K" shows "searchNode cmp (nodeBound bt) (bt_root bt) key bt = Some (map_of kvs key)"
proof -
  obtain t d where t: "rep (bt_nodes bt) None None t" "addr t = bt_root bt" "distinct (addrs t)" "ordered cmp K (bt_order bt) None None d t" "entries t = kvs"
    using assms by (auto simp: btree_inv_def)
  then show ?thesis using searchNode_ok[OF t(1,4) _ depth_less_nodes[OF t(1,3,4)], of key] assms(2) by simp
qed

lemma btree_invI:
  assumes "rep (bt_nodes bt) None None t" "addr t = bt_root bt" "distinct (addrs t)" "ordered cmp K (bt_order bt) None None d t" "bt_height bt = int d + 1"
    "3 \<le> bt_order bt" "bt_size bt = int (length kvs)" "set (entries t) = set kvs" "increasing cmp (map fst kvs)"
  shows "btree_inv cmp K bt kvs"
proof -
  have "entries t = kvs"
    by (rule increasing_unique[OF ordered_increasing[OF assms(4)] assms(9,8)]) (use ordered_within[OF assms(4)] in auto)
  then show ?thesis using assms by (auto simp: btree_inv_def)
qed

lemma bt_Insert_ok:
  assumes inv: "btree_inv cmp K bt kvs" and key: "key \<in> K"
  shows "\<exists>bt'. bt_Insert cmp key val bt = Some (if map_of kvs key = None then Inr () else Inl ErrDuplicateKey, bt') \<and>
    btree_inv cmp K bt' (if map_of kvs key = None then sorted_ins cmp key val kvs else kvs)"
proof (cases "map_of kvs key")
  case (Some v) then show ?thesis using inv bt_Search_ok[OF inv key] by (simp add: bt_Insert_def)
next
  case None
  obtain t d where t: "rep (bt_nodes bt) None None t" "addr t = bt_root bt" "distinct (addrs t)" "ordered cmp K (bt_order bt) None None d t"
      "entries t = kvs" "bt_height bt = int d + 1" "3 \<le> bt_order bt" "bt_size bt = int (length kvs)" using inv by (auto simp: btree_inv_def)
  have new: "key \<notin> fst ` set kvs" using None by (simp add: map_of_eq_None_iff)
  have inc: "increasing cmp (map fst (sorted_ins cmp key val kvs))"
    by (rule sorted_ins_increasing[OF btree_inv_increasing[OF inv] key new])
  have "inserted cmp K bt None None None None d t (key, val) (insertIntoNode cmp (nodeBound bt) (addr t) key val bt)"
    by (rule insertIntoNode_ok[OF t(1,4,3) _ _ t(7) depth_less_nodes[OF t(1,3,4)]]) (use key new t(5) in auto)
  then consider (one) bt1 t' where "insertIntoNode cmp (nodeBound bt) (bt_root bt) key val bt = Some (None, bt1)"
        "ins_one cmp K bt bt1 None None None None d t (key, val) t'"
    | (two) bt1 l sk r where "insertIntoNode cmp (nodeBound bt) (bt_root bt) key val bt = Some (attachSplit (addr t) (addr r) sk None bt1)"
        "ins_two cmp K bt bt1 None None None None d t (key, val) l sk r"
    unfolding inserted_def t(2)[symmetric] by blast
  then show ?thesis
  proof cases
    case one
    then have h: "same_header bt1 bt" by (simp add: ins_one_def rebuilt_def keeps_def)
    have "btree_inv cmp K (bt1\<lparr>bt_size := bt_size bt1 + 1\<rparr>) (sorted_ins cmp key val kvs)"
      by (rule btree_invI[of _ t' d]) (use one(2) h t inc in \<open>auto simp: ins_one_def rebuilt_def same_header_def\<close>)
    then show ?thesis using one(1) None bt_Search_ok[OF inv key] by (simp add: bt_Insert_def Let_def)
  next
    case two
    obtain newRoot bt2 where res: "attachSplit (addr t) (addr r) sk None bt1 = (newRoot, bt2)" by fastforce
    obtain t' n where R: "newRoot = Some n" "addr t' = n" "rep (bt_nodes bt2) None None t'" "distinct (addrs t')" "same_header bt2 bt"
        "ordered cmp K (bt_order bt) None None (Suc d) t'" "set (entries t') = insert (key, val) (set (entries t))"
      by (rule root_split[OF two(2) t(7) res]) (rule that)
    have "btree_inv cmp K (bt2\<lparr>bt_root := n, bt_height := bt_height bt2 + 1, bt_size := bt_size bt2 + 1\<rparr>) (sorted_ins cmp key val kvs)"
      by (rule btree_invI[of _ t' "Suc d"]) (use R t inc in \<open>auto simp: same_header_def\<close>)
    then show ?thesis using two(1) res R(1) None bt_Search_ok[OF inv key] by (simp add: bt_Insert_def Let_def)
  qed
qed

lemma length_filter_key:
  assumes "increasing cmp (map fst kvs)" "fst ` set kvs \<subseteq> K" "map_of kvs key = Some v"
  shows "int (length (filter (\<lambda>e. fst e \<noteq> key) kvs)) = int (length kvs) - 1"
  using assms
proof (induction kvs)
  case (Cons e kvs)
  show ?case
  proof (cases "fst e = key")
    case True
    have "key \<notin> fst ` set kvs" using Cons.prems True cmp_refl[of key] by fastforce
    then show ?thesis using True filter_neq_id[of key kvs] by simp
  next
    case False
    then have "map_of kvs key = Some v" using Cons.prems(3) by (cases e) auto
    then show ?thesis using Cons False by simp
  qed
qed simp

lemma bt_Delete_ok:
  assumes inv: "btree_inv cmp K bt kvs" and key: "key \<in> K"
  shows "\<exists>bt'. bt_Delete cmp key bt = Some (if map_of kvs key = None then Inl ErrKeyNotFound else Inr (), bt') \<and>
    btree_inv cmp K bt' (filter (\<lambda>e. fst e \<noteq> key) kvs)"
proof (cases "map_of kvs key")
  case None
  then have "filter (\<lambda>e. fst e \<noteq> key) kvs = kvs" by (intro filter_neq_id) (simp add: map_of_eq_None_iff)
  then show ?thesis using None inv bt_Search_ok[OF inv key] by (simp add: bt_Delete_def)
next
  case (Some v)
  obtain t d where t: "rep (bt_nodes bt) None None t" "addr t = bt_root bt" "distinct (addrs t)" "ordered cmp K (bt_order bt) None None d t"
      "entries t = kvs" "bt_height bt = int d + 1" "3 \<le> bt_order bt" "bt_size bt = int (length kvs)" using inv by (auto simp: btree_inv_def)
  have "removed cmp K bt None None None None d t key (deleteFromNode cmp (nodeBound bt) (addr t) key bt)"
    by (rule deleteFromNode_ok[OF t(1,4,3) _ depth_less_nodes[OF t(1,3,4)]]) (use key in auto)
  then obtain b bt1 t' where run: "deleteFromNode cmp (nodeBound bt) (bt_root bt) key bt = Some (b, bt1)"
      and R: "rebuilt cmp K bt bt1 None None None None d t t'" and ent: "entries t' = filter (\<lambda>e. fst e \<noteq> key) kvs"
    by (auto simp: removed_def t(2,5))
  have "int (length (filter (\<lambda>e. fst e \<noteq> key) kvs)) = int (length kvs) - 1"
    by (rule length_filter_key[OF btree_inv_increasing[OF inv] Some])
  then have "btree_inv cmp K (bt1\<lparr>bt_size := bt_size bt1 - 1\<rparr>) (filter (\<lambda>e. fst e \<noteq> key) kvs)"
    using R ent t unfolding btree_inv_def by (auto simp: rebuilt_def keeps_def same_header_def)
  then show ?thesis using run Some bt_Search_ok[OF inv key] by (simp add: bt_Delete_def)
qed

end

subsection \<open>Range scans\<close>

fun leaflist :: "('k, 'v) btr \<Rightarrow> (nat \<times> ('k \<times> 'v) list) list" where
  "leaflist (Lf a kvs) = [(a, kvs)]"
| "leaflist (Nd a ks cs) = concat (map leaflist cs)"

fun chain :: "('k, 'v) BTreeNode list \<Rightarrow> nat option \<Rightarrow> (nat \<times> ('k \<times> 'v) list) list \<Rightarrow> bool" where
  "chain h ex [] \<longleftrightarrow> True"
| "chain h ex (x # xs) \<longleftrightarrow> fst x < length h \<and> bn_keys (h ! fst x) = map fst (snd x) \<and> bn_values (h ! fst x) = map snd (snd x) \<and>
     bn_next (h ! fst x) = (case xs of [] \<Rightarrow> ex | y # _ \<Rightarrow> Some (fst y)) \<and> chain h ex xs"

fun inhabited :: "('k, 'v) btr \<Rightarrow> bool" where
  "inhabited (Lf a kvs) \<longleftrightarrow> True"
| "inhabited (Nd a ks cs) \<longleftrightarrow> cs \<noteq> [] \<and> list_all inhabited cs"

lemma entries_leaflist: "entries t = concat (map snd (leaflist t))"
proof (induction t)
  case (Nd a ks cs)
  then show ?case by (induction cs) auto
qed simp

lemma leaflist_first: "inhabited t \<Longrightarrow> leaflist t \<noteq> [] \<and> fst (hd (leaflist t)) = firstLeaf t"
proof (induction t)
  case (Nd a ks cs) then show ?case by (cases cs) auto
qed simp

lemma leaflist_length: "length (leaflist t) \<le> length (addrs t)"
proof (induction t)
  case (Nd a ks cs)
  then have "length (concat (map leaflist cs)) \<le> length (concat (map addrs cs))"
    by (induction cs) (auto intro: add_mono)
  then show ?case by simp
qed simp

lemma chain_append:
  "chain h ex (xs @ ys) \<longleftrightarrow> chain h (case ys of [] \<Rightarrow> ex | y # _ \<Rightarrow> Some (fst y)) xs \<and> chain h ex ys"
proof (induction xs)
  case (Cons x xs) then show ?case by (cases xs; cases ys) auto
qed simp

lemma rep_chain:
  "rep h p ex t \<Longrightarrow> inhabited t \<Longrightarrow> chain h ex (leaflist t)"
  "reps h p ex ts \<Longrightarrow> list_all inhabited ts \<Longrightarrow> chain h ex (concat (map leaflist ts))"
proof (induction h p ex t and h p ex ts rule: rep_reps.induct)
  case (4 h p ex c cs)
  have "(case concat (map leaflist cs) of [] \<Rightarrow> ex | y # _ \<Rightarrow> Some (fst y)) = (case cs of [] \<Rightarrow> ex | c' # _ \<Rightarrow> Some (firstLeaf c'))"
  proof (cases cs)
    case (Cons c' cs')
    then show ?thesis using leaflist_first[of c'] 4 by (cases "leaflist c'") auto
  qed simp
  then show ?case using 4 by (simp add: chain_append)
qed auto

definition in_range :: "('k \<Rightarrow> 'k \<Rightarrow> int) \<Rightarrow> 'k option \<Rightarrow> 'k option \<Rightarrow> 'k \<Rightarrow> bool" where
  "in_range cmp start end' k \<longleftrightarrow>
     (case start of None \<Rightarrow> True | Some s \<Rightarrow> cmp k s \<ge> 0) \<and> (case end' of None \<Rightarrow> True | Some e \<Rightarrow> cmp k e \<le> 0)"

definition past_end :: "('k \<Rightarrow> 'k \<Rightarrow> int) \<Rightarrow> 'k option \<Rightarrow> 'k \<Rightarrow> bool" where
  "past_end cmp end' k \<longleftrightarrow> (case end' of None \<Rightarrow> False | Some e \<Rightarrow> cmp k e > 0)"

lemma past_end_not_in_range: "past_end cmp end' k \<Longrightarrow> \<not> in_range cmp start end' k"
  by (auto simp: past_end_def in_range_def split: option.splits)

context key_order
begin

lemma ordered_inhabited: "ordered cmp K m lo hi d t \<Longrightarrow> inhabited t"
proof (induction t arbitrary: lo hi d)
  case (Nd a ks cs)
  then have "orderedc cmp K m lo hi (d - 1) ks cs" by simp
  then have "list_all inhabited cs \<and> cs \<noteq> []" using Nd.IH
    by (induction ks arbitrary: lo cs) (fastforce simp: orderedc_Nil orderedc_Cons)+
  then show ?case by simp
qed simp

lemma leftmost_ok:
  assumes "rep (bt_nodes bt) p ex t" "ordered cmp K m lo hi d t" "d < fuel"
  shows "leftmost fuel (addr t) bt = Some (firstLeaf t)"
  using assms
proof (induction fuel arbitrary: t p ex lo hi d)
  case (Suc fuel)
  show ?case
  proof (cases t)
    case (Nd a ks cs)
    then obtain d' where d: "d = Suc d'" "orderedc cmp K m lo hi d' ks cs" using Suc.prems(2) by (cases d) auto
    then obtain c cs' where cs: "cs = c # cs'" using orderedc_length[OF d(2)] by (cases cs) auto
    have "\<exists>hi. ordered cmp K m lo hi d' c" using d(2) cs by (cases ks) (auto simp: orderedc_Nil orderedc_Cons)
    then show ?thesis using Suc.prems Suc.IH[of _ _ c lo _ d'] Nd cs d(1) by (auto simp: Let_def)
  qed (use Suc.prems in \<open>simp add: Let_def\<close>)
qed simp

lemma findLeaf_ok:
  assumes "rep (bt_nodes bt) p ex t" "ordered cmp K m lo hi d t" "within cmp K lo hi key" "d < fuel"
  shows "\<exists>pre a kvs post. findLeaf cmp fuel (addr t) key bt = Some a \<and> leaflist t = pre @ (a, kvs) # post \<and>
    (\<forall>e\<in>set (concat (map snd pre)). cmp (fst e) key < 0)"
  using assms
proof (induction fuel arbitrary: t p ex lo hi d)
  case (Suc fuel)
  show ?case
  proof (cases t)
    case (Lf a kvs)
    then show ?thesis using Suc.prems by (intro exI[of _ "[]"] exI[of _ a] exI[of _ kvs]) (auto simp: Let_def)
  next
    case (Nd a ks cs)
    then obtain d' where d: "d = Suc d'" "orderedc cmp K m lo hi d' ks cs" using Suc.prems(2) by (cases d) auto
    obtain ks1 ks2 cs1 c cs2 lo' hi' where loc: "ks = ks1 @ ks2" "cs = cs1 @ c # cs2"
        "hole cmp K m lo hi d' ks1 ks2 cs1 cs2 lo' hi'" "ordered cmp K m lo' hi' d' c" "within cmp K lo' hi' key"
      by (rule locate[OF d(2) Suc.prems(3)]) (rule that)
    have pos: "findPosition cmp ks key = length ks1" "length cs1 = length ks1" using loc by (auto simp: hole_def)
    have "reps (bt_nodes bt) (Some a) ex (cs1 @ c # cs2)" using Suc.prems(1) Nd loc by simp
    then obtain pre b kvs post where f: "findLeaf cmp fuel (addr c) key bt = Some b" "leaflist c = pre @ (b, kvs) # post"
        "\<forall>e\<in>set (concat (map snd pre)). cmp (fst e) key < 0"
      using Suc.IH[OF _ loc(4,5), of "Some a"] Suc.prems(4) d(1) by (fastforce simp: reps_append)
    have "\<forall>e\<in>set (concat (map entries cs1)). cmp (fst e) key < 0" using loc by (simp add: hole_def)
    then have lt: "\<forall>e\<in>set (concat (map snd (concat (map leaflist cs1)))). cmp (fst e) key < 0" by (simp add: entries_leaflist)
    have run: "findLeaf cmp (Suc fuel) (addr t) key bt = Some b"
      using Suc.prems(1) pos f(1) by (simp add: Nd Let_def nth_append loc(1,2))
    have "leaflist t = (concat (map leaflist cs1) @ pre) @ (b, kvs) # post @ concat (map leaflist cs2)" by (simp add: Nd loc(2) f(2))
    moreover have "\<forall>e\<in>set (concat (map snd (concat (map leaflist cs1) @ pre))). cmp (fst e) key < 0" using lt f(3) by simp blast
    ultimately show ?thesis using run by blast
  qed
qed simp

lemma past_end_mono:
  assumes "past_end cmp end' k" "cmp k k' < 0" "k \<in> K" "k' \<in> K" "\<forall>e. end' = Some e \<longrightarrow> e \<in> K"
  shows "past_end cmp end' k'"
proof -
  obtain e where e: "end' = Some e" "e \<in> K" "cmp k e > 0" using assms(1,5) by (auto simp: past_end_def split: option.splits)
  then have "cmp e k' < 0" using cmp_trans[of e k k'] cmp_pos[of k e] assms(2-4) by auto
  then show ?thesis using e cmp_pos[of k' e] assms(4) by (simp add: past_end_def)
qed

lemma filter_past:
  assumes "increasing cmp (map fst (e # es))" "fst ` set (e # es) \<subseteq> K" "past_end cmp end' (fst e)" "\<forall>e. end' = Some e \<longrightarrow> e \<in> K"
  shows "filter (\<lambda>e. in_range cmp start end' (fst e)) (e # es) = []"
proof -
  have "past_end cmp end' (fst x)" if "x \<in> set es" for x
    by (rule past_end_mono[OF assms(3)]) (use assms that in auto)
  then show ?thesis using assms(3) by (auto simp: filter_empty_conv dest: past_end_not_in_range)
qed

lemma scan_leaf_ok:
  assumes "increasing cmp (map fst kvs)" "fst ` set kvs \<subseteq> K" "\<forall>e. end' = Some e \<longrightarrow> e \<in> K"
  shows "scan_leaf cmp start end' (map fst kvs) (map snd kvs) =
    Some (filter (\<lambda>e. in_range cmp start end' (fst e)) kvs, \<exists>e\<in>set kvs. past_end cmp end' (fst e))"
  using assms
proof (induction kvs)
  case (Cons e kvs)
  show ?case
  proof (cases "past_end cmp end' (fst e)")
    case True
    then have "filter (\<lambda>e. in_range cmp start end' (fst e)) (e # kvs) = []" using filter_past[OF Cons.prems(1,2) _ Cons.prems(3)] by simp
    then show ?thesis using True by (auto simp: Let_def past_end_def in_range_def split: option.splits)
  next
    case False
    then show ?thesis using Cons by (cases e) (auto simp: Let_def past_end_def in_range_def split: option.splits)
  qed
qed simp

lemma scan_leaves_ok:
  assumes "chain (bt_nodes bt) None ll" "increasing cmp (map fst (concat (map snd ll)))" "fst ` set (concat (map snd ll)) \<subseteq> K"
    "\<forall>e. end' = Some e \<longrightarrow> e \<in> K" "length ll \<le> fuel"
  shows "scan_leaves cmp start end' fuel (case ll of [] \<Rightarrow> None | x # _ \<Rightarrow> Some (fst x)) bt =
    Some (filter (\<lambda>e. in_range cmp start end' (fst e)) (concat (map snd ll)))"
  using assms
proof (induction ll arbitrary: fuel)
  case (Cons x ll)
  obtain f where f: "fuel = Suc f" "length ll \<le> f" using Cons.prems(5) by (cases fuel) auto
  have inc: "increasing cmp (map fst (snd x))" "increasing cmp (map fst (concat (map snd ll)))" "fst ` set (snd x) \<subseteq> K" "fst ` set (concat (map snd ll)) \<subseteq> K"
    using Cons.prems by (auto simp: sorted_wrt_append)
  note leaf = scan_leaf_ok[OF inc(1,3) Cons.prems(4), of start]
  have ih: "scan_leaves cmp start end' f (case ll of [] \<Rightarrow> None | x # _ \<Rightarrow> Some (fst x)) bt =
    Some (filter (\<lambda>e. in_range cmp start end' (fst e)) (concat (map snd ll)))"
    using Cons.IH[OF _ inc(2,4) Cons.prems(4) f(2)] Cons.prems(1) by simp
  have rest: "filter (\<lambda>e. in_range cmp start end' (fst e)) (concat (map snd ll)) = []" if "y \<in> set (snd x)" "past_end cmp end' (fst y)" for y
  proof -
    have "past_end cmp end' (fst z)" if "z \<in> set (concat (map snd ll))" for z
      by (rule past_end_mono[OF \<open>past_end cmp end' (fst y)\<close>]) (use Cons.prems that \<open>y \<in> set (snd x)\<close> in \<open>auto simp: sorted_wrt_append\<close>)
    then show ?thesis by (auto simp: filter_empty_conv dest: past_end_not_in_range)
  qed
  show ?case using Cons.prems(1) leaf ih rest by (auto simp: f(1) Let_def)
qed simp

lemma RangeScan_ok:
  assumes inv: "btree_inv cmp K bt kvs" and s: "\<forall>s. start = Some s \<longrightarrow> s \<in> K" and e: "\<forall>e. end' = Some e \<longrightarrow> e \<in> K"
  shows "RangeScan cmp start end' bt = Some (filter (\<lambda>e. in_range cmp start end' (fst e)) kvs)"
proof -
  obtain t d where t: "rep (bt_nodes bt) None None t" "addr t = bt_root bt" "distinct (addrs t)" "ordered cmp K (bt_order bt) None None d t" "entries t = kvs"
    using inv by (auto simp: btree_inv_def)
  note fuel = depth_less_nodes[OF t(1,3,4)]
  have ih: "inhabited t" by (rule ordered_inhabited[OF t(4)])
  have ch: "chain (bt_nodes bt) None (leaflist t)" by (rule rep_chain(1)[OF t(1) ih])
  have len: "length (leaflist t) \<le> nodeBound bt" using leaflist_length[of t] addrs_le_nodes[OF t(1,3)] by simp
  have kvs: "kvs = concat (map snd (leaflist t))" using t(5) entries_leaflist by metis
  have "\<exists>pre a x post. (case start of None \<Rightarrow> leftmost (nodeBound bt) (bt_root bt) bt | Some s \<Rightarrow> findLeaf cmp (nodeBound bt) (bt_root bt) s bt) = Some a \<and>
     leaflist t = pre @ (a, x) # post \<and> (\<forall>e\<in>set (concat (map snd pre)). \<not> in_range cmp start end' (fst e))"
  proof (cases start)
    case None
    obtain a x ll where "leaflist t = (a, x) # ll" "a = firstLeaf t" using leaflist_first[OF ih] by (cases "leaflist t") auto
    then show ?thesis using None leftmost_ok[OF t(1,4) fuel] t(2) by (intro exI[of _ "[]"]) auto
  next
    case (Some k)
    then show ?thesis using findLeaf_ok[OF t(1,4) _ fuel, of k] s t(2) by (fastforce simp: in_range_def)
  qed
  then obtain pre a x post where f: "(case start of None \<Rightarrow> leftmost (nodeBound bt) (bt_root bt) bt | Some s \<Rightarrow> findLeaf cmp (nodeBound bt) (bt_root bt) s bt) = Some a"
     "leaflist t = pre @ (a, x) # post" "\<forall>e\<in>set (concat (map snd pre)). \<not> in_range cmp start end' (fst e)" by blast
  have "scan_leaves cmp start end' (nodeBound bt) (case (a, x) # post of [] \<Rightarrow> None | x # _ \<Rightarrow> Some (fst x)) bt =
    Some (filter (\<lambda>e. in_range cmp start end' (fst e)) (concat (map snd ((a, x) # post))))"
    by (rule scan_leaves_ok[OF _ _ _ e]) (use ch len btree_inv_increasing[OF inv] in \<open>auto simp: f(2) kvs chain_append sorted_wrt_append\<close>)
  moreover have "filter (\<lambda>e. in_range cmp start end' (fst e)) (concat (map snd pre)) = []" using f(3) by (auto simp: filter_empty_conv)
  ultimately show ?thesis using f(1) by (simp add: RangeScan_def kvs f(2))
qed

lemma NewBTree_inv: "btree_inv cmp K (NewBTree nilKey order) []"
  unfolding btree_inv_def
  by (intro conjI exI[of _ "Lf 0 []"] exI[of _ 0]) (auto simp: NewBTree_def)

end

subsection \<open>Runs of operations\<close>

datatype ('k, 'v) bt_op = BtInsert 'k 'v | BtDelete 'k | BtSearch 'k | BtRange "'k option" "'k option"

datatype ('k, 'v) bt_res = BtDone | BtErr index_error | BtFound "'v option" | BtPairs "('k \<times> 'v) list"

fun op_keys :: "('k, 'v) bt_op \<Rightarrow> 'k set" where
  "op_keys (BtInsert k v) = {k}"
| "op_keys (BtDelete k) = {k}"
| "op_keys (BtSearch k) = {k}"
| "op_keys (BtRange s e) = set_option s \<union> set_option e"

definition outcome :: "index_error + unit \<Rightarrow> ('k, 'v) bt_res" where
  "outcome r = (case r of Inl e \<Rightarrow> BtErr e | Inr _ \<Rightarrow> BtDone)"

fun bt_step :: "('k \<Rightarrow> 'k \<Rightarrow> int) \<Rightarrow> ('k, 'v) bt_op \<Rightarrow> ('k, 'v) BTree \<Rightarrow> (('k, 'v) bt_res \<times> ('k, 'v) BTree) option" where
  "bt_step cmp (BtInsert k v) bt = map_option (\<lambda>(r, bt'). (outcome r, bt')) (bt_Insert cmp k v bt)"
| "bt_step cmp (BtDelete k) bt = map_option (\<lambda>(r, bt'). (outcome r, bt')) (bt_Delete cmp k bt)"
| "bt_step cmp (BtSearch k) bt = map_option (\<lambda>r. (BtFound r, bt)) (bt_Search cmp k bt)"
| "bt_step cmp (BtRange s e) bt = map_option (\<lambda>r. (BtPairs r, bt)) (RangeScan cmp s e bt)"

fun bt_run :: "('k \<Rightarrow> 'k \<Rightarrow> int) \<Rightarrow> ('k, 'v) bt_op list \<Rightarrow> ('k, 'v) BTree \<Rightarrow> (('k, 'v) bt_res list \<times> ('k, 'v) BTree) option" where
  "bt_run cmp [] bt = Some ([], bt)"
| "bt_run cmp (x # xs) bt =
     (case bt_step cmp x bt of None \<Rightarrow> None
      | Some (r, bt1) \<Rightarrow> (case bt_run cmp xs bt1 of None \<Rightarrow> None | Some (rs, bt2) \<Rightarrow> Some (r # rs, bt2)))"

text \<open>The specification: a list of entries in key order.\<close>

fun smap_step :: "('k \<Rightarrow> 'k \<Rightarrow> int) \<Rightarrow> ('k, 'v) bt_op \<Rightarrow> ('k \<times> 'v) list \<Rightarrow> ('k, 'v) bt_res \<times> ('k \<times> 'v) list" where
  "smap_step cmp (BtInsert k v) m = (if map_of m k = None then (BtDone, sorted_ins cmp k v m) else (BtErr ErrDuplicateKey, m))"
| "smap_step cmp (BtDelete k) m = (if map_of m k = None then (BtErr ErrKeyNotFound, m) else (BtDone, filter (\<lambda>e. fst e \<noteq> k) m))"
| "smap_step cmp (BtSearch k) m = (BtFound (map_of m k), m)"
| "smap_step cmp (BtRange s e) m = (BtPairs (filter (\<lambda>x. in_range cmp s e (fst x)) m), m)"

fun smap_run :: "('k \<Rightarrow> 'k \<Rightarrow> int) \<Rightarrow> ('k, 'v) bt_op list \<Rightarrow> ('k \<times> 'v) list \<Rightarrow> ('k, 'v) bt_res list \<times> ('k \<times> 'v) list" where
  "smap_run cmp [] m = ([], m)"
| "smap_run cmp (x # xs) m = (let (r, m1) = smap_step cmp x m; (rs, m2) = smap_run cmp xs m1 in (r # rs, m2))"

definition bt_Size :: "('k, 'v) BTree \<Rightarrow> int" where
  "bt_Size bt = bt_size bt"

definition bt_Height :: "('k, 'v) BTree \<Rightarrow> int" where
  "bt_Height bt = bt_height bt"

context key_order
begin

lemma bt_step_ok:
  assumes inv: "btree_inv cmp K bt m" and op: "op_keys x \<subseteq> K"
  shows "\<exists>bt'. bt_step cmp x bt = Some (fst (smap_step cmp x m), bt') \<and> btree_inv cmp K bt' (snd (smap_step cmp x m))"
proof (cases x)
  case (BtInsert k v) then show ?thesis using bt_Insert_ok[OF inv, of k v] op by (auto simp: outcome_def)
next
  case (BtDelete k)
  then have k: "k \<in> K" using op by simp
  have "map_of m k = None \<Longrightarrow> filter (\<lambda>e. fst e \<noteq> k) m = m" by (intro filter_neq_id) (simp add: map_of_eq_None_iff)
  then show ?thesis using bt_Delete_ok[OF inv k] BtDelete by (auto simp: outcome_def)
next
  case (BtSearch k) then show ?thesis using bt_Search_ok[OF inv, of k] op inv by (simp add: bt_Search_def)
next
  case (BtRange s e) then show ?thesis using RangeScan_ok[OF inv, of s e] op inv by (cases s; cases e) auto
qed

lemma bt_run_ok:
  assumes "btree_inv cmp K bt m" "\<forall>x\<in>set xs. op_keys x \<subseteq> K"
  shows "\<exists>bt'. bt_run cmp xs bt = Some (fst (smap_run cmp xs m), bt') \<and> btree_inv cmp K bt' (snd (smap_run cmp xs m))"
  using assms
proof (induction xs arbitrary: bt m)
  case (Cons x xs)
  obtain bt1 where 1: "bt_step cmp x bt = Some (fst (smap_step cmp x m), bt1)" "btree_inv cmp K bt1 (snd (smap_step cmp x m))"
    using bt_step_ok[OF Cons.prems(1), of x] Cons.prems(2) by auto
  obtain bt2 where 2: "bt_run cmp xs bt1 = Some (fst (smap_run cmp xs (snd (smap_step cmp x m))), bt2)"
      "btree_inv cmp K bt2 (snd (smap_run cmp xs (snd (smap_step cmp x m))))"
    using Cons.IH[OF 1(2)] Cons.prems(2) by auto
  then show ?case using 1 by (simp add: case_prod_beta)
qed simp

end

text \<open>
  C5. For keys of one kind (64- or 32-bit integers, floats without NaN and with one zero, strings, byte strings, object
  ids, or composite keys of one shape), every run of inserts, deletes, lookups and range scans on a new B+ tree of any
  order returns, and returns what the same run returns on a list of entries in key order: duplicates and missing keys
  are reported, a scan gives the entries between its bounds in order. Afterwards the nodes form a balanced
  search tree of these entries with fewer than \<open>order\<close> keys in each node, and \<open>Size\<close> is their number.
\<close>

theorem btree_refines_sorted_map:
  assumes "K = keys_of kd \<or> K = composite_keys ts" "\<forall>x\<in>set xs. op_keys x \<subseteq> K"
  shows "\<exists>bt. bt_run bt_compare xs (NewBTree nilKey order) = Some (fst (smap_run bt_compare xs []), bt) \<and>
    btree_inv bt_compare K bt (snd (smap_run bt_compare xs [])) \<and> bt_Size bt = int (length (snd (smap_run bt_compare xs [])))"
proof -
  have "\<exists>bt. bt_run bt_compare xs (NewBTree nilKey order) = Some (fst (smap_run bt_compare xs []), bt) \<and>
    btree_inv bt_compare K bt (snd (smap_run bt_compare xs []))"
    using assms(1)
  proof
    assume K: "K = keys_of kd"
    show ?thesis using vkeys.bt_run_ok[OF vkeys.NewBTree_inv, of xs kd] assms(2) unfolding K by simp
  next
    assume K: "K = composite_keys ts"
    show ?thesis using ckeys.bt_run_ok[OF ckeys.NewBTree_inv, of xs ts] assms(2) unfolding K by simp
  qed
  then show ?thesis by (auto simp: btree_inv_def bt_Size_def)
qed

theorem btree_refines_sorted_map_witness:
  "let xs = [BtInsert (KVal (GInt64 3)) (1 :: nat), BtInsert (KVal (GInt64 1)) 2, BtInsert (KVal (GInt64 2)) 3, BtInsert (KVal (GInt64 3)) 4,
             BtDelete (KVal (GInt64 1)), BtRange None (Some (KVal (GInt64 2)))]
   in (\<exists>bt. bt_run bt_compare xs (NewBTree (KVal GNil) 3) =
         Some ([BtDone, BtDone, BtDone, BtErr ErrDuplicateKey, BtDone, BtPairs [(KVal (GInt64 2), 3)]], bt) \<and> bt_Size bt = 2)"
proof -
  define xs where "xs = [BtInsert (KVal (GInt64 3)) (1 :: nat), BtInsert (KVal (GInt64 1)) 2, BtInsert (KVal (GInt64 2)) 3,
     BtInsert (KVal (GInt64 3)) 4, BtDelete (KVal (GInt64 1)), BtRange None (Some (KVal (GInt64 2)))]"
  have "\<forall>x\<in>set xs. op_keys x \<subseteq> keys_of KInt64" by (simp add: xs_def keys_of_def of_kind_iff)
  note this_run = btree_refines_sorted_map[OF disjI1[OF refl] this, of "KVal GNil" 3]
  have "smap_run bt_compare xs [] = ([BtDone, BtDone, BtDone, BtErr ErrDuplicateKey, BtDone, BtPairs [(KVal (GInt64 2), 3)]],
      [(KVal (GInt64 2), 3), (KVal (GInt64 3), 1)])"
    unfolding xs_def by (simp add: val_compare_def cmp3_def in_range_def)
  then show ?thesis using this_run unfolding xs_def[symmetric] by auto
qed

end
