(* ===== verification/Index.thy ===== *)
theory Index
  imports BtreeMap
begin

text \<open>
  \<^verbatim>\<open>pkg/index/index.go\<close>, \<^verbatim>\<open>stats.go\<close> and \<^verbatim>\<open>build_state.go\<close>: an index is a B+ tree with a uniqueness flag, statistics and
  the progress of its build. The clock is an argument, a zero time is \<open>None\<close>.
\<close>

subsection \<open>Build progress\<close>

datatype IndexBuildState = IndexStateReady | IndexStateBuilding | IndexStateFailed

record IndexBuildProgress =
  ibp_State :: IndexBuildState
  ibp_TotalDocuments :: int
  ibp_ProcessedDocuments :: int
  ibp_ErrorMessage :: string
  ibp_StartTime :: "int option"
  ibp_EndTime :: "int option"

definition NewIndexBuildProgress :: IndexBuildProgress where
  "NewIndexBuildProgress = \<lparr>ibp_State = IndexStateReady, ibp_TotalDocuments = 0, ibp_ProcessedDocuments = 0,
     ibp_ErrorMessage = '''', ibp_StartTime = None, ibp_EndTime = None\<rparr>"

definition build_Start :: "int \<Rightarrow> int \<Rightarrow> IndexBuildProgress \<Rightarrow> IndexBuildProgress" where
  "build_Start now totalDocs p = p\<lparr>ibp_State := IndexStateBuilding, ibp_TotalDocuments := totalDocs, ibp_ProcessedDocuments := 0,
     ibp_ErrorMessage := '''', ibp_StartTime := Some now, ibp_EndTime := None\<rparr>"

definition build_Update :: "int \<Rightarrow> IndexBuildProgress \<Rightarrow> IndexBuildProgress" where
  "build_Update processed p = p\<lparr>ibp_ProcessedDocuments := processed\<rparr>"

definition build_Increment :: "IndexBuildProgress \<Rightarrow> IndexBuildProgress" where
  "build_Increment p = p\<lparr>ibp_ProcessedDocuments := ibp_ProcessedDocuments p + 1\<rparr>"

definition build_Complete :: "int \<Rightarrow> IndexBuildProgress \<Rightarrow> IndexBuildProgress" where
  "build_Complete now p = p\<lparr>ibp_State := IndexStateReady, ibp_EndTime := Some now\<rparr>"

definition build_Fail :: "int \<Rightarrow> string \<Rightarrow> IndexBuildProgress \<Rightarrow> IndexBuildProgress" where
  "build_Fail now err p = p\<lparr>ibp_State := IndexStateFailed, ibp_ErrorMessage := err, ibp_EndTime := Some now\<rparr>"

subsection \<open>Statistics\<close>

record IndexStats =
  is_TotalEntries :: int
  is_UniqueKeys :: int
  is_MinValue :: "ikey option"
  is_MaxValue :: "ikey option"
  is_LastUpdated :: int
  is_IsStale :: bool

definition NewIndexStats :: "int \<Rightarrow> IndexStats" where
  "NewIndexStats now = \<lparr>is_TotalEntries = 0, is_UniqueKeys = 0, is_MinValue = None, is_MaxValue = None,
     is_LastUpdated = now, is_IsStale = True\<rparr>"

definition stats_Update :: "IndexStats \<Rightarrow> IndexStats" where
  "stats_Update s = s\<lparr>is_IsStale := True\<rparr>"

definition SetStats :: "int \<Rightarrow> int \<Rightarrow> int \<Rightarrow> ikey option \<Rightarrow> ikey option \<Rightarrow> IndexStats \<Rightarrow> IndexStats" where
  "SetStats now n uniq minV maxV s = s\<lparr>is_TotalEntries := n, is_UniqueKeys := uniq, is_MinValue := minV,
     is_MaxValue := maxV, is_LastUpdated := now, is_IsStale := False\<rparr>"

subsection \<open>Index\<close>

datatype IndexType = IndexTypeBTree | IndexTypeHash | IndexTypeText | IndexType2D | IndexType2DSphere

record Index =
  ix_name :: string
  ix_fieldPaths :: "string list"
  ix_indexType :: IndexType
  ix_isUnique :: bool
  ix_filter :: "(string \<times> gval) list"
  ix_btree :: "(ikey, gval) BTree"
  ix_stats :: IndexStats
  ix_buildProgress :: IndexBuildProgress

record IndexConfig =
  ic_Name :: string
  ic_FieldPath :: string
  ic_FieldPaths :: "string list"
  ic_Type :: IndexType
  ic_Unique :: bool
  ic_Order :: int
  ic_Filter :: "(string \<times> gval) list"

text \<open>\<open>None\<close> is the panic on an index without fields.\<close>

definition NewIndex :: "int \<Rightarrow> IndexConfig \<Rightarrow> Index option" where
  "NewIndex now config =
     (let fieldPaths = (if ic_FieldPaths config = [] \<and> ic_FieldPath config \<noteq> '''' then [ic_FieldPath config] else ic_FieldPaths config)
      in if fieldPaths = [] then None
         else Some \<lparr>ix_name = ic_Name config, ix_fieldPaths = fieldPaths, ix_indexType = ic_Type config, ix_isUnique = ic_Unique config,
                    ix_filter = ic_Filter config,
                    ix_btree = NewBTree (KVal GNil)
                      (case ic_Type config of IndexTypeBTree \<Rightarrow> if ic_Order config = 0 then 32 else ic_Order config | _ \<Rightarrow> 32),
                    ix_stats = NewIndexStats now, ix_buildProgress = NewIndexBuildProgress\<rparr>)"

datatype idx_error = DuplicateInUniqueIndex ikey | TreeError index_error

definition idx_Insert :: "ikey \<Rightarrow> gval \<Rightarrow> Index \<Rightarrow> ((idx_error + unit) \<times> Index) option" where
  "idx_Insert key val idx =
     (case (if ix_isUnique idx then bt_Search bt_compare key (ix_btree idx) else Some None) of
        None \<Rightarrow> None
      | Some (Some _) \<Rightarrow> Some (Inl (DuplicateInUniqueIndex key), idx)
      | Some None \<Rightarrow>
         (case bt_Insert bt_compare key val (ix_btree idx) of
            None \<Rightarrow> None
          | Some (Inl e, bt) \<Rightarrow> Some (Inl (TreeError e), idx\<lparr>ix_btree := bt\<rparr>)
          | Some (Inr _, bt) \<Rightarrow> Some (Inr (), idx\<lparr>ix_btree := bt, ix_stats := stats_Update (ix_stats idx)\<rparr>)))"

definition idx_Search :: "ikey \<Rightarrow> Index \<Rightarrow> gval option option" where
  "idx_Search key idx = bt_Search bt_compare key (ix_btree idx)"

definition idx_Delete :: "ikey \<Rightarrow> Index \<Rightarrow> ((idx_error + unit) \<times> Index) option" where
  "idx_Delete key idx =
     (case bt_Delete bt_compare key (ix_btree idx) of
        None \<Rightarrow> None
      | Some (Inl e, bt) \<Rightarrow> Some (Inl (TreeError e), idx\<lparr>ix_btree := bt\<rparr>)
      | Some (Inr _, bt) \<Rightarrow> Some (Inr (), idx\<lparr>ix_btree := bt, ix_stats := stats_Update (ix_stats idx)\<rparr>))"

definition idx_RangeScan :: "ikey option \<Rightarrow> ikey option \<Rightarrow> Index \<Rightarrow> (ikey \<times> gval) list option" where
  "idx_RangeScan start end' idx = RangeScan bt_compare start end' (ix_btree idx)"

definition idx_Size :: "Index \<Rightarrow> int" where
  "idx_Size idx = bt_Size (ix_btree idx)"

definition FieldPath :: "Index \<Rightarrow> string" where
  "FieldPath idx = (case ix_fieldPaths idx of [] \<Rightarrow> '''' | f # _ \<Rightarrow> f)"

definition IsCompound :: "Index \<Rightarrow> bool" where
  "IsCompound idx = (length (ix_fieldPaths idx) > 1)"

definition IsPartial :: "Index \<Rightarrow> bool" where
  "IsPartial idx = (ix_filter idx \<noteq> [])"

subsection \<open>Analyze\<close>

text \<open>
  \<open>Analyze\<close> counts keys in a Go map from \<^verbatim>\<open>interface{}\<close>: a key of slice or map type panics (\<open>None\<close>), floats are equal as
  numbers, and composite keys are pointers, so no two of them are equal.
\<close>

definition hashable :: "ikey \<Rightarrow> bool" where
  "hashable k = (case k of KComposite _ \<Rightarrow> True
     | KVal v \<Rightarrow> (case v of GBytes _ \<Rightarrow> False | GArr _ \<Rightarrow> False | GMap _ \<Rightarrow> False | GDoc _ \<Rightarrow> False | _ \<Rightarrow> True))"

definition map_key_eq :: "ikey \<Rightarrow> ikey \<Rightarrow> bool" where
  "map_key_eq a b = (case a of KComposite _ \<Rightarrow> False
     | KVal x \<Rightarrow> (case x of GFloat64 f \<Rightarrow> (case b of KVal (GFloat64 g) \<Rightarrow> \<not> f64_nan f \<and> \<not> f64_nan g \<and> f64_rank f = f64_rank g | _ \<Rightarrow> False)
                        | _ \<Rightarrow> a = b))"

fun analyze_keys :: "ikey list \<Rightarrow> ikey list \<Rightarrow> ikey \<Rightarrow> ikey \<Rightarrow> (ikey list \<times> ikey \<times> ikey) option" where
  "analyze_keys [] seen minV maxV = Some (seen, minV, maxV)"
| "analyze_keys (k # ks) seen minV maxV =
     (if \<not> hashable k then None
      else analyze_keys ks (if \<exists>s\<in>set seen. map_key_eq s k then seen else k # seen)
             (if bt_compare k minV < 0 then k else minV) (if bt_compare k maxV > 0 then k else maxV))"

definition Analyze :: "int \<Rightarrow> Index \<Rightarrow> Index option" where
  "Analyze now idx =
     (case RangeScan bt_compare None None (ix_btree idx) of
        None \<Rightarrow> None
      | Some [] \<Rightarrow> Some (idx\<lparr>ix_stats := SetStats now 0 0 None None (ix_stats idx)\<rparr>)
      | Some ((k, v) # es) \<Rightarrow>
         (if \<not> hashable k then None
          else case analyze_keys (map fst es) [k] k k of
                 None \<Rightarrow> None
               | Some (seen, minV, maxV) \<Rightarrow>
                  Some (idx\<lparr>ix_stats := SetStats now (int (length ((k, v) # es))) (int (length seen)) (Some minV) (Some maxV) (ix_stats idx)\<rparr>)))"

subsection \<open>Build state of an index\<close>

definition IsReady :: "Index \<Rightarrow> bool" where
  "IsReady idx = (ibp_State (ix_buildProgress idx) = IndexStateReady)"

definition IsBuilding :: "Index \<Rightarrow> bool" where
  "IsBuilding idx = (ibp_State (ix_buildProgress idx) = IndexStateBuilding)"

definition StartBuild :: "int \<Rightarrow> int \<Rightarrow> Index \<Rightarrow> Index" where
  "StartBuild now totalDocs idx = idx\<lparr>ix_buildProgress := build_Start now totalDocs (ix_buildProgress idx)\<rparr>"

definition UpdateBuildProgress :: "int \<Rightarrow> Index \<Rightarrow> Index" where
  "UpdateBuildProgress processed idx = idx\<lparr>ix_buildProgress := build_Update processed (ix_buildProgress idx)\<rparr>"

definition IncrementBuildProgress :: "Index \<Rightarrow> Index" where
  "IncrementBuildProgress idx = idx\<lparr>ix_buildProgress := build_Increment (ix_buildProgress idx)\<rparr>"

definition CompleteBuild :: "int \<Rightarrow> Index \<Rightarrow> Index" where
  "CompleteBuild now idx = idx\<lparr>ix_buildProgress := build_Complete now (ix_buildProgress idx)\<rparr>"

definition FailBuild :: "int \<Rightarrow> string \<Rightarrow> Index \<Rightarrow> Index" where
  "FailBuild now err idx = idx\<lparr>ix_buildProgress := build_Fail now err (ix_buildProgress idx)\<rparr>"

section \<open>Correctness\<close>


subsection \<open>Statistics\<close>

lemma map_key_eq_compare: "map_key_eq a b \<Longrightarrow> bt_compare a b = 0 \<or> a = b"
proof (cases a)
  case (KVal x)
  assume m: "map_key_eq a b"
  show ?thesis
  proof (cases "\<exists>f. x = GFloat64 f")
    case True
    then obtain f where x: "x = GFloat64 f" by blast
    with m KVal obtain g where "b = KVal (GFloat64 g)" "f64_rank f = f64_rank g"
      by (auto simp: map_key_eq_def split: ikey.splits gval.splits)
    then show ?thesis using KVal x by (simp add: val_compare_def f64_cmp_def f64_less_def)
  next
    case False
    then show ?thesis using m KVal by (cases x) (auto simp: map_key_eq_def)
  qed
qed (simp add: map_key_eq_def)

lemma analyze_keys_ok:
  assumes ord: "key_order bt_compare K" and "increasing bt_compare (maxV # ks)" "set (maxV # ks) \<subseteq> K" "\<forall>k\<in>set ks. hashable k"
    and "\<forall>s\<in>set seen. s \<in> K \<and> bt_compare s maxV \<le> 0" "minV \<in> K" "bt_compare minV maxV \<le> 0"
  shows "analyze_keys ks seen minV maxV = Some (rev ks @ seen, minV, last (maxV # ks))"
  using assms(2-)
proof (induction ks arbitrary: seen maxV)
  case (Cons k ks)
  note o = key_order.cmp_le_less[OF ord, of _ maxV k] key_order.cmp_pos[OF ord, of k] key_order.cmp_flip[OF ord]
  have K: "k \<in> K" "maxV \<in> K" "bt_compare maxV k < 0" using Cons.prems by auto
  have lt: "bt_compare s k < 0" if "s \<in> set seen" for s
    by (rule o(1)) (use Cons.prems K that in auto)
  have new: "\<not> (\<exists>s\<in>set seen. map_key_eq s k)"
  proof
    assume "\<exists>s\<in>set seen. map_key_eq s k"
    then obtain s where s: "s \<in> set seen" "map_key_eq s k" by blast
    then show False using map_key_eq_compare[of s k] lt[OF s(1)] key_order.cmp_refl[OF ord K(1)] by auto
  qed
  have mn: "bt_compare minV k < 0" by (rule o(1)) (use Cons.prems K in auto)
  then have "\<not> bt_compare k minV < 0" using o(3)[of minV k] Cons.prems(5) K(1) by linarith
  moreover have "bt_compare k maxV > 0" using o(2)[of maxV] K by simp
  moreover have "analyze_keys ks (k # seen) minV k = Some (rev ks @ k # seen, minV, last (k # ks))"
    by (rule Cons.IH) (use Cons.prems lt mn K key_order.cmp_refl[OF ord K(1)] in \<open>auto intro: less_imp_le\<close>)
  ultimately show ?case using new Cons.prems(3) by simp
qed simp

text \<open>The entries of an index and the statistics that describe them.\<close>

definition idx_inv :: "ikey set \<Rightarrow> Index \<Rightarrow> (ikey \<times> gval) list \<Rightarrow> bool" where
  "idx_inv K idx es \<longleftrightarrow> btree_inv bt_compare K (ix_btree idx) es \<and>
     (\<not> is_IsStale (ix_stats idx) \<longrightarrow>
        is_TotalEntries (ix_stats idx) = int (length es) \<and> is_UniqueKeys (ix_stats idx) = int (length es) \<and>
        is_MinValue (ix_stats idx) = (if es = [] then None else Some (fst (hd es))) \<and>
        is_MaxValue (ix_stats idx) = (if es = [] then None else Some (fst (last es))))"

lemma Analyze_ok:
  assumes ord: "key_order bt_compare K" and inv: "btree_inv bt_compare K (ix_btree idx) es" and h: "\<forall>k\<in>K. hashable k"
  shows "\<exists>idx'. Analyze now idx = Some idx' \<and> idx_inv K idx' es \<and> \<not> is_IsStale (ix_stats idx')"
proof -
  have scan: "RangeScan bt_compare None None (ix_btree idx) = Some es"
    using key_order.RangeScan_ok[OF ord inv, of None None] by (simp add: in_range_def)
  note inc = key_order.btree_inv_increasing[OF ord inv]
  show ?thesis
  proof (cases es)
    case Nil then show ?thesis using scan inv by (simp add: Analyze_def idx_inv_def SetStats_def)
  next
    case (Cons e es')
    obtain k v where e: "e = (k, v)" by (cases e)
    have k: "k \<in> K" using inc(2) Cons e by auto
    have "analyze_keys (map fst es') [k] k k = Some (rev (map fst es') @ [k], k, last (k # map fst es'))"
      by (rule analyze_keys_ok[OF ord]) (use inc Cons e h k key_order.cmp_refl[OF ord k] in auto)
    then show ?thesis using scan inv k h Cons e by (auto simp: Analyze_def idx_inv_def SetStats_def last_map)
  qed
qed

subsection \<open>Runs\<close>

datatype idx_op = IxInsert ikey gval | IxDelete ikey | IxSearch ikey | IxRange "ikey option" "ikey option" | IxAnalyze int

datatype idx_res = IxDone | IxErr idx_error | IxFound "gval option" | IxPairs "(ikey \<times> gval) list"

definition ix_outcome :: "idx_error + unit \<Rightarrow> idx_res" where
  "ix_outcome r = (case r of Inl e \<Rightarrow> IxErr e | Inr _ \<Rightarrow> IxDone)"

fun idx_step :: "idx_op \<Rightarrow> Index \<Rightarrow> (idx_res \<times> Index) option" where
  "idx_step (IxInsert k v) idx = map_option (\<lambda>(r, idx'). (ix_outcome r, idx')) (idx_Insert k v idx)"
| "idx_step (IxDelete k) idx = map_option (\<lambda>(r, idx'). (ix_outcome r, idx')) (idx_Delete k idx)"
| "idx_step (IxSearch k) idx = map_option (\<lambda>r. (IxFound r, idx)) (idx_Search k idx)"
| "idx_step (IxRange s e) idx = map_option (\<lambda>r. (IxPairs r, idx)) (idx_RangeScan s e idx)"
| "idx_step (IxAnalyze now) idx = map_option (\<lambda>idx'. (IxDone, idx')) (Analyze now idx)"

fun idx_run :: "idx_op list \<Rightarrow> Index \<Rightarrow> (idx_res list \<times> Index) option" where
  "idx_run [] idx = Some ([], idx)"
| "idx_run (x # xs) idx =
     (case idx_step x idx of None \<Rightarrow> None
      | Some (r, idx1) \<Rightarrow> (case idx_run xs idx1 of None \<Rightarrow> None | Some (rs, idx2) \<Rightarrow> Some (r # rs, idx2)))"

text \<open>The entries that a run leaves, and its results, on a list in key order.\<close>

fun ispec_step :: "bool \<Rightarrow> idx_op \<Rightarrow> (ikey \<times> gval) list \<Rightarrow> idx_res \<times> (ikey \<times> gval) list" where
  "ispec_step u (IxInsert k v) m =
     (if map_of m k = None then (IxDone, sorted_ins bt_compare k v m)
      else (IxErr (if u then DuplicateInUniqueIndex k else TreeError ErrDuplicateKey), m))"
| "ispec_step u (IxDelete k) m =
     (if map_of m k = None then (IxErr (TreeError ErrKeyNotFound), m) else (IxDone, filter (\<lambda>e. fst e \<noteq> k) m))"
| "ispec_step u (IxSearch k) m = (IxFound (map_of m k), m)"
| "ispec_step u (IxRange s e) m = (IxPairs (filter (\<lambda>x. in_range bt_compare s e (fst x)) m), m)"
| "ispec_step u (IxAnalyze now) m = (IxDone, m)"

fun ispec_run :: "bool \<Rightarrow> idx_op list \<Rightarrow> (ikey \<times> gval) list \<Rightarrow> idx_res list \<times> (ikey \<times> gval) list" where
  "ispec_run u [] m = ([], m)"
| "ispec_run u (x # xs) m = (let (r, m1) = ispec_step u x m; (rs, m2) = ispec_run u xs m1 in (r # rs, m2))"

fun idx_op_keys :: "idx_op \<Rightarrow> ikey set" where
  "idx_op_keys (IxInsert k v) = {k}"
| "idx_op_keys (IxDelete k) = {k}"
| "idx_op_keys (IxSearch k) = {k}"
| "idx_op_keys (IxRange s e) = set_option s \<union> set_option e"
| "idx_op_keys (IxAnalyze now) = {}"

lemma idx_Insert_ok:
  assumes ord: "key_order bt_compare K" and inv: "idx_inv K idx es" and k: "k \<in> K"
  shows "\<exists>idx'. idx_step (IxInsert k v) idx = Some (fst (ispec_step (ix_isUnique idx) (IxInsert k v) es), idx') \<and>
    idx_inv K idx' (snd (ispec_step (ix_isUnique idx) (IxInsert k v) es)) \<and> ix_isUnique idx' = ix_isUnique idx"
proof -
  have bt: "btree_inv bt_compare K (ix_btree idx) es" using inv by (simp add: idx_inv_def)
  note s = key_order.bt_Search_ok[OF ord bt k]
  from key_order.bt_Insert_ok[OF ord bt k, of v] obtain bt' where
    i: "bt_Insert bt_compare k v (ix_btree idx) = Some (if map_of es k = None then Inr () else Inl ErrDuplicateKey, bt')"
       "btree_inv bt_compare K bt' (if map_of es k = None then sorted_ins bt_compare k v es else es)" by blast
  have same: "map_of es k \<noteq> None \<Longrightarrow> bt' = ix_btree idx" using i(1) s by (auto simp: bt_Insert_def)
  show ?thesis
    using s i inv same by (auto simp: idx_Insert_def bt_Search_def ix_outcome_def idx_inv_def stats_Update_def)
qed

lemma idx_Delete_ok:
  assumes ord: "key_order bt_compare K" and inv: "idx_inv K idx es" and k: "k \<in> K"
  shows "\<exists>idx'. idx_step (IxDelete k) idx = Some (fst (ispec_step u (IxDelete k) es), idx') \<and>
    idx_inv K idx' (snd (ispec_step u (IxDelete k) es)) \<and> ix_isUnique idx' = ix_isUnique idx"
proof -
  have bt: "btree_inv bt_compare K (ix_btree idx) es" using inv by (simp add: idx_inv_def)
  note s = key_order.bt_Search_ok[OF ord bt k]
  from key_order.bt_Delete_ok[OF ord bt k] obtain bt' where
    i: "bt_Delete bt_compare k (ix_btree idx) = Some (if map_of es k = None then Inl ErrKeyNotFound else Inr (), bt')"
       "btree_inv bt_compare K bt' (filter (\<lambda>e. fst e \<noteq> k) es)" by blast
  have same: "map_of es k = None \<Longrightarrow> bt' = ix_btree idx" using i(1) s by (auto simp: bt_Delete_def)
  show ?thesis
    using s i inv same by (auto simp: idx_Delete_def ix_outcome_def idx_inv_def stats_Update_def)
qed

lemma idx_step_ok:
  assumes ord: "key_order bt_compare K" and inv: "idx_inv K idx es" and op: "idx_op_keys x \<subseteq> K" and h: "\<forall>k\<in>K. hashable k"
  shows "\<exists>idx'. idx_step x idx = Some (fst (ispec_step (ix_isUnique idx) x es), idx') \<and>
    idx_inv K idx' (snd (ispec_step (ix_isUnique idx) x es)) \<and> ix_isUnique idx' = ix_isUnique idx"
proof -
  have bt: "btree_inv bt_compare K (ix_btree idx) es" using inv by (simp add: idx_inv_def)
  show ?thesis
  proof (cases x)
    case (IxInsert k v) then show ?thesis using idx_Insert_ok[OF ord inv, of k v] op by simp
  next
    case (IxDelete k) then show ?thesis using idx_Delete_ok[OF ord inv, of k] op by simp
  next
    case (IxSearch k)
    then show ?thesis using key_order.bt_Search_ok[OF ord bt, of k] op inv by (simp add: idx_Search_def bt_Search_def)
  next
    case (IxRange s e)
    then show ?thesis using key_order.RangeScan_ok[OF ord bt, of s e] op inv by (cases s; cases e) (auto simp: idx_RangeScan_def)
  next
    case (IxAnalyze now)
    obtain idx' where a: "Analyze now idx = Some idx'" "idx_inv K idx' es" using Analyze_ok[OF ord bt h, of now] by blast
    moreover have "ix_isUnique idx' = ix_isUnique idx" using a(1) by (auto simp: Analyze_def split: option.splits list.splits if_splits)
    ultimately show ?thesis using IxAnalyze by simp
  qed
qed

lemma idx_run_ok:
  assumes ord: "key_order bt_compare K" and "idx_inv K idx es" "\<forall>x\<in>set xs. idx_op_keys x \<subseteq> K" and h: "\<forall>k\<in>K. hashable k"
  shows "\<exists>idx'. idx_run xs idx = Some (fst (ispec_run (ix_isUnique idx) xs es), idx') \<and> idx_inv K idx' (snd (ispec_run (ix_isUnique idx) xs es))"
  using assms(2,3)
proof (induction xs arbitrary: idx es)
  case (Cons x xs)
  obtain idx1 where 1: "idx_step x idx = Some (fst (ispec_step (ix_isUnique idx) x es), idx1)"
      "idx_inv K idx1 (snd (ispec_step (ix_isUnique idx) x es))" "ix_isUnique idx1 = ix_isUnique idx"
    using idx_step_ok[OF ord Cons.prems(1) _ h, of x] Cons.prems(2) by auto
  then show ?case using Cons.IH[OF 1(2)] Cons.prems(2) by (auto simp: case_prod_beta)
qed simp

lemma hashable_keys:
  "kd \<noteq> KBytes \<Longrightarrow> k \<in> keys_of kd \<Longrightarrow> hashable k" "k \<in> composite_keys ts \<Longrightarrow> hashable k"
  by (cases kd; auto simp: keys_of_def of_kind_iff hashable_def) (auto simp: composite_keys_def hashable_def)



text \<open>On an index with byte-slice keys \<open>Analyze\<close> panics: a slice is not a map key.\<close>

lemma Analyze_panics_on_bytes:
  assumes "btree_inv bt_compare (keys_of KBytes) (ix_btree idx) es" "es \<noteq> []"
  shows "Analyze now idx = None"
proof -
  obtain k v es' where es: "es = (k, v) # es'" using assms(2) by (cases es) auto
  have "k \<in> keys_of KBytes" using vkeys.btree_inv_increasing(2)[OF assms(1)] es by auto
  then have "\<not> hashable k" by (auto simp: keys_of_def of_kind_iff hashable_def)
  moreover have "RangeScan bt_compare None None (ix_btree idx) = Some es"
    using vkeys.RangeScan_ok[OF assms(1), of None None] by (simp add: in_range_def)
  ultimately show ?thesis using es by (simp add: Analyze_def)
qed

subsection \<open>Build states\<close>

text \<open>Only a build that has started and neither completed nor failed since shows as building.\<close>

datatype build_op = BStart int int | BUpdate int | BIncrement | BComplete int | BFail int string

fun build_step :: "build_op \<Rightarrow> Index \<Rightarrow> Index" where
  "build_step (BStart now n) idx = StartBuild now n idx"
| "build_step (BUpdate n) idx = UpdateBuildProgress n idx"
| "build_step BIncrement idx = IncrementBuildProgress idx"
| "build_step (BComplete now) idx = CompleteBuild now idx"
| "build_step (BFail now e) idx = FailBuild now e idx"

definition is_transition :: "build_op \<Rightarrow> bool" where
  "is_transition x = (case x of BUpdate _ \<Rightarrow> False | BIncrement \<Rightarrow> False | _ \<Rightarrow> True)"

lemmas build_defs = build_Start_def build_Update_def build_Increment_def build_Complete_def build_Fail_def
  StartBuild_def UpdateBuildProgress_def IncrementBuildProgress_def CompleteBuild_def FailBuild_def

lemma build_state_last_transition:
  "ibp_State (ix_buildProgress (fold build_step xs idx)) =
     (case filter is_transition (rev xs) of [] \<Rightarrow> ibp_State (ix_buildProgress idx)
      | x # _ \<Rightarrow> (case x of BStart _ _ \<Rightarrow> IndexStateBuilding | BFail _ _ \<Rightarrow> IndexStateFailed | _ \<Rightarrow> IndexStateReady))"
proof (induction xs arbitrary: idx rule: rev_induct)
  case (snoc x xs)
  then show ?case by (cases x) (simp_all add: build_defs is_transition_def)
qed simp

end
