(* ===== verification/Planner.thy ===== *)
theory Planner
  imports Query Index "HOL-Library.Signed_Division"
begin

text \<open>
  \<^verbatim>\<open>pkg/query/planner.go\<close>: the choice of indexes for a filter. The maps of indexes and of filter entries are the lists in which one
  iteration meets their entries; a plan carries the index itself where the code carries a pointer to it.
\<close>

subsection \<open>Plans\<close>

datatype ScanType = ScanTypeCollection | ScanTypeIndexExact | ScanTypeIndexRange

record IndexIntersectPlan =
  ip_IndexName :: string
  ip_Index :: Index
  ip_Field :: string
  ip_ScanType :: ScanType
  ip_ScanKey :: gval
  ip_ScanStart :: gval
  ip_ScanEnd :: gval

record QueryPlan =
  pl_UseIndex :: bool
  pl_IndexName :: string
  pl_Index :: "Index option"
  pl_ScanType :: ScanType
  pl_ScanKey :: ikey
  pl_ScanStart :: gval
  pl_ScanEnd :: gval
  pl_PrefixKey :: "gval list option"
  pl_EstimatedCost :: int
  pl_FilterSteps :: "string list"
  pl_IsCovered :: bool
  pl_IndexedField :: string
  pl_UseIntersection :: bool
  pl_IntersectPlans :: "IndexIntersectPlan list"

definition zero_plan :: QueryPlan where
  "zero_plan = \<lparr>pl_UseIndex = False, pl_IndexName = '''', pl_Index = None, pl_ScanType = ScanTypeCollection, pl_ScanKey = KVal GNil,
     pl_ScanStart = GNil, pl_ScanEnd = GNil, pl_PrefixKey = None, pl_EstimatedCost = 0, pl_FilterSteps = [], pl_IsCovered = False,
     pl_IndexedField = '''', pl_UseIntersection = False, pl_IntersectPlans = []\<rparr>"

subsection \<open>One index\<close>

definition getRemainingFilters :: "string \<Rightarrow> (string \<times> gval) list \<Rightarrow> string list" where
  "getRemainingFilters indexedField flt =
     filter (\<lambda>f. f \<noteq> indexedField \<and> f \<noteq> ''$and'' \<and> f \<noteq> ''$or'') (map fst flt)"

text \<open>
  The loop over the operators of a field: it keeps the last value of each comparison and returns at \<^verbatim>\<open>$eq\<close>, at \<^verbatim>\<open>$in\<close> and at an operator that no
  index serves.
\<close>

record bounds =
  b_gt :: "gval option"
  b_gte :: "gval option"
  b_lt :: "gval option"
  b_lte :: "gval option"

datatype op_scan = OpExact gval | OpIn | OpNone | OpBounds bounds

fun scan_operators :: "(string \<times> gval) list \<Rightarrow> bounds \<Rightarrow> op_scan" where
  "scan_operators [] b = OpBounds b"
| "scan_operators ((op, v) # ops) b =
     (if op = ''$eq'' then OpExact v
      else if op = ''$gt'' then scan_operators ops (b\<lparr>b_gt := Some v\<rparr>)
      else if op = ''$gte'' then scan_operators ops (b\<lparr>b_gte := Some v\<rparr>)
      else if op = ''$lt'' then scan_operators ops (b\<lparr>b_lt := Some v\<rparr>)
      else if op = ''$lte'' then scan_operators ops (b\<lparr>b_lte := Some v\<rparr>)
      else if op = ''$in'' then OpIn
      else OpNone)"

definition no_bounds :: bounds where
  "no_bounds = \<lparr>b_gt = None, b_gte = None, b_lt = None, b_lte = None\<rparr>"

definition bound_or :: "gval option \<Rightarrow> gval option \<Rightarrow> gval" where
  "bound_or a b = (case a of Some v \<Rightarrow> v | None \<Rightarrow> (case b of Some v \<Rightarrow> v | None \<Rightarrow> GNil))"

definition analyzeSingleFieldFilter ::
  "string \<Rightarrow> Index \<Rightarrow> string \<Rightarrow> gval \<Rightarrow> (string \<times> gval) list \<Rightarrow> QueryPlan option" where
  "analyzeSingleFieldFilter indexName idx field val fullFilter =
     (let plan = zero_plan\<lparr>pl_UseIndex := True, pl_IndexName := indexName, pl_Index := Some idx,
                   pl_FilterSteps := getRemainingFilters field fullFilter, pl_IndexedField := FieldPath idx\<rparr>;
          exact = (\<lambda>k. plan\<lparr>pl_ScanType := ScanTypeIndexExact, pl_ScanKey := KVal k, pl_EstimatedCost := 10\<rparr>)
      in case val of
           GMap operatorMap \<Rightarrow>
             (case scan_operators operatorMap no_bounds of
                OpExact v \<Rightarrow> Some (exact v)
              | OpIn \<Rightarrow> Some (plan\<lparr>pl_ScanType := ScanTypeCollection, pl_EstimatedCost := 500\<rparr>)
              | OpNone \<Rightarrow> None
              | OpBounds b \<Rightarrow>
                 (if b = no_bounds then None
                  else Some (plan\<lparr>pl_ScanType := ScanTypeIndexRange, pl_EstimatedCost := 50,
                         pl_ScanStart := bound_or (b_gte b) (b_gt b), pl_ScanEnd := bound_or (b_lte b) (b_lt b)\<rparr>)))
         | _ \<Rightarrow> Some (exact val))"

text \<open>The values of the leading fields of a compound index that the filter has, and the keys they ask for by equality.\<close>

fun matched_fields :: "(string \<times> gval) list \<Rightarrow> string list \<Rightarrow> (string \<times> gval) list" where
  "matched_fields flt [] = []"
| "matched_fields flt (p # ps) = (case map_of flt p of None \<Rightarrow> [] | Some v \<Rightarrow> (p, v) # matched_fields flt ps)"

fun equality_values :: "gval list \<Rightarrow> gval list option" where
  "equality_values [] = Some []"
| "equality_values (v # vs) =
     (case (case v of GMap operatorMap \<Rightarrow> map_of operatorMap ''$eq'' | _ \<Rightarrow> Some v) of
        None \<Rightarrow> None
      | Some x \<Rightarrow> map_option ((#) x) (equality_values vs))"

definition analyzeCompoundIndexForFilter :: "string \<Rightarrow> Index \<Rightarrow> (string \<times> gval) list \<Rightarrow> QueryPlan option" where
  "analyzeCompoundIndexForFilter indexName idx flt =
     (let fieldPaths = ix_fieldPaths idx; matched = matched_fields flt fieldPaths
      in if matched = [] then None
         else case equality_values (map snd matched) of
                None \<Rightarrow> None
              | Some vs \<Rightarrow>
                 (let plan = zero_plan\<lparr>pl_UseIndex := True, pl_IndexName := indexName, pl_Index := Some idx, pl_IndexedField := fst (hd matched),
                        pl_FilterSteps := filter (\<lambda>f. f \<noteq> ''$and'' \<and> f \<noteq> ''$or'' \<and> f \<notin> set (map fst matched)) (map fst flt)\<rparr>
                  in if length matched < length fieldPaths
                     then Some (plan\<lparr>pl_ScanType := ScanTypeIndexRange, pl_ScanStart := GNil, pl_ScanEnd := GNil, pl_PrefixKey := Some vs,
                            pl_EstimatedCost := 20\<rparr>)
                     else Some (plan\<lparr>pl_ScanType := ScanTypeIndexExact, pl_ScanKey := KComposite vs, pl_EstimatedCost := 10\<rparr>)))"

definition analyzeIndexForFilter :: "string \<Rightarrow> Index \<Rightarrow> (string \<times> gval) list \<Rightarrow> QueryPlan option" where
  "analyzeIndexForFilter indexName idx flt =
     (if IsCompound idx then analyzeCompoundIndexForFilter indexName idx flt
      else let fieldPath = FieldPath idx
           in case filter (\<lambda>(f, v). \<not> (f = ''$and'' \<or> f = ''$or'') \<and> f = fieldPath) flt of
                [] \<Rightarrow> None
              | (f, v) # _ \<Rightarrow> analyzeSingleFieldFilter indexName idx f v flt)"

subsection \<open>Costs\<close>

definition f64_0_3 :: u64 where
  "f64_0_3 = 0x3FD3333333333333"

definition thirty_percent :: "int \<Rightarrow> int" where
  "thirty_percent n = sint (f64_to_int64 (f64_mul (f64_of_int n) f64_0_3))"

definition estimateCostWithStats :: "QueryPlan \<Rightarrow> Index \<Rightarrow> int" where
  "estimateCostWithStats plan idx =
     (let stats = ix_stats idx; uniqueKeys = is_UniqueKeys stats
      in if is_IsStale stats then pl_EstimatedCost plan
         else case pl_ScanType plan of
                ScanTypeIndexExact \<Rightarrow>
                  (if uniqueKeys > 1000 then 5 else if uniqueKeys > 100 then 8 else if uniqueKeys > 10 then 12 else 20)
              | ScanTypeIndexRange \<Rightarrow>
                  (let cost = thirty_percent (is_TotalEntries stats); cost1 = (if cost < 20 then 20 else cost)
                   in if cost1 > 500 then 500 else cost1)
              | ScanTypeCollection \<Rightarrow> pl_EstimatedCost plan)"

text \<open>The cost of one scan of an intersection and the number of results it is expected to give.\<close>

definition intersect_estimate :: "IndexIntersectPlan \<Rightarrow> int \<times> int" where
  "intersect_estimate plan =
     (let stats = ix_stats (ip_Index plan); totalEntries = is_TotalEntries stats; uniqueKeys = is_UniqueKeys stats
      in if is_IsStale stats then (100, 100)
         else case ip_ScanType plan of
                ScanTypeIndexExact \<Rightarrow> (5, if uniqueKeys > 0 then totalEntries sdiv uniqueKeys else totalEntries)
              | ScanTypeIndexRange \<Rightarrow>
                  (let card = thirty_percent totalEntries; cost = card sdiv 10 in (if cost < 10 then 10 else cost, card))
              | ScanTypeCollection \<Rightarrow> (100, totalEntries))"

definition estimateIntersectionCost :: "IndexIntersectPlan list \<Rightarrow> int" where
  "estimateIntersectionCost plans =
     (if plans = [] then 1000000
      else let est = map intersect_estimate plans;
               totalScanCost = sum_list (map fst est);
               minCardinality = foldl (\<lambda>m card. if card < m then card else m) (snd (hd est)) (map snd est);
               overhead = minCardinality sdiv 2
           in totalScanCost + (if overhead < 5 then 5 else overhead))"

subsection \<open>Intersections\<close>

text \<open>Only the first operator that an iteration meets decides; an operator map without entries is taken as the value to look for.\<close>

definition createIntersectPlan :: "string \<Rightarrow> Index \<Rightarrow> string \<Rightarrow> gval \<Rightarrow> IndexIntersectPlan option" where
  "createIntersectPlan indexName idx field val =
     (let plan = \<lparr>ip_IndexName = indexName, ip_Index = idx, ip_Field = field, ip_ScanType = ScanTypeCollection,
                   ip_ScanKey = GNil, ip_ScanStart = GNil, ip_ScanEnd = GNil\<rparr>
      in case val of
           GMap ((op, v) # _) \<Rightarrow>
             (if op = ''$eq'' then Some (plan\<lparr>ip_ScanType := ScanTypeIndexExact, ip_ScanKey := v\<rparr>)
              else if op = ''$gt'' \<or> op = ''$gte'' then Some (plan\<lparr>ip_ScanType := ScanTypeIndexRange, ip_ScanStart := v\<rparr>)
              else if op = ''$lt'' \<or> op = ''$lte'' then Some (plan\<lparr>ip_ScanType := ScanTypeIndexRange, ip_ScanEnd := v\<rparr>)
              else None)
         | _ \<Rightarrow> Some (plan\<lparr>ip_ScanType := ScanTypeIndexExact, ip_ScanKey := val\<rparr>))"

fun first_intersect_plan :: "(string \<times> Index) list \<Rightarrow> string \<times> gval \<Rightarrow> IndexIntersectPlan option" where
  "first_intersect_plan [] c = None"
| "first_intersect_plan ((indexName, idx) # ixs) c =
     (if IsCompound idx \<or> FieldPath idx \<noteq> fst c then first_intersect_plan ixs c
      else case createIntersectPlan indexName idx (fst c) (snd c) of Some p \<Rightarrow> Some p | None \<Rightarrow> first_intersect_plan ixs c)"

definition planIndexIntersection :: "(string \<times> Index) list \<Rightarrow> (string \<times> gval) list \<Rightarrow> QueryPlan option" where
  "planIndexIntersection indexes flt =
     (let fieldConditions = filter (\<lambda>(f, v). f \<noteq> ''$and'' \<and> f \<noteq> ''$or'' \<and> f \<noteq> ''$not'') flt;
          intersectPlans = List.map_filter (first_intersect_plan indexes) fieldConditions
      in if length fieldConditions < 2 then None
         else if length intersectPlans < 2 then None
         else Some (zero_plan\<lparr>pl_UseIndex := True, pl_UseIntersection := True, pl_IntersectPlans := intersectPlans,
                pl_EstimatedCost := estimateIntersectionCost intersectPlans,
                pl_FilterSteps := filter (\<lambda>f. f \<notin> set (map ip_Field intersectPlans)) (map fst fieldConditions)\<rparr>))"

subsection \<open>The planner\<close>

definition better_plan :: "(string \<times> gval) list \<Rightarrow> QueryPlan \<Rightarrow> string \<times> Index \<Rightarrow> QueryPlan" where
  "better_plan flt best e =
     (case analyzeIndexForFilter (fst e) (snd e) flt of
        None \<Rightarrow> best
      | Some p \<Rightarrow>
         (let indexPlan = p\<lparr>pl_EstimatedCost := estimateCostWithStats p (snd e)\<rparr>
          in if pl_EstimatedCost indexPlan < pl_EstimatedCost best then indexPlan
             else if pl_EstimatedCost indexPlan = pl_EstimatedCost best \<and> length (pl_FilterSteps indexPlan) < length (pl_FilterSteps best)
                  then indexPlan else best))"

definition Plan :: "(string \<times> Index) list \<Rightarrow> Query \<Rightarrow> QueryPlan" where
  "Plan indexes q =
     (let plan = zero_plan\<lparr>pl_EstimatedCost := 1000000\<rparr>
      in if q_filter q = [] then plan
         else let best = foldl (better_plan (q_filter q)) plan indexes
              in case planIndexIntersection indexes (q_filter q) of
                   None \<Rightarrow> best
                 | Some p \<Rightarrow> if pl_EstimatedCost p < pl_EstimatedCost best then p else best)"

definition DetectCoveredQuery :: "(string \<times> bool) list \<Rightarrow> QueryPlan \<Rightarrow> QueryPlan" where
  "DetectCoveredQuery projection plan =
     plan\<lparr>pl_IsCovered :=
       (pl_UseIndex plan \<and> projection \<noteq> [] \<and>
        (\<forall>(field, include) \<in> set projection. include \<and> (field = pl_IndexedField plan \<or> field = ''_id'')))\<rparr>"

end
