(* ===== verification/Executor.thy ===== *)
theory Executor
  imports Planner "HOL-Library.Multiset"
begin

text \<open>
  \<^verbatim>\<open>pkg/query/executor.go\<close>: full scans, index scans, covered queries and intersections of index scans. Documents are the values behind the
  code's pointers. Three things are arguments: the matcher of \<^verbatim>\<open>regexp\<close> (\<open>rx\<close>), \<^verbatim>\<open>sort.Slice\<close> (\<open>srt\<close>, which rearranges a list by a \<^verbatim>\<open>less\<close>
  function) and the \<^verbatim>\<open>%v\<close> format of an \<^verbatim>\<open>_id\<close> (\<open>fmt\<close>). \<open>None\<close> is a lookup in an index that panics.
\<close>

type_synonym matcher = "string \<Rightarrow> string \<Rightarrow> bool option"
type_synonym sorter = "(document \<Rightarrow> document \<Rightarrow> bool) \<Rightarrow> document list \<Rightarrow> document list"

record Executor =
  ex_documents :: "document list"
  ex_documentsMap :: "(string \<times> document) list"

definition documentIDToString :: "(gval \<Rightarrow> string) \<Rightarrow> gval \<Rightarrow> string" where
  "documentIDToString fmt v = (case v of GString s \<Rightarrow> s | GObjectID oid \<Rightarrow> oid_Hex oid | _ \<Rightarrow> fmt v)"

definition NewExecutor :: "(gval \<Rightarrow> string) \<Rightarrow> document list \<Rightarrow> Executor" where
  "NewExecutor fmt documents =
     \<lparr>ex_documents = documents,
      ex_documentsMap = foldl (\<lambda>m doc. if snd (doc_Get doc ''_id'')
        then AList.update (documentIDToString fmt (fst (doc_Get doc ''_id''))) doc m else m) [] documents\<rparr>"

definition NewExecutorWithMap :: "(string \<times> document) list \<Rightarrow> Executor" where
  "NewExecutorWithMap documentsMap = \<lparr>ex_documents = map snd documentsMap, ex_documentsMap = documentsMap\<rparr>"

subsection \<open>Sorting and paging\<close>

definition q_compareValues :: "gval \<Rightarrow> gval \<Rightarrow> int" where
  "q_compareValues a b =
     (case (toFloat64 a, toFloat64 b) of
        (Some x, Some y) \<Rightarrow> if f64_less x y then -1 else if f64_less y x then 1 else 0
      | _ \<Rightarrow>
         (case a of
            GString s \<Rightarrow>
              (case b of
                 GString t \<Rightarrow>
                   (if bytes_compare (str_bytes s) (str_bytes t) < 0 then -1
                    else if bytes_compare (str_bytes t) (str_bytes s) < 0 then 1 else 0)
               | _ \<Rightarrow> 0)
          | _ \<Rightarrow> 0))"

fun sort_less :: "SortField list \<Rightarrow> document \<Rightarrow> document \<Rightarrow> bool" where
  "sort_less [] di dj = False"
| "sort_less (field # sfs) di dj =
     (let (vi, existsI) = doc_Get di (sf_Field field); (vj, existsJ) = doc_Get dj (sf_Field field)
      in if \<not> existsI \<and> \<not> existsJ then sort_less sfs di dj
         else if \<not> existsI then \<not> sf_Ascending field
         else if \<not> existsJ then sf_Ascending field
         else if q_compareValues vi vj \<noteq> 0
              then (if sf_Ascending field then q_compareValues vi vj < 0 else q_compareValues vi vj > 0)
              else sort_less sfs di dj)"

definition sortDocuments :: "sorter \<Rightarrow> SortField list \<Rightarrow> document list \<Rightarrow> document list" where
  "sortDocuments srt sfs docs = srt (sort_less sfs) docs"

definition order_and_page :: "sorter \<Rightarrow> Query \<Rightarrow> document list \<Rightarrow> document list" where
  "order_and_page srt q docs =
     (let r1 = (if q_sort q \<noteq> [] then sortDocuments srt (q_sort q) docs else docs);
          r2 = (if q_skip q > 0 then (if q_skip q \<ge> int (length r1) then [] else drop (nat (q_skip q)) r1) else r1)
      in if q_limit q > 0 \<and> q_limit q < int (length r2) then take (nat (q_limit q)) r2 else r2)"

subsection \<open>Full scans\<close>

fun matching :: "matcher \<Rightarrow> Query \<Rightarrow> document list \<Rightarrow> query_error + document list" where
  "matching rx q [] = Inr []"
| "matching rx q (doc # docs) =
     (case Matches rx q doc of
        Inl e \<Rightarrow> Inl e
      | Inr b \<Rightarrow> (case matching rx q docs of Inl e \<Rightarrow> Inl e | Inr ds \<Rightarrow> Inr (if b then doc # ds else ds)))"

definition finish_query :: "matcher \<Rightarrow> sorter \<Rightarrow> Query \<Rightarrow> document list \<Rightarrow> query_error + document list" where
  "finish_query rx srt q candidates = map_sum id (\<lambda>docs. map (ApplyProjection q) (order_and_page srt q docs)) (matching rx q candidates)"

definition Execute :: "matcher \<Rightarrow> sorter \<Rightarrow> Query \<Rightarrow> Executor \<Rightarrow> query_error + document list" where
  "Execute rx srt q e = finish_query rx srt q (ex_documents e)"

definition ex_Count :: "matcher \<Rightarrow> Query \<Rightarrow> Executor \<Rightarrow> query_error + nat" where
  "ex_Count rx q e = map_sum id length (matching rx q (ex_documents e))"

subsection \<open>Index scans\<close>

definition range_bound :: "gval \<Rightarrow> ikey option" where
  "range_bound v = (if v = GNil then None else Some (KVal v))"

definition string_values :: "gval list \<Rightarrow> string list" where
  "string_values vs = List.map_filter (\<lambda>v. case v of GString s \<Rightarrow> Some s | _ \<Rightarrow> None) vs"

definition fetch_documents :: "Executor \<Rightarrow> string list \<Rightarrow> document list" where
  "fetch_documents e ids = List.map_filter (map_of (ex_documentsMap e)) ids"

text \<open>The entries of a range scan that a plan keeps: all of them, or those whose composite key starts with the prefix.\<close>

definition prefix_entries :: "gval list option \<Rightarrow> (ikey \<times> gval) list \<Rightarrow> (ikey \<times> gval) list" where
  "prefix_entries prefix es =
     (case prefix of
        None \<Rightarrow> es
      | Some p \<Rightarrow> filter (\<lambda>(k, v). case k of KComposite vs \<Rightarrow> MatchesPrefix vs p | KVal _ \<Rightarrow> False) es)"

definition executeIndexScan :: "Executor \<Rightarrow> QueryPlan \<Rightarrow> Index \<Rightarrow> document list option" where
  "executeIndexScan e plan idx =
     (case pl_ScanType plan of
        ScanTypeIndexExact \<Rightarrow>
          map_option (\<lambda>r. fetch_documents e (string_values (case r of None \<Rightarrow> [] | Some v \<Rightarrow> [v]))) (idx_Search (pl_ScanKey plan) idx)
      | ScanTypeIndexRange \<Rightarrow>
          map_option (\<lambda>es. fetch_documents e (string_values (map snd (prefix_entries (pl_PrefixKey plan) es))))
            (idx_RangeScan (range_bound (pl_ScanStart plan)) (range_bound (pl_ScanEnd plan)) idx)
      | ScanTypeCollection \<Rightarrow> Some (ex_documents e))"

subsection \<open>Intersections\<close>

text \<open>\<open>Some None\<close> is the error of a plan with no index scan.\<close>

definition executeIntersectIndexScan :: "IndexIntersectPlan \<Rightarrow> string list option option" where
  "executeIntersectIndexScan plan =
     (case ip_ScanType plan of
        ScanTypeIndexExact \<Rightarrow>
          map_option (\<lambda>r. Some (string_values (case r of None \<Rightarrow> [] | Some v \<Rightarrow> [v]))) (idx_Search (KVal (ip_ScanKey plan)) (ip_Index plan))
      | ScanTypeIndexRange \<Rightarrow>
          map_option (\<lambda>es. Some (string_values (map snd es)))
            (idx_RangeScan (range_bound (ip_ScanStart plan)) (range_bound (ip_ScanEnd plan)) (ip_Index plan))
      | ScanTypeCollection \<Rightarrow> Some None)"

fun collect_id_sets :: "IndexIntersectPlan list \<Rightarrow> string list list option option" where
  "collect_id_sets [] = Some (Some [])"
| "collect_id_sets (p # ps) =
     (case executeIntersectIndexScan p of
        None \<Rightarrow> None
      | Some None \<Rightarrow> Some None
      | Some (Some ids) \<Rightarrow>
         (case collect_id_sets ps of
            None \<Rightarrow> None
          | Some None \<Rightarrow> Some None
          | Some (Some sets) \<Rightarrow> Some (Some (remdups ids # sets))))"

text \<open>The position of the first smallest of the sets.\<close>

fun smallest_from :: "nat \<Rightarrow> nat \<Rightarrow> nat \<Rightarrow> string list list \<Rightarrow> nat" where
  "smallest_from i best bestSize [] = best"
| "smallest_from i best bestSize (s # sets) =
     (if length s < bestSize then smallest_from (Suc i) i (length s) sets else smallest_from (Suc i) best bestSize sets)"

definition intersectSets :: "string list list \<Rightarrow> string list" where
  "intersectSets sets =
     (case sets of
        [] \<Rightarrow> []
      | [s] \<Rightarrow> s
      | s # rest \<Rightarrow>
         (let smallest = smallest_from 1 0 (length s) rest
          in filter (\<lambda>sid. \<forall>i<length sets. i \<noteq> smallest \<longrightarrow> sid \<in> set (sets ! i)) (sets ! smallest)))"

definition executeIndexIntersection :: "Executor \<Rightarrow> QueryPlan \<Rightarrow> document list option option" where
  "executeIndexIntersection e plan =
     (if pl_IntersectPlans plan = [] then Some None
      else map_option (map_option (\<lambda>sets. fetch_documents e (intersectSets sets))) (collect_id_sets (pl_IntersectPlans plan)))"

subsection \<open>Covered queries\<close>

definition int_to_int64 :: "gval \<Rightarrow> gval" where
  "int_to_int64 v = (case v of GInt n \<Rightarrow> GInt64 n | _ \<Rightarrow> v)"

definition greatest_like :: "gval \<Rightarrow> gval" where
  "greatest_like v =
     (case v of
        GInt _ \<Rightarrow> GInt 2147483647
      | GInt32 _ \<Rightarrow> GInt32 2147483647
      | GInt64 _ \<Rightarrow> GInt64 9223372036854775807
      | GFloat64 _ \<Rightarrow> GFloat64 0x7FEFFFFFFFFFFFFF
      | _ \<Rightarrow> GInt64 9223372036854775807)"

definition least_like :: "gval \<Rightarrow> gval" where
  "least_like v =
     (case v of
        GInt _ \<Rightarrow> GInt (-2147483648)
      | GInt32 _ \<Rightarrow> GInt32 (-2147483648)
      | GInt64 _ \<Rightarrow> GInt64 (-9223372036854775808)
      | GFloat64 _ \<Rightarrow> GFloat64 0xFFEFFFFFFFFFFFFF
      | _ \<Rightarrow> GInt64 (-9223372036854775808))"

definition covered_bounds :: "QueryPlan \<Rightarrow> gval \<times> gval" where
  "covered_bounds plan =
     (let start = int_to_int64 (pl_ScanStart plan); end' = int_to_int64 (pl_ScanEnd plan);
          end1 = (if end' = GNil \<and> start \<noteq> GNil then greatest_like start else end');
          start1 = (if start = GNil \<and> end1 \<noteq> GNil then least_like end1 else start)
      in (start1, end1))"

definition key_data :: "ikey \<Rightarrow> gval" where
  "key_data k = (case k of KVal v \<Rightarrow> v | KComposite _ \<Rightarrow> GOther)"

definition covered_key :: "ikey \<Rightarrow> ikey" where
  "covered_key k = (case k of KVal v \<Rightarrow> KVal (int_to_int64 v) | KComposite vs \<Rightarrow> KComposite vs)"

text \<open>\<^verbatim>\<open>projection == nil\<close> never holds of a covered query: \<open>DetectCoveredQuery\<close> asks for a projection.\<close>

definition covered_document :: "Query \<Rightarrow> string \<Rightarrow> ikey \<times> gval \<Rightarrow> document" where
  "covered_document q field e =
     (let doc = (if map_of (q_projection q) ''_id'' = Some True
                 then (case snd e of GString s \<Rightarrow> doc_Set NewDocument ''_id'' (GString s) | _ \<Rightarrow> NewDocument) else NewDocument)
      in if map_of (q_projection q) field = Some True then doc_Set doc field (key_data (fst e)) else doc)"

datatype exec_error = QueryError query_error | ErrCoveredScanType

definition executeCoveredQuery :: "sorter \<Rightarrow> Query \<Rightarrow> QueryPlan \<Rightarrow> Index \<Rightarrow> (exec_error + document list) option" where
  "executeCoveredQuery srt q plan idx =
     (let build = (\<lambda>es. Inr (order_and_page srt q (map (covered_document q (pl_IndexedField plan)) es)))
      in case pl_ScanType plan of
           ScanTypeIndexExact \<Rightarrow>
             (let searchKey = covered_key (pl_ScanKey plan)
              in map_option (\<lambda>r. build (case r of None \<Rightarrow> [] | Some v \<Rightarrow> [(searchKey, v)])) (idx_Search searchKey idx))
         | ScanTypeIndexRange \<Rightarrow>
             (let (start, end') = covered_bounds plan
              in map_option (\<lambda>es. build (prefix_entries (pl_PrefixKey plan) es)) (idx_RangeScan (range_bound start) (range_bound end') idx))
         | ScanTypeCollection \<Rightarrow> Some (Inl ErrCoveredScanType))"

subsection \<open>Execution of a plan\<close>

text \<open>
  The candidates of a plan. A covered plan for an intersection has no index and its scan type is that of a full scan: such a plan is an error.
\<close>

definition candidates :: "Executor \<Rightarrow> QueryPlan \<Rightarrow> document list option" where
  "candidates e plan =
     (if pl_UseIntersection plan then
        map_option (\<lambda>r. case r of None \<Rightarrow> ex_documents e | Some docs \<Rightarrow> docs) (executeIndexIntersection e plan)
      else if pl_UseIndex plan then
        (case pl_Index plan of None \<Rightarrow> Some (ex_documents e) | Some idx \<Rightarrow> executeIndexScan e plan idx)
      else Some (ex_documents e))"

definition ExecuteWithPlan :: "matcher \<Rightarrow> sorter \<Rightarrow> Query \<Rightarrow> QueryPlan \<Rightarrow> Executor \<Rightarrow> (exec_error + document list) option" where
  "ExecuteWithPlan rx srt q plan e =
     (if pl_IsCovered plan then
        (case pl_Index plan of
           Some idx \<Rightarrow> executeCoveredQuery srt q plan idx
         | None \<Rightarrow> (if pl_ScanType plan = ScanTypeCollection then Some (Inl ErrCoveredScanType) else None))
      else map_option (\<lambda>docs. map_sum QueryError id (finish_query rx srt q docs)) (candidates e plan))"

section \<open>Correctness\<close>

subsection \<open>Comparisons of filters and of indexes\<close>

text \<open>Keys of one kind, integers only where a float64 holds them exactly.\<close>

definition exact_key :: "key_kind \<Rightarrow> gval \<Rightarrow> bool" where
  "exact_key kd v \<longleftrightarrow> of_kind kd v \<and> (case v of GInt64 n \<Rightarrow> exact_int (sint n) | _ \<Rightarrow> True)"

lemma exact_key_kind: "exact_key kd v \<Longrightarrow> KVal v \<in> keys_of kd" "exact_key kd v \<Longrightarrow> v \<noteq> GNil"
  by (auto simp: exact_key_def keys_of_def)

lemma exact_int32: "exact_int (sint (n :: u32))"
  using sint_greater_eq[of n] sint_lt[of n] by (simp add: exact_int_def)

lemma f64_eq_plain: "f64_plain a \<Longrightarrow> f64_plain b \<Longrightarrow> f64_eq a b \<Longrightarrow> a = b"
  by (simp add: f64_eq_def f64_rank_inj)

lemma evaluateEqual_exact:
  assumes "exact_key kd v" "exact_key kd c" "evaluateEqual v c" shows "v = c"
  using assms
  by (cases kd) (auto simp: exact_key_def of_kind_iff evaluateEqual_def deep_equal.simps toFloat64_def f64_of_int_eq exact_int32
      f64_eq_plain sint_inj split: if_splits)

lemma evaluateLessThan_exact:
  assumes "exact_key kd v" "exact_key kd c" "evaluateLessThan v c" shows "bt_compare (KVal v) (KVal c) < 0"
  using assms
  by (cases kd) (auto simp: exact_key_def of_kind_iff evaluateLessThan_def toFloat64_def f64_of_int_less exact_int32 val_compare_def cmp3_def
      f64_cmp_def)

lemma evaluateGreaterThan_flip: "evaluateGreaterThan v c = evaluateLessThan c v"
  by (cases v; cases c) (auto simp: evaluateGreaterThan_def evaluateLessThan_def toFloat64_def)

subsection \<open>Index scans find what a filter asks for\<close>

text \<open>An executor over a map from ids to documents, and an index that has an entry for each document with its field.\<close>

definition executor_ok :: "Executor \<Rightarrow> bool" where
  "executor_ok e \<longleftrightarrow> ex_documents e = map snd (ex_documentsMap e) \<and> distinct (map fst (ex_documentsMap e))"

definition index_serves :: "(string \<times> document) list \<Rightarrow> key_kind \<Rightarrow> Index \<Rightarrow> bool" where
  "index_serves m kd idx \<longleftrightarrow>
     (\<exists>es. btree_inv bt_compare (keys_of kd) (ix_btree idx) es \<and> distinct (map snd es) \<and>
        (\<forall>(sid, doc) \<in> set m. snd (doc_Get doc (FieldPath idx)) \<longrightarrow>
           exact_key kd (fst (doc_Get doc (FieldPath idx))) \<and> (KVal (fst (doc_Get doc (FieldPath idx))), GString sid) \<in> set es))"

text \<open>Ids that include those of all documents with a property.\<close>

definition ids_for :: "(string \<times> document) list \<Rightarrow> (document \<Rightarrow> bool) \<Rightarrow> string list \<Rightarrow> bool" where
  "ids_for m P ids \<longleftrightarrow> distinct ids \<and> (\<forall>(sid, doc) \<in> set m. P doc \<longrightarrow> sid \<in> set ids)"

lemma string_values_simps [simp]:
  "string_values [] = []" "string_values (v # vs) = (case v of GString s \<Rightarrow> s # string_values vs | _ \<Rightarrow> string_values vs)"
  by (simp_all add: string_values_def List.map_filter_simps split: gval.split)

lemma string_values_in: "GString s \<in> set vs \<Longrightarrow> s \<in> set (string_values vs)"
  by (induction vs) (auto split: gval.split)

lemma string_values_sub: "s \<in> set (string_values vs) \<Longrightarrow> GString s \<in> set vs"
  by (induction vs) (auto split: gval.splits)

lemma string_values_distinct: "distinct vs \<Longrightarrow> distinct (string_values vs)"
  by (induction vs) (auto dest: string_values_sub split: gval.splits)

context key_order
begin

lemma increasing_distinct: "increasing cmp ks \<Longrightarrow> set ks \<subseteq> K \<Longrightarrow> distinct ks"
proof (induction ks)
  case (Cons a ks)
  then show ?case using cmp_refl[of a] by fastforce
qed simp

end

lemma exact_scan:
  assumes "index_serves m kd idx" "exact_key kd c"
  shows "\<exists>r. idx_Search (KVal c) idx = Some r \<and>
    ids_for m (\<lambda>doc. snd (doc_Get doc (FieldPath idx)) \<and> evaluateEqual (fst (doc_Get doc (FieldPath idx))) c)
      (string_values (case r of None \<Rightarrow> [] | Some v \<Rightarrow> [v]))"
proof -
  obtain es where es: "btree_inv bt_compare (keys_of kd) (ix_btree idx) es"
    "\<forall>(sid, doc) \<in> set m. snd (doc_Get doc (FieldPath idx)) \<longrightarrow>
       exact_key kd (fst (doc_Get doc (FieldPath idx))) \<and> (KVal (fst (doc_Get doc (FieldPath idx))), GString sid) \<in> set es"
    using assms(1) by (auto simp: index_serves_def)
  have s: "idx_Search (KVal c) idx = Some (map_of es (KVal c))"
    using vkeys.bt_Search_ok[OF es(1) exact_key_kind(1)[OF assms(2)]] by (simp add: idx_Search_def bt_Search_def)
  have d: "distinct (map fst es)"
    by (rule vkeys.increasing_distinct) (use vkeys.btree_inv_increasing[OF es(1)] in auto)
  have "map_of es (KVal c) = Some (GString sid)"
    if doc: "(sid, doc) \<in> set m" "snd (doc_Get doc (FieldPath idx))" and eq: "evaluateEqual (fst (doc_Get doc (FieldPath idx))) c" for sid doc
  proof -
    have e: "exact_key kd (fst (doc_Get doc (FieldPath idx)))" "(KVal (fst (doc_Get doc (FieldPath idx))), GString sid) \<in> set es"
      using es(2) doc by auto
    then show ?thesis using evaluateEqual_exact[OF e(1) assms(2) eq] d by simp
  qed
  then show ?thesis using s by (auto simp: ids_for_def split: option.split gval.split)
qed

lemma range_scan:
  assumes "index_serves m kd idx" "lo = GNil \<or> exact_key kd lo" "hi = GNil \<or> exact_key kd hi"
  shows "\<exists>es. idx_RangeScan (range_bound lo) (range_bound hi) idx = Some es \<and>
    ids_for m (\<lambda>doc. snd (doc_Get doc (FieldPath idx)) \<and>
        (lo = GNil \<or> evaluateGreaterThanOrEqual (fst (doc_Get doc (FieldPath idx))) lo) \<and>
        (hi = GNil \<or> evaluateLessThanOrEqual (fst (doc_Get doc (FieldPath idx))) hi))
      (string_values (map snd es))"
proof -
  obtain es where es: "btree_inv bt_compare (keys_of kd) (ix_btree idx) es" "distinct (map snd es)"
    "\<forall>(sid, doc) \<in> set m. snd (doc_Get doc (FieldPath idx)) \<longrightarrow>
       exact_key kd (fst (doc_Get doc (FieldPath idx))) \<and> (KVal (fst (doc_Get doc (FieldPath idx))), GString sid) \<in> set es"
    using assms(1) by (auto simp: index_serves_def)
  let ?in = "in_range bt_compare (range_bound lo) (range_bound hi)"
  have s: "idx_RangeScan (range_bound lo) (range_bound hi) idx = Some (filter (\<lambda>e. ?in (fst e)) es)"
    unfolding idx_RangeScan_def
    by (rule vkeys.RangeScan_ok[OF es(1)]) (use assms(2,3) exact_key_kind(1) in \<open>auto simp: range_bound_def split: if_splits\<close>)
  have "distinct (map snd (filter (\<lambda>e. ?in (fst e)) es))" using es(2) by (rule distinct_map_filter)
  moreover have "sid \<in> set (string_values (map snd (filter (\<lambda>e. ?in (fst e)) es)))"
    if doc: "(sid, doc) \<in> set m" "snd (doc_Get doc (FieldPath idx))"
      and lo: "lo = GNil \<or> evaluateGreaterThanOrEqual (fst (doc_Get doc (FieldPath idx))) lo"
      and hi: "hi = GNil \<or> evaluateLessThanOrEqual (fst (doc_Get doc (FieldPath idx))) hi" for sid doc
  proof -
    let ?v = "fst (doc_Get doc (FieldPath idx))"
    have e: "exact_key kd ?v" "(KVal ?v, GString sid) \<in> set es" using es(3) doc by auto
    note K = exact_key_kind(1)
    have "bt_compare (KVal ?v) (KVal lo) \<ge> 0" if "lo \<noteq> GNil"
      using that lo assms(2) evaluateEqual_exact[OF e(1), of lo] evaluateLessThan_exact[of kd lo ?v] e(1)
        vkeys.cmp_refl[OF K[OF e(1)]] vkeys.cmp_pos[OF K[OF e(1)] K, of lo]
      by (auto simp: evaluateGreaterThanOrEqual_def evaluateGreaterThan_flip)
    moreover have "bt_compare (KVal ?v) (KVal hi) \<le> 0" if "hi \<noteq> GNil"
      using that hi assms(3) evaluateEqual_exact[OF e(1), of hi] evaluateLessThan_exact[OF e(1), of hi] vkeys.cmp_refl[OF K[OF e(1)]]
      by (auto simp: evaluateLessThanOrEqual_def)
    ultimately have "?in (KVal ?v)" by (auto simp: in_range_def range_bound_def)
    then show ?thesis using e(2) by (intro string_values_in) force
  qed
  ultimately show ?thesis using s string_values_distinct by (auto simp: ids_for_def)
qed

subsection \<open>Plans find what a filter asks for\<close>

definition constants_ok :: "key_kind \<Rightarrow> gval \<Rightarrow> bool" where
  "constants_ok kd v \<longleftrightarrow>
     (case v of
        GMap ops \<Rightarrow> ops \<noteq> [] \<and> (\<forall>(op, c) \<in> set ops. op \<in> {''$eq'', ''$gt'', ''$gte'', ''$lt'', ''$lte''} \<longrightarrow> exact_key kd c)
      | _ \<Rightarrow> exact_key kd v)"

definition matches_all :: "matcher \<Rightarrow> (string \<times> gval) list \<Rightarrow> document \<Rightarrow> bool" where
  "matches_all rx flt doc \<longleftrightarrow> (\<forall>e\<in>set flt. filter_entry rx doc e = Inr True)"

lemma ids_for_mono: "ids_for m P ids \<Longrightarrow> (\<And>sid doc. (sid, doc) \<in> set m \<Longrightarrow> Q doc \<Longrightarrow> P doc) \<Longrightarrow> ids_for m Q ids"
  by (auto simp: ids_for_def)

text \<open>What a document that matches an entry of the filter satisfies.\<close>

lemma entry_value:
  assumes "filter_entry rx doc (f, v) = Inr True" "f \<noteq> ''$and''" "f \<noteq> ''$or''" "\<forall>ops. v \<noteq> GMap ops"
  shows "snd (doc_Get doc f) \<and> evaluateEqual (fst (doc_Get doc f)) v"
  using assms by (auto simp: filter_entry_field split: gval.splits)

lemma entry_operator:
  assumes "filter_entry rx doc (f, GMap ops) = Inr True" "f \<noteq> ''$and''" "f \<noteq> ''$or''" "(op, c) \<in> set ops"
  shows "op = ''$eq'' \<Longrightarrow> snd (doc_Get doc f) \<and> evaluateEqual (fst (doc_Get doc f)) c"
    "op = ''$gt'' \<or> op = ''$gte'' \<Longrightarrow> snd (doc_Get doc f) \<and> evaluateGreaterThanOrEqual (fst (doc_Get doc f)) c"
    "op = ''$lt'' \<or> op = ''$lte'' \<Longrightarrow> snd (doc_Get doc f) \<and> evaluateLessThanOrEqual (fst (doc_Get doc f)) c"
proof -
  have "op \<noteq> ''$exists'' \<Longrightarrow> snd (doc_Get doc f) \<and> EvaluateOperator rx op (fst (doc_Get doc f)) c = Inr True"
    using assms by (auto simp: filter_entry_field evaluateOperatorMap_def err_all_True split: if_splits)
  then show "op = ''$eq'' \<Longrightarrow> snd (doc_Get doc f) \<and> evaluateEqual (fst (doc_Get doc f)) c"
    "op = ''$gt'' \<or> op = ''$gte'' \<Longrightarrow> snd (doc_Get doc f) \<and> evaluateGreaterThanOrEqual (fst (doc_Get doc f)) c"
    "op = ''$lt'' \<or> op = ''$lte'' \<Longrightarrow> snd (doc_Get doc f) \<and> evaluateLessThanOrEqual (fst (doc_Get doc f)) c"
    by (auto simp: EvaluateOperator.simps evaluateGreaterThanOrEqual_def evaluateLessThanOrEqual_def)
qed

lemma scan_operators_exact: "scan_operators ops b = OpExact v \<Longrightarrow> (''$eq'', v) \<in> set ops"
  by (induction ops b rule: scan_operators.induct) (auto split: if_splits)

definition bounds_from :: "(string \<times> gval) list \<Rightarrow> bounds \<Rightarrow> bool" where
  "bounds_from ops b \<longleftrightarrow> (\<forall>v. (b_gt b = Some v \<longrightarrow> (''$gt'', v) \<in> set ops) \<and> (b_gte b = Some v \<longrightarrow> (''$gte'', v) \<in> set ops) \<and>
     (b_lt b = Some v \<longrightarrow> (''$lt'', v) \<in> set ops) \<and> (b_lte b = Some v \<longrightarrow> (''$lte'', v) \<in> set ops))"

lemma scan_operators_bounds: "scan_operators ops b = OpBounds b' \<Longrightarrow> set ops \<subseteq> set all \<Longrightarrow> bounds_from all b \<Longrightarrow> bounds_from all b'"
  by (induction ops b rule: scan_operators.induct) (auto simp: bounds_from_def split: if_splits)

lemma no_bounds_from: "bounds_from ops no_bounds"
  by (simp add: bounds_from_def no_bounds_def)

lemma bounds_from_some:
  assumes "bounds_from ops b" "b \<noteq> no_bounds" shows "\<exists>op c. (op, c) \<in> set ops \<and> op \<in> {''$gt'', ''$gte'', ''$lt'', ''$lte''}"
proof -
  have "b_gt b \<noteq> None \<or> b_gte b \<noteq> None \<or> b_lt b \<noteq> None \<or> b_lte b \<noteq> None" using assms(2) by (cases b) (auto simp: no_bounds_def)
  then show ?thesis using assms(1) unfolding bounds_from_def by blast
qed

text \<open>The outcome of a plan: the documents of a list of ids that misses no matching document.\<close>

definition plan_ok :: "matcher \<Rightarrow> (string \<times> gval) list \<Rightarrow> Executor \<Rightarrow> QueryPlan \<Rightarrow> bool" where
  "plan_ok rx flt e plan \<longleftrightarrow>
     (\<exists>ids. candidates e plan = Some (fetch_documents e ids) \<and> ids_for (ex_documentsMap e) (matches_all rx flt) ids)"

lemma fetch_all: "executor_ok e \<Longrightarrow> fetch_documents e (map fst (ex_documentsMap e)) = ex_documents e"
proof -
  assume ok: "executor_ok e"
  have "List.map_filter (map_of m) (map fst m') = map snd m'" if "set m' \<subseteq> set m" "distinct (map fst m)" for m m' :: "(string \<times> document) list"
    using that by (induction m') (auto simp: List.map_filter_simps)
  then show ?thesis using ok by (simp add: executor_ok_def fetch_documents_def)
qed

lemma plan_ok_all: "executor_ok e \<Longrightarrow> candidates e plan = Some (ex_documents e) \<Longrightarrow> plan_ok rx flt e plan"
  unfolding plan_ok_def
  by (rule exI[of _ "map fst (ex_documentsMap e)"]) (auto simp: fetch_all ids_for_def executor_ok_def intro: rev_image_eqI)

lemma plan_ok_cost [simp]: "plan_ok rx flt e (plan\<lparr>pl_EstimatedCost := c\<rparr>) = plan_ok rx flt e plan"
proof -
  have "executeIndexScan e (plan\<lparr>pl_EstimatedCost := c\<rparr>) = executeIndexScan e plan" by (rule ext) (simp add: executeIndexScan_def split: ScanType.split)
  then show ?thesis by (cases "pl_Index plan") (simp_all add: plan_ok_def candidates_def executeIndexIntersection_def)
qed

lemma plan_exact:
  assumes "index_serves (ex_documentsMap e) kd idx" "exact_key kd k" "\<not> pl_UseIntersection plan" "pl_UseIndex plan" "pl_Index plan = Some idx"
    and "pl_ScanType plan = ScanTypeIndexExact" "pl_ScanKey plan = KVal k"
    and m: "\<And>doc. matches_all rx flt doc \<Longrightarrow> snd (doc_Get doc (FieldPath idx)) \<and> evaluateEqual (fst (doc_Get doc (FieldPath idx))) k"
  shows "plan_ok rx flt e plan"
proof -
  obtain r where r: "idx_Search (KVal k) idx = Some r"
    "ids_for (ex_documentsMap e) (\<lambda>doc. snd (doc_Get doc (FieldPath idx)) \<and> evaluateEqual (fst (doc_Get doc (FieldPath idx))) k)
      (string_values (case r of None \<Rightarrow> [] | Some v \<Rightarrow> [v]))"
    using exact_scan[OF assms(1,2)] by blast
  have "candidates e plan = Some (fetch_documents e (string_values (case r of None \<Rightarrow> [] | Some v \<Rightarrow> [v])))"
    using assms r(1) by (simp add: candidates_def executeIndexScan_def)
  then show ?thesis using ids_for_mono[OF r(2)] m unfolding plan_ok_def by blast
qed

lemma plan_range:
  assumes "index_serves (ex_documentsMap e) kd idx" "lo = GNil \<or> exact_key kd lo" "hi = GNil \<or> exact_key kd hi"
    and "\<not> pl_UseIntersection plan" "pl_UseIndex plan" "pl_Index plan = Some idx"
    and "pl_ScanType plan = ScanTypeIndexRange" "pl_ScanStart plan = lo" "pl_ScanEnd plan = hi" "pl_PrefixKey plan = None"
    and m: "\<And>doc. matches_all rx flt doc \<Longrightarrow> snd (doc_Get doc (FieldPath idx)) \<and>
      (lo = GNil \<or> evaluateGreaterThanOrEqual (fst (doc_Get doc (FieldPath idx))) lo) \<and>
      (hi = GNil \<or> evaluateLessThanOrEqual (fst (doc_Get doc (FieldPath idx))) hi)"
  shows "plan_ok rx flt e plan"
proof -
  obtain es where r: "idx_RangeScan (range_bound lo) (range_bound hi) idx = Some es"
    "ids_for (ex_documentsMap e) (\<lambda>doc. snd (doc_Get doc (FieldPath idx)) \<and>
        (lo = GNil \<or> evaluateGreaterThanOrEqual (fst (doc_Get doc (FieldPath idx))) lo) \<and>
        (hi = GNil \<or> evaluateLessThanOrEqual (fst (doc_Get doc (FieldPath idx))) hi)) (string_values (map snd es))"
    using range_scan[OF assms(1-3)] by blast
  have "candidates e plan = Some (fetch_documents e (string_values (map snd es)))"
    using assms r(1) by (simp add: candidates_def executeIndexScan_def prefix_entries_def)
  then show ?thesis using ids_for_mono[OF r(2)] m unfolding plan_ok_def by blast
qed

lemma single_plan_ok:
  assumes e: "executor_ok e" and idx: "index_serves (ex_documentsMap e) kd idx" and f: "(f, v) \<in> set flt" "f \<noteq> ''$and''" "f \<noteq> ''$or''" "f = FieldPath idx"
    and c: "constants_ok kd v" and p: "analyzeSingleFieldFilter name idx f v flt = Some plan"
  shows "plan_ok rx flt e plan"
proof -
  have entry: "filter_entry rx doc (f, v) = Inr True" if "matches_all rx flt doc" for doc
    using that f(1) by (auto simp: matches_all_def)
  show ?thesis
  proof (cases "\<exists>ops. v = GMap ops")
    case False
    have "exact_key kd v" using c False by (auto simp: constants_ok_def split: gval.splits)
    moreover have "snd (doc_Get doc (FieldPath idx)) \<and> evaluateEqual (fst (doc_Get doc (FieldPath idx))) v" if "matches_all rx flt doc" for doc
      using entry_value[OF entry[OF that] f(2,3)] False f(4) by simp
    moreover have "plan = zero_plan\<lparr>pl_UseIndex := True, pl_IndexName := name, pl_Index := Some idx,
        pl_FilterSteps := getRemainingFilters f flt, pl_IndexedField := FieldPath idx, pl_ScanType := ScanTypeIndexExact, pl_ScanKey := KVal v,
        pl_EstimatedCost := 10\<rparr>"
      using p False by (cases v) (simp_all add: analyzeSingleFieldFilter_def Let_def)
    ultimately show ?thesis by (intro plan_exact[OF idx]) (auto simp: zero_plan_def)
  next
    case True
    then obtain ops where v: "v = GMap ops" by blast
    note ent = entry_operator[OF entry[unfolded v] f(2,3)]
    have cs: "exact_key kd k" if "(op, k) \<in> set ops" "op \<in> {''$eq'', ''$gt'', ''$gte'', ''$lt'', ''$lte''}" for op k
      using c that by (auto simp: constants_ok_def v)
    show ?thesis
    proof (cases "scan_operators ops no_bounds")
      case (OpExact k)
      note k = scan_operators_exact[OF OpExact]
      show ?thesis
        by (rule plan_exact[OF idx cs[OF k]]) (use p OpExact ent(1)[OF _ k] f(4) in \<open>auto simp: analyzeSingleFieldFilter_def Let_def v zero_plan_def\<close>)
    next
      case OpIn
      then show ?thesis using p by (intro plan_ok_all[OF e])
          (auto simp: analyzeSingleFieldFilter_def Let_def v candidates_def zero_plan_def executeIndexScan_def)
    next
      case OpNone
      then show ?thesis using p by (simp add: analyzeSingleFieldFilter_def Let_def v)
    next
      case (OpBounds b)
      have b: "bounds_from ops b" using scan_operators_bounds[OF OpBounds subset_refl no_bounds_from] .
      have nb: "b \<noteq> no_bounds" using p OpBounds by (auto simp: analyzeSingleFieldFilter_def Let_def v)
      define lo hi where "lo = bound_or (b_gte b) (b_gt b)" "hi = bound_or (b_lte b) (b_lt b)"
      have lo: "lo = GNil \<or> (\<exists>op. (op, lo) \<in> set ops \<and> (op = ''$gt'' \<or> op = ''$gte''))"
        and hi: "hi = GNil \<or> (\<exists>op. (op, hi) \<in> set ops \<and> (op = ''$lt'' \<or> op = ''$lte''))"
        using b by (auto simp: lo_hi_def bounds_from_def bound_or_def split: option.split)
      have k: "lo = GNil \<or> exact_key kd lo" "hi = GNil \<or> exact_key kd hi" using lo hi cs by blast+
      have ex: "snd (doc_Get doc f)" if "matches_all rx flt doc" for doc
        using bounds_from_some[OF b nb] ent(2,3)[OF that] by blast
      have m: "(lo = GNil \<or> evaluateGreaterThanOrEqual (fst (doc_Get doc f)) lo) \<and>
          (hi = GNil \<or> evaluateLessThanOrEqual (fst (doc_Get doc f)) hi)" if "matches_all rx flt doc" for doc
        using lo hi ent(2,3)[OF that] by blast
      show ?thesis
        by (rule plan_range[OF idx k]) (use p OpBounds ex m f(4) in \<open>auto simp: analyzeSingleFieldFilter_def Let_def v zero_plan_def lo_hi_def split: if_splits\<close>)
    qed
  qed
qed

subsection \<open>Intersections find what a filter asks for\<close>

lemma intersect_scan_ok:
  assumes idx: "index_serves m kd idx" and f: "(f, v) \<in> set flt" "f \<noteq> ''$and''" "f \<noteq> ''$or''" "f = FieldPath idx"
    and c: "constants_ok kd v" and p: "createIntersectPlan name idx f v = Some ip"
  shows "\<exists>ids. executeIntersectIndexScan ip = Some (Some ids) \<and> ids_for m (matches_all rx flt) ids"
proof -
  have entry: "filter_entry rx doc (f, v) = Inr True" if "matches_all rx flt doc" for doc
    using that f(1) by (auto simp: matches_all_def)
  have exact: ?thesis if "ip_Index ip = idx" "ip_ScanType ip = ScanTypeIndexExact" "ip_ScanKey ip = k" "exact_key kd k"
    "\<And>doc. matches_all rx flt doc \<Longrightarrow> snd (doc_Get doc f) \<and> evaluateEqual (fst (doc_Get doc f)) k" for k
    using exact_scan[OF idx that(4)] that f(4) by (auto simp: executeIntersectIndexScan_def intro: ids_for_mono)
  have range: ?thesis if "ip_Index ip = idx" "ip_ScanType ip = ScanTypeIndexRange" "ip_ScanStart ip = lo" "ip_ScanEnd ip = hi"
    "lo = GNil \<or> exact_key kd lo" "hi = GNil \<or> exact_key kd hi"
    "\<And>doc. matches_all rx flt doc \<Longrightarrow> snd (doc_Get doc f) \<and> (lo = GNil \<or> evaluateGreaterThanOrEqual (fst (doc_Get doc f)) lo) \<and>
      (hi = GNil \<or> evaluateLessThanOrEqual (fst (doc_Get doc f)) hi)" for lo hi
    using range_scan[OF idx that(5,6)] that f(4) by (auto simp: executeIntersectIndexScan_def intro: ids_for_mono)
  show ?thesis
  proof (cases "\<exists>ops. v = GMap ops")
    case False
    have k: "exact_key kd v" using c False by (auto simp: constants_ok_def split: gval.splits)
    have "snd (doc_Get doc f) \<and> evaluateEqual (fst (doc_Get doc f)) v" if "matches_all rx flt doc" for doc
      using entry_value[OF entry[OF that] f(2,3)] False by simp
    then show ?thesis using p False by (intro exact[of v, OF _ _ _ k]) (cases v; auto simp: createIntersectPlan_def)+
  next
    case True
    then obtain op k ops where v: "v = GMap ((op, k) # ops)" using c by (cases v) (auto simp: constants_ok_def neq_Nil_conv)
    note ent = entry_operator[OF entry[unfolded v] f(2,3), of _ op k]
    have k: "op \<in> {''$eq'', ''$gt'', ''$gte'', ''$lt'', ''$lte''} \<Longrightarrow> exact_key kd k" using c by (auto simp: constants_ok_def v)
    consider "op = ''$eq''" | "op = ''$gt'' \<or> op = ''$gte''" | "op = ''$lt'' \<or> op = ''$lte''"
      using p by (auto simp: createIntersectPlan_def v Let_def split: if_splits)
    then show ?thesis
    proof cases
      case 1
      show ?thesis by (rule exact[of k]) (use p k ent(1) 1 in \<open>auto simp: createIntersectPlan_def v\<close>)
    next
      case 2
      show ?thesis by (rule range[of k GNil]) (use p k ent(2) 2 in \<open>auto simp: createIntersectPlan_def v\<close>)
    next
      case 3
      show ?thesis by (rule range[of GNil k]) (use p k ent(3) 3 in \<open>auto simp: createIntersectPlan_def v\<close>)
    qed
  qed
qed

lemma smallest_from_bound: "best < n \<Longrightarrow> i + length sets \<le> n \<Longrightarrow> smallest_from i best size' sets < n"
  by (induction sets arbitrary: i best size') auto

lemma intersectSets_filter:
  assumes "sets \<noteq> []"
  obtains k where "k < length sets" "intersectSets sets = filter (\<lambda>x. \<forall>i<length sets. i \<noteq> k \<longrightarrow> x \<in> set (sets ! i)) (sets ! k)"
proof -
  obtain s rest where s: "sets = s # rest" using assms by (cases sets) auto
  show ?thesis
  proof (cases "rest = []")
    case True then show ?thesis using s by (intro that[of 0]) (auto simp: intersectSets_def)
  next
    case False
    have "smallest_from 1 0 (length s) rest < length sets" using s by (intro smallest_from_bound) auto
    then show ?thesis by (rule that) (use s False in \<open>auto simp: intersectSets_def Let_def split: list.split\<close>)
  qed
qed

lemma intersectSets_set:
  assumes "sets \<noteq> []" shows "set (intersectSets sets) = {x. \<forall>s\<in>set sets. x \<in> set s}"
proof -
  obtain k where k: "k < length sets" "intersectSets sets = filter (\<lambda>x. \<forall>i<length sets. i \<noteq> k \<longrightarrow> x \<in> set (sets ! i)) (sets ! k)"
    using intersectSets_filter[OF assms] .
  have "(\<forall>i<length sets. i \<noteq> k \<longrightarrow> x \<in> set (sets ! i)) \<and> x \<in> set (sets ! k) \<longleftrightarrow> (\<forall>s\<in>set sets. x \<in> set s)" for x
    using k(1) by (auto simp: all_set_conv_all_nth)
  then show ?thesis using k(2) by auto
qed

lemma intersectSets_distinct:
  assumes "sets \<noteq> []" "\<forall>s\<in>set sets. distinct s" shows "distinct (intersectSets sets)"
proof -
  obtain k where "k < length sets" "intersectSets sets = filter (\<lambda>x. \<forall>i<length sets. i \<noteq> k \<longrightarrow> x \<in> set (sets ! i)) (sets ! k)"
    using intersectSets_filter[OF assms(1)] .
  then show ?thesis using assms(2) by simp
qed

lemma collect_id_sets_ok:
  assumes "\<forall>p\<in>set ps. \<exists>ids. executeIntersectIndexScan p = Some (Some ids) \<and> ids_for m P ids"
  shows "\<exists>sets. collect_id_sets ps = Some (Some sets) \<and> length sets = length ps \<and> (\<forall>s\<in>set sets. ids_for m P s)"
  using assms
proof (induction ps)
  case (Cons p ps)
  then obtain ids sets where "executeIntersectIndexScan p = Some (Some ids)" "ids_for m P ids" "collect_id_sets ps = Some (Some sets)"
    "length sets = length ps" "\<forall>s\<in>set sets. ids_for m P s" by auto
  then show ?case by (simp add: ids_for_def)
qed simp

lemma intersection_plan_ok:
  assumes "pl_UseIntersection plan" "pl_IntersectPlans plan \<noteq> []"
    and "\<forall>p\<in>set (pl_IntersectPlans plan). \<exists>ids. executeIntersectIndexScan p = Some (Some ids) \<and> ids_for (ex_documentsMap e) (matches_all rx flt) ids"
  shows "plan_ok rx flt e plan"
proof -
  obtain sets where sets: "collect_id_sets (pl_IntersectPlans plan) = Some (Some sets)" "sets \<noteq> []"
    "\<forall>s\<in>set sets. ids_for (ex_documentsMap e) (matches_all rx flt) s"
    using collect_id_sets_ok[OF assms(3)] assms(2) by fastforce
  have "ids_for (ex_documentsMap e) (matches_all rx flt) (intersectSets sets)"
    using sets(3) intersectSets_set[OF sets(2)] intersectSets_distinct[OF sets(2)] by (fastforce simp: ids_for_def)
  then show ?thesis using assms(1,2) sets(1) by (auto simp: plan_ok_def candidates_def executeIndexIntersection_def)
qed

lemma first_intersect_plan_from:
  "first_intersect_plan indexes c = Some ip \<Longrightarrow>
   \<exists>name idx. (name, idx) \<in> set indexes \<and> FieldPath idx = fst c \<and> createIntersectPlan name idx (fst c) (snd c) = Some ip"
  by (induction indexes c rule: first_intersect_plan.induct) (auto split: if_splits option.splits)

text \<open>Indexes that a filter may use: single fields, an entry per document, and constants of the kind of their keys.\<close>

definition indexes_serve :: "(string \<times> document) list \<Rightarrow> (string \<times> gval) list \<Rightarrow> (string \<times> Index) list \<Rightarrow> bool" where
  "indexes_serve m flt indexes \<longleftrightarrow>
     (\<forall>(name, idx) \<in> set indexes. \<not> IsCompound idx \<and>
        (\<forall>v. (FieldPath idx, v) \<in> set flt \<and> FieldPath idx \<noteq> ''$and'' \<and> FieldPath idx \<noteq> ''$or'' \<longrightarrow>
           (\<exists>kd. index_serves m kd idx \<and> constants_ok kd v)))"

lemma better_plan_ok:
  assumes "executor_ok e" "indexes_serve (ex_documentsMap e) flt indexes" "plan_ok rx flt e best" "x \<in> set indexes"
  shows "plan_ok rx flt e (better_plan flt best x)"
proof -
  obtain name idx where x: "x = (name, idx)" by (cases x)
  have "plan_ok rx flt e p" if p: "analyzeIndexForFilter name idx flt = Some p" for p
  proof -
    have nc: "\<not> IsCompound idx" using assms(2,4) x by (auto simp: indexes_serve_def)
    let ?sel = "filter (\<lambda>(f, v). \<not> (f = ''$and'' \<or> f = ''$or'') \<and> f = FieldPath idx) flt"
    obtain f v rest where fv: "?sel = (f, v) # rest" "analyzeSingleFieldFilter name idx f v flt = Some p"
      using p nc unfolding analyzeIndexForFilter_def Let_def by (cases ?sel) auto
    have "(f, v) \<in> set ?sel" unfolding fv(1) by simp
    then have mem: "(f, v) \<in> set flt" and f: "f \<noteq> ''$and''" "f \<noteq> ''$or''" "f = FieldPath idx" by auto
    then obtain kd where "index_serves (ex_documentsMap e) kd idx" "constants_ok kd v"
      using assms(2,4) x f by (fastforce simp: indexes_serve_def)
    then show ?thesis using single_plan_ok[OF assms(1) _ mem f _ fv(2)] by blast
  qed
  then show ?thesis using assms(3) x by (auto simp: better_plan_def Let_def split: option.split)
qed

lemma Plan_ok:
  assumes "executor_ok e" "indexes_serve (ex_documentsMap e) (q_filter q) indexes"
  shows "plan_ok rx (q_filter q) e (Plan indexes q)"
proof -
  let ?flt = "q_filter q" and ?none = "zero_plan\<lparr>pl_EstimatedCost := 1000000\<rparr>"
  have none: "plan_ok rx ?flt e ?none" by (rule plan_ok_all[OF assms(1)]) (simp add: candidates_def zero_plan_def)
  have best: "plan_ok rx ?flt e (foldl (better_plan ?flt) p xs)" if "set xs \<subseteq> set indexes" "plan_ok rx ?flt e p" for xs p
    using that by (induction xs arbitrary: p) (auto intro: better_plan_ok[OF assms])
  have "plan_ok rx ?flt e p" if p: "planIndexIntersection indexes ?flt = Some p" for p
  proof -
    define conds where "conds = filter (\<lambda>(f, v). f \<noteq> ''$and'' \<and> f \<noteq> ''$or'' \<and> f \<noteq> ''$not'') ?flt"
    have pl: "pl_UseIntersection p" "pl_IntersectPlans p = List.map_filter (first_intersect_plan indexes) conds" "pl_IntersectPlans p \<noteq> []"
      using p by (auto simp: planIndexIntersection_def Let_def conds_def zero_plan_def split: if_splits)
    have "\<exists>ids. executeIntersectIndexScan ip = Some (Some ids) \<and> ids_for (ex_documentsMap e) (matches_all rx ?flt) ids"
      if "ip \<in> set (pl_IntersectPlans p)" for ip
    proof -
      obtain f v where c: "(f, v) \<in> set conds" "first_intersect_plan indexes (f, v) = Some ip"
        using \<open>ip \<in> _\<close> pl(2) by (auto simp: List.map_filter_def)
      obtain name idx where i: "(name, idx) \<in> set indexes" "FieldPath idx = f" "createIntersectPlan name idx f v = Some ip"
        using first_intersect_plan_from[OF c(2)] by auto
      have fv: "(f, v) \<in> set ?flt" "f \<noteq> ''$and''" "f \<noteq> ''$or''" using c(1) by (auto simp: conds_def)
      obtain kd where "index_serves (ex_documentsMap e) kd idx" "constants_ok kd v"
        using assms(2) i(1,2) fv by (fastforce simp: indexes_serve_def)
      then show ?thesis using intersect_scan_ok[OF _ fv i(2)[symmetric] _ i(3)] by blast
    qed
    then show ?thesis using intersection_plan_ok[OF pl(1,3)] by blast
  qed
  then show ?thesis using none best[OF subset_refl none] by (auto simp: Plan_def Let_def split: option.split)
qed

subsection \<open>Plans and full scans agree\<close>

lemma matching_ok: "\<forall>doc\<in>set docs. \<not> isl (Matches rx q doc) \<Longrightarrow> matching rx q docs = Inr (filter (\<lambda>doc. Matches rx q doc = Inr True) docs)"
  by (induction docs) (auto simp: isl_def split: sum.splits)

lemma Matches_all: "Matches rx q doc = Inr True \<longleftrightarrow> matches_all rx (q_filter q) doc"
  by (auto simp: Matches_def matches_all_def evaluateFilter_entries err_all_True)

lemma filter_fetch:
  "mset (filter P (fetch_documents e ids)) =
   image_mset (the \<circ> map_of (ex_documentsMap e)) (mset (filter (\<lambda>i. map_of (ex_documentsMap e) i \<noteq> None \<and> P (the (map_of (ex_documentsMap e) i))) ids))"
  by (simp add: fetch_documents_def List.map_filter_def filter_map comp_def conj_commute)

lemma fetch_matching:
  assumes "executor_ok e" "ids_for (ex_documentsMap e) P ids"
  shows "mset (filter P (fetch_documents e ids)) = mset (filter P (ex_documents e))"
proof -
  let ?m = "ex_documentsMap e" and ?Q = "\<lambda>i. map_of (ex_documentsMap e) i \<noteq> None \<and> P (the (map_of (ex_documentsMap e) i))"
  have d: "distinct (filter ?Q ids)" "distinct (filter ?Q (map fst ?m))" using assms by (auto simp: ids_for_def executor_ok_def)
  have "set (filter ?Q ids) = set (filter ?Q (map fst ?m))"
    using assms(2) by (fastforce simp: ids_for_def dest: map_of_SomeD intro: rev_image_eqI)
  then have "mset (filter ?Q ids) = mset (filter ?Q (map fst ?m))" using d set_eq_iff_mset_eq_distinct by blast
  then show ?thesis unfolding fetch_all[OF assms(1), symmetric] filter_fetch by simp
qed

lemma candidates_covered [simp]: "candidates e (DetectCoveredQuery p plan) = candidates e plan"
proof -
  have "executeIndexScan e (plan\<lparr>pl_IsCovered := c\<rparr>) = executeIndexScan e plan" for c
    by (rule ext) (simp add: executeIndexScan_def split: ScanType.split)
  then show ?thesis by (cases "pl_Index plan") (simp_all add: DetectCoveredQuery_def candidates_def executeIndexIntersection_def)
qed

lemma order_and_page_mset:
  assumes "\<forall>less docs. mset (srt less docs) = mset docs" "q_skip q \<le> 0" "q_limit q \<le> 0"
  shows "mset (order_and_page srt q docs) = mset docs"
  using assms by (simp add: order_and_page_def sortDocuments_def Let_def)

text \<open>An index on one field with one entry.\<close>

lemma age_index:
  obtains idx where "btree_inv bt_compare (keys_of KInt64) (ix_btree idx) [(KVal (GInt64 30), GString ''a'')]" "FieldPath idx = ''age''" "\<not> IsCompound idx"
    "is_IsStale (ix_stats idx)" "idx_Search (KVal (GInt64 30)) idx = Some (Some (GString ''a''))"
proof -
  let ?k = "KVal (GInt64 30)"
  have new: "btree_inv bt_compare (keys_of KInt64) (NewBTree (KVal GNil) 32) []" by (rule vkeys.NewBTree_inv)
  obtain bt where bt: "btree_inv bt_compare (keys_of KInt64) bt [(?k, GString ''a'')]"
    using vkeys.bt_Insert_ok[OF new, of ?k "GString ''a''"] by (auto simp: keys_of_def of_kind_iff)
  define idx where "idx = \<lparr>ix_name = ''age_1'', ix_fieldPaths = [''age''], ix_indexType = IndexTypeBTree, ix_isUnique = False, ix_filter = [],
    ix_btree = bt, ix_stats = NewIndexStats 0, ix_buildProgress = NewIndexBuildProgress\<rparr>"
  show ?thesis
    by (rule that[of idx]) (use bt vkeys.bt_Search_ok[OF bt, of ?k] in
        \<open>simp_all add: idx_def FieldPath_def IsCompound_def NewIndexStats_def idx_Search_def bt_Search_def keys_of_def of_kind_iff\<close>)
qed



subsection \<open>Covered queries\<close>

text \<open>
  C29. A query for values by \<^verbatim>\<open>$in\<close> on an indexed field that asks only for the \<^verbatim>\<open>_id\<close> fails: its plan names the index but not a scan of it, and it counts
  as covered.
\<close>

theorem in_query_for_ids_fails:
  assumes "\<not> IsCompound idx" "FieldPath idx = f" "f \<noteq> ''$and''" "f \<noteq> ''$or''"
    and "q = (NewQuery [(f, GMap [(''$in'', vs)])])\<lparr>q_projection := [(''_id'', True)]\<rparr>"
  shows "ExecuteWithPlan rx srt q (DetectCoveredQuery (q_projection q) (Plan [(name, idx)] q)) e = Some (Inl ErrCoveredScanType)"
  using assms
  by (simp add: Plan_def better_plan_def analyzeIndexForFilter_def analyzeSingleFieldFilter_def estimateCostWithStats_def NewQuery_def
      planIndexIntersection_def zero_plan_def Let_def DetectCoveredQuery_def ExecuteWithPlan_def executeCoveredQuery_def no_bounds_def)

theorem in_query_for_ids_fails_witness:
  "\<exists>idx. FieldPath idx = ''age'' \<and> idx_Search (KVal (GInt64 30)) idx = Some (Some (GString ''a'')) \<and>
     (let q = (NewQuery [(''age'', GMap [(''$in'', GArr [GInt64 30])])])\<lparr>q_projection := [(''_id'', True)]\<rparr>
      in ExecuteWithPlan (\<lambda>_ _. None) (\<lambda>_ docs. docs) q (DetectCoveredQuery (q_projection q) (Plan [(''age_1'', idx)] q))
           (NewExecutorWithMap [(''a'', doc_Set NewDocument ''age'' (GInt64 30))]) = Some (Inl ErrCoveredScanType))"
proof -
  obtain idx where i: "FieldPath idx = ''age''" "\<not> IsCompound idx" "idx_Search (KVal (GInt64 30)) idx = Some (Some (GString ''a''))"
    using age_index by metis
  show ?thesis unfolding Let_def
    by (intro exI[of _ idx] conjI i in_query_for_ids_fails[OF i(2,1) _ _ refl]) simp_all
qed

text \<open>The plan for an equality on the field of the only index.\<close>

definition exact_plan :: "string \<Rightarrow> Index \<Rightarrow> gval \<Rightarrow> string list \<Rightarrow> int \<Rightarrow> QueryPlan" where
  "exact_plan name idx c steps cost = zero_plan\<lparr>pl_UseIndex := True, pl_IndexName := name, pl_Index := Some idx, pl_FilterSteps := steps,
     pl_IndexedField := FieldPath idx, pl_ScanType := ScanTypeIndexExact, pl_ScanKey := KVal c, pl_EstimatedCost := cost\<rparr>"

lemma single_exact_plan:
  assumes "\<not> IsCompound idx" "FieldPath idx \<noteq> ''$and''" "FieldPath idx \<noteq> ''$or''" "\<forall>ops. c \<noteq> GMap ops"
  shows "analyzeIndexForFilter name idx ((FieldPath idx, c) # rest) =
    Some (exact_plan name idx c (getRemainingFilters (FieldPath idx) ((FieldPath idx, c) # rest)) 10)"
  using assms by (cases c) (simp_all add: analyzeIndexForFilter_def analyzeSingleFieldFilter_def exact_plan_def Let_def)

lemma exact_plan_cost: "estimateCostWithStats (exact_plan name idx c steps 10) idx < 1000000"
  by (simp add: estimateCostWithStats_def exact_plan_def zero_plan_def Let_def)

lemma one_index_no_intersection:
  assumes "FieldPath idx \<notin> fst ` set rest" shows "planIndexIntersection [(name, idx)] ((FieldPath idx, c) # rest) = None"
proof -
  have "List.map_filter (first_intersect_plan [(name, idx)]) (filter P rest) = []" for P
    using assms by (induction rest) (auto simp: List.map_filter_simps)
  then show ?thesis by (auto simp: planIndexIntersection_def Let_def List.map_filter_simps split: option.split)
qed

lemma Plan_exact:
  assumes "\<not> IsCompound idx" "FieldPath idx \<noteq> ''$and''" "FieldPath idx \<noteq> ''$or''" "\<forall>ops. c \<noteq> GMap ops" "FieldPath idx \<notin> fst ` set rest"
    and q: "q_filter q = (FieldPath idx, c) # rest"
  obtains steps cost where "Plan [(name, idx)] q = exact_plan name idx c steps cost"
proof -
  let ?p = "exact_plan name idx c (getRemainingFilters (FieldPath idx) ((FieldPath idx, c) # rest))"
  have "Plan [(name, idx)] q = (?p 10)\<lparr>pl_EstimatedCost := estimateCostWithStats (?p 10) idx\<rparr>"
    using exact_plan_cost one_index_no_intersection[OF assms(5)] single_exact_plan[OF assms(1-4)]
    by (simp add: Plan_def q better_plan_def Let_def zero_plan_def)
  then show ?thesis by (intro that) (simp add: exact_plan_def)
qed

lemma covered_exact:
  "ExecuteWithPlan rx srt q (DetectCoveredQuery [(''_id'', True)] (exact_plan name idx c steps cost)) e =
   executeCoveredQuery srt q (exact_plan name idx c [] 0) idx"
  by (simp add: DetectCoveredQuery_def ExecuteWithPlan_def executeCoveredQuery_def exact_plan_def zero_plan_def Let_def)

text \<open>
  C28. A query answered from an index on one field drops the conditions on all other fields: with a second condition it returns what it returns without
  it, so documents that do not match, too.
\<close>

theorem covered_query_drops_conditions:
  assumes "\<not> IsCompound idx" "FieldPath idx = f" "f \<noteq> ''$and''" "f \<noteq> ''$or''" "g \<noteq> f" "\<forall>ops. c \<noteq> GMap ops"
    and q1: "q1 = (NewQuery [(f, c)])\<lparr>q_projection := [(''_id'', True)]\<rparr>"
    and q2: "q2 = (NewQuery [(f, c), (g, d)])\<lparr>q_projection := [(''_id'', True)]\<rparr>"
  shows "ExecuteWithPlan rx srt q2 (DetectCoveredQuery (q_projection q2) (Plan [(name, idx)] q2)) e =
    ExecuteWithPlan rx srt q1 (DetectCoveredQuery (q_projection q1) (Plan [(name, idx)] q1)) e"
proof -
  obtain s1 c1 where 1: "Plan [(name, idx)] q1 = exact_plan name idx c s1 c1"
    by (rule Plan_exact[of idx c "[]" q1 name]) (use assms in \<open>auto simp: NewQuery_def\<close>)
  obtain s2 c2 where 2: "Plan [(name, idx)] q2 = exact_plan name idx c s2 c2"
    by (rule Plan_exact[of idx c "[(g, d)]" q2 name]) (use assms in \<open>auto simp: NewQuery_def\<close>)
  have "executeCoveredQuery srt q2 p idx = executeCoveredQuery srt q1 p idx" for p
    unfolding q1 q2 executeCoveredQuery_def order_and_page_def covered_document_def NewQuery_def by simp
  moreover have "q_projection q1 = [(''_id'', True)]" "q_projection q2 = [(''_id'', True)]" by (simp_all add: q1 q2)
  ultimately show ?thesis by (simp add: 1 2 covered_exact)
qed

theorem covered_query_drops_conditions_witness:
  "\<exists>idx. FieldPath idx = ''age'' \<and> idx_Search (KVal (GInt64 30)) idx = Some (Some (GString ''a'')) \<and>
     (let q = (NewQuery [(''age'', GInt64 30), (''name'', GString ''x'')])\<lparr>q_projection := [(''_id'', True)]\<rparr>;
          e = NewExecutorWithMap [(''a'', doc_Set NewDocument ''age'' (GInt64 30))]
      in ExecuteWithPlan (\<lambda>_ _. None) (\<lambda>_ docs. docs) q (DetectCoveredQuery (q_projection q) (Plan [(''age_1'', idx)] q)) e =
           Some (Inr [doc_Set NewDocument ''_id'' (GString ''a'')]))"
proof -
  obtain idx where i: "FieldPath idx = ''age''" "\<not> IsCompound idx" "idx_Search (KVal (GInt64 30)) idx = Some (Some (GString ''a''))"
    using age_index by metis
  let ?q1 = "(NewQuery [(''age'', GInt64 30)])\<lparr>q_projection := [(''_id'', True)]\<rparr>"
  let ?q2 = "(NewQuery [(''age'', GInt64 30), (''name'', GString ''x'')])\<lparr>q_projection := [(''_id'', True)]\<rparr>"
  obtain s1 c1 where 1: "Plan [(''age_1'', idx)] ?q1 = exact_plan ''age_1'' idx (GInt64 30) s1 c1"
    by (rule Plan_exact[of idx "GInt64 30" "[]" ?q1 "''age_1''"]) (use i in \<open>auto simp: NewQuery_def\<close>)
  have "executeCoveredQuery (\<lambda>_ docs. docs) ?q1 (exact_plan ''age_1'' idx (GInt64 30) [] 0) idx = Some (Inr [doc_Set NewDocument ''_id'' (GString ''a'')])"
    by (simp add: executeCoveredQuery_def exact_plan_def zero_plan_def covered_key_def int_to_int64_def i order_and_page_def NewQuery_def covered_document_def Let_def)
  then show ?thesis
    using covered_query_drops_conditions[OF i(2,1) _ _ _ _ refl refl, of "''name''" "GInt64 30" "\<lambda>_ _. None" "\<lambda>_ docs. docs" "GString ''x''" "''age_1''"
        "NewExecutorWithMap [(''a'', doc_Set NewDocument ''age'' (GInt64 30))]"] i
    by (intro exI[of _ idx]) (simp add: 1 covered_exact Let_def)
qed

end
