(* ===== verification/SkipList.thy ===== *)
theory SkipList
  imports Prelude
begin

text \<open>
  \<^verbatim>\<open>pkg/lsm/skiplist.go\<close>: the skip list, with its nodes in an explicit store; the head is node 0 and a forward pointer is
  an index into the list of nodes. The outcomes of the draws \<^verbatim>\<open>Float32() < probability\<close> are a function from the number of the draw.
  \<open>None\<close> is an index out of range, a nil pointer, or a chain of pointers longer than the number of nodes.
\<close>

subsection \<open>Nodes\<close>

record 'v SkipListNode =
  sn_key :: bytes
  sn_value :: "'v option"
  sn_forward :: "nat option list"

record 'v SkipList =
  sl_nodes :: "'v SkipListNode list"
  sl_level :: nat
  sl_size :: int
  sl_random :: "nat \<Rightarrow> bool"
  sl_draws :: nat

definition maxLevel :: nat where
  "maxLevel = 16"

definition newSkipListNode :: "bytes \<Rightarrow> 'v option \<Rightarrow> nat \<Rightarrow> 'v SkipListNode" where
  "newSkipListNode key val level = \<lparr>sn_key = key, sn_value = val, sn_forward = replicate level None\<rparr>"

definition NewSkipList :: "(nat \<Rightarrow> bool) \<Rightarrow> 'v SkipList" where
  "NewSkipList random = \<lparr>sl_nodes = [newSkipListNode [] None maxLevel], sl_level = 1, sl_size = 0, sl_random = random, sl_draws = 0\<rparr>"

function level_loop :: "(nat \<Rightarrow> bool) \<Rightarrow> nat \<Rightarrow> nat \<Rightarrow> nat \<times> nat" where
  "level_loop random draws level =
     (if level < maxLevel then
        if random draws then level_loop random (Suc draws) (Suc level) else (level, Suc draws)
      else (level, draws))"
  by pat_completeness auto
termination
  by (relation "measure (\<lambda>(_, _, level). maxLevel - level)") auto

definition randomLevel :: "'v SkipList \<Rightarrow> nat \<times> 'v SkipList" where
  "randomLevel sl = (let (level, draws) = level_loop (sl_random sl) (sl_draws sl) 1 in (level, sl\<lparr>sl_draws := draws\<rparr>))"

definition forward_at :: "'v SkipListNode list \<Rightarrow> nat \<Rightarrow> nat \<Rightarrow> nat option option" where
  "forward_at nodes a i = (if a < length nodes \<and> i < length (sn_forward (nodes ! a)) then Some (sn_forward (nodes ! a) ! i) else None)"

definition set_forward :: "'v SkipListNode list \<Rightarrow> nat \<Rightarrow> nat \<Rightarrow> nat option \<Rightarrow> 'v SkipListNode list" where
  "set_forward nodes a i p = nodes[a := (nodes ! a)\<lparr>sn_forward := (sn_forward (nodes ! a))[i := p]\<rparr>]"

subsection \<open>Search path\<close>

text \<open>One level: follow forward pointers while the next key is below the key.\<close>

fun advance :: "nat \<Rightarrow> 'v SkipListNode list \<Rightarrow> bytes \<Rightarrow> nat \<Rightarrow> nat \<Rightarrow> nat option" where
  "advance 0 nodes key i current = None"
| "advance (Suc fuel) nodes key i current =
     (case forward_at nodes current i of
        None \<Rightarrow> None
      | Some None \<Rightarrow> Some current
      | Some (Some next) \<Rightarrow>
         if next \<ge> length nodes then None
         else if bytes_compare (sn_key (nodes ! next)) key < 0 then advance fuel nodes key i next
         else Some current)"

fun descend :: "'v SkipListNode list \<Rightarrow> bytes \<Rightarrow> nat \<Rightarrow> nat \<Rightarrow> nat option list \<Rightarrow> (nat \<times> nat option list) option" where
  "descend nodes key 0 current update = Some (current, update)"
| "descend nodes key (Suc i) current update =
     (case advance (length nodes) nodes key i current of
        None \<Rightarrow> None
      | Some c \<Rightarrow> descend nodes key i c (update[i := Some c]))"

subsection \<open>Operations\<close>

fun link :: "nat \<Rightarrow> nat option list \<Rightarrow> nat list \<Rightarrow> 'v SkipListNode list \<Rightarrow> 'v SkipListNode list option" where
  "link new update [] nodes = Some nodes"
| "link new update (i # is) nodes =
     (case (if i < length update then update ! i else None) of
        None \<Rightarrow> None
      | Some u \<Rightarrow>
         (case forward_at nodes u i of
            None \<Rightarrow> None
          | Some p \<Rightarrow> link new update is (set_forward (set_forward nodes new i p) u i (Some new))))"

definition raise_levels :: "nat \<Rightarrow> nat \<Rightarrow> nat option list \<Rightarrow> nat option list" where
  "raise_levels level newLevel update = fold (\<lambda>i u. u[i := Some 0]) [level..<newLevel] update"

definition sl_Insert :: "bytes \<Rightarrow> 'v \<Rightarrow> 'v SkipList \<Rightarrow> 'v SkipList option" where
  "sl_Insert key val sl =
     (case descend (sl_nodes sl) key (sl_level sl) 0 (replicate maxLevel None) of
        None \<Rightarrow> None
      | Some (current, update) \<Rightarrow>
         (case forward_at (sl_nodes sl) current 0 of
            None \<Rightarrow> None
          | Some p \<Rightarrow>
             let present = (case p of None \<Rightarrow> False | Some n \<Rightarrow> sn_key (sl_nodes sl ! n) = key)
             in if present then
                  Some (sl\<lparr>sl_nodes := (sl_nodes sl)[the p := (sl_nodes sl ! the p)\<lparr>sn_value := Some val\<rparr>]\<rparr>)
                else let (newLevel, sl1) = randomLevel sl;
                         update' = raise_levels (sl_level sl1) newLevel update;
                         new = length (sl_nodes sl1)
                     in (case link new update' [0..<newLevel] (sl_nodes sl1 @ [newSkipListNode key (Some val) newLevel]) of
                           None \<Rightarrow> None
                         | Some nodes \<Rightarrow> Some (sl1\<lparr>sl_nodes := nodes, sl_level := max (sl_level sl1) newLevel, sl_size := sl_size sl1 + 1\<rparr>))))"

definition sl_Search :: "bytes \<Rightarrow> 'v SkipList \<Rightarrow> 'v option option" where
  "sl_Search key sl =
     (case descend (sl_nodes sl) key (sl_level sl) 0 (replicate maxLevel None) of
        None \<Rightarrow> None
      | Some (current, _) \<Rightarrow>
         (case forward_at (sl_nodes sl) current 0 of
            None \<Rightarrow> None
          | Some None \<Rightarrow> Some None
          | Some (Some n) \<Rightarrow> if sn_key (sl_nodes sl ! n) = key then Some (sn_value (sl_nodes sl ! n)) else Some None))"

fun unlink :: "nat \<Rightarrow> nat option list \<Rightarrow> nat list \<Rightarrow> 'v SkipListNode list \<Rightarrow> 'v SkipListNode list option" where
  "unlink n update [] nodes = Some nodes"
| "unlink n update (i # is) nodes =
     (case (if i < length update then update ! i else None) of
        None \<Rightarrow> None
      | Some u \<Rightarrow>
         (case forward_at nodes u i of
            None \<Rightarrow> None
          | Some p \<Rightarrow>
             if p \<noteq> Some n then Some nodes
             else (case forward_at nodes n i of
                     None \<Rightarrow> None
                   | Some q \<Rightarrow> unlink n update is (set_forward nodes u i q))))"

fun lower_level :: "'v SkipListNode list \<Rightarrow> nat \<Rightarrow> nat" where
  "lower_level nodes 0 = 0"
| "lower_level nodes (Suc l) = (if Suc l > 1 \<and> sn_forward (nodes ! 0) ! l = None then lower_level nodes l else Suc l)"

definition sl_Delete :: "bytes \<Rightarrow> 'v SkipList \<Rightarrow> (bool \<times> 'v SkipList) option" where
  "sl_Delete key sl =
     (case descend (sl_nodes sl) key (sl_level sl) 0 (replicate maxLevel None) of
        None \<Rightarrow> None
      | Some (current, update) \<Rightarrow>
         (case forward_at (sl_nodes sl) current 0 of
            None \<Rightarrow> None
          | Some None \<Rightarrow> Some (False, sl)
          | Some (Some n) \<Rightarrow>
             if sn_key (sl_nodes sl ! n) \<noteq> key then Some (False, sl)
             else (case unlink n update [0..<sl_level sl] (sl_nodes sl) of
                     None \<Rightarrow> None
                   | Some nodes \<Rightarrow> Some (True, sl\<lparr>sl_nodes := nodes, sl_level := lower_level nodes (sl_level sl), sl_size := sl_size sl - 1\<rparr>))))"

section \<open>The list that the nodes represent\<close>

abbreviation blt :: "bytes \<Rightarrow> bytes \<Rightarrow> bool" where
  "blt a b \<equiv> bytes_compare a b < 0"

abbreviation hgt :: "'v SkipListNode list \<Rightarrow> nat \<Rightarrow> nat" where
  "hgt nodes a \<equiv> length (sn_forward (nodes ! a))"

text \<open>\<open>linked nodes i xs\<close>: the forward pointers of level \<open>i\<close> lead through \<open>xs\<close>, and from its last node nowhere.\<close>

fun linked :: "'v SkipListNode list \<Rightarrow> nat \<Rightarrow> nat list \<Rightarrow> bool" where
  "linked nodes i [] \<longleftrightarrow> True"
| "linked nodes i (a # xs) \<longleftrightarrow> forward_at nodes a i = Some (case xs of [] \<Rightarrow> None | b # _ \<Rightarrow> Some b) \<and> linked nodes i xs"

abbreviation tall :: "'v SkipListNode list \<Rightarrow> nat \<Rightarrow> nat list \<Rightarrow> nat list" where
  "tall nodes i xs \<equiv> filter (\<lambda>a. i < hgt nodes a) xs"

definition sl_rep :: "'v SkipList \<Rightarrow> nat list \<Rightarrow> bool" where
  "sl_rep sl L \<longleftrightarrow>
     1 \<le> sl_level sl \<and> sl_level sl \<le> maxLevel \<and> sl_nodes sl \<noteq> [] \<and> hgt (sl_nodes sl) 0 = maxLevel \<and> distinct L \<and>
     (\<forall>a\<in>set L. 0 < a \<and> a < length (sl_nodes sl) \<and> 1 \<le> hgt (sl_nodes sl) a \<and> hgt (sl_nodes sl) a \<le> sl_level sl \<and> sn_value (sl_nodes sl ! a) \<noteq> None) \<and>
     sorted_wrt blt (map (\<lambda>a. sn_key (sl_nodes sl ! a)) L) \<and>
     (\<forall>i<maxLevel. linked (sl_nodes sl) i (0 # tall (sl_nodes sl) i L)) \<and> sl_size sl = int (length L)"

definition sl_items :: "'v SkipList \<Rightarrow> nat list \<Rightarrow> (bytes \<times> 'v) list" where
  "sl_items sl L = map (\<lambda>a. (sn_key (sl_nodes sl ! a), the (sn_value (sl_nodes sl ! a)))) L"

subsection \<open>Chains\<close>

lemma forward_at_length [simp]: "length (set_forward nodes a i p) = length nodes"
  by (simp add: set_forward_def)

lemma set_forward_other [simp]: "b \<noteq> a \<Longrightarrow> set_forward nodes a i p ! b = nodes ! b"
  by (simp add: set_forward_def)

lemma nth_set_forward:
  "set_forward nodes a i p ! b =
     (if a = b \<and> a < length nodes then (nodes ! a)\<lparr>sn_forward := (sn_forward (nodes ! a))[i := p]\<rparr> else nodes ! b)"
  by (cases "a < length nodes") (simp_all add: set_forward_def nth_list_update list_update_beyond)

lemma set_forward_fields [simp]:
  "sn_key (set_forward nodes a i p ! b) = sn_key (nodes ! b)" "sn_value (set_forward nodes a i p ! b) = sn_value (nodes ! b)"
  "length (sn_forward (set_forward nodes a i p ! b)) = length (sn_forward (nodes ! b))"
  by (simp_all add: nth_set_forward)

lemma forward_at_set_forward:
  "forward_at (set_forward nodes a i p) b j =
     (if b = a \<and> j = i \<and> a < length nodes \<and> i < hgt nodes a then Some p else forward_at nodes b j)"
  by (auto simp: forward_at_def nth_set_forward nth_list_update)

lemma linked_append:
  "linked nodes i (xs @ ys) \<longleftrightarrow>
     linked nodes i ys \<and> (case ys of [] \<Rightarrow> linked nodes i xs
       | y # _ \<Rightarrow> (\<forall>j<length xs. forward_at nodes (xs ! j) i = Some (Some ((xs @ ys) ! Suc j))))"
proof (induction xs)
  case (Cons x xs)
  then show ?case by (cases xs; cases ys) (auto simp: nth_Cons split: nat.splits)
qed (auto split: list.splits)

lemma linked_frame:
  "linked nodes i xs \<Longrightarrow> (\<And>a. a \<in> set xs \<Longrightarrow> forward_at nodes' a i = forward_at nodes a i) \<Longrightarrow> linked nodes' i xs"
  by (induction xs) auto

lemma linked_suffix: "linked nodes i (xs @ ys) \<Longrightarrow> linked nodes i ys"
  by (simp add: linked_append)

lemma linked_next:
  "linked nodes i (xs @ a # ys) \<Longrightarrow> forward_at nodes a i = Some (case ys of [] \<Rightarrow> None | b # _ \<Rightarrow> Some b)"
  by (drule linked_suffix) simp

lemma linked_insert:
  assumes "linked nodes i (xs @ u # ys)" "distinct (xs @ u # ys)" "n \<notin> set (xs @ u # ys)"
    and f: "\<And>a. forward_at nodes' a i = (if a = u then Some (Some n) else if a = n then forward_at nodes u i else forward_at nodes a i)"
  shows "linked nodes' i (xs @ u # n # ys)"
proof -
  have "linked nodes i ys" using linked_suffix[of nodes i "xs @ [u]" ys] assms(1) by simp
  then have ys: "linked nodes' i ys" by (rule linked_frame) (use assms(2,3) f in auto)
  have "\<forall>j<length xs. forward_at nodes (xs ! j) i = Some (Some ((xs @ u # ys) ! Suc j))" using assms(1) by (simp add: linked_append[of _ _ xs])
  moreover have "(xs @ u # ys) ! Suc j = (xs @ u # n # ys) ! Suc j" if "j < length xs" for j using that by (auto simp: nth_append nth_Cons split: nat.split)
  moreover have "xs ! j \<noteq> u \<and> xs ! j \<noteq> n" if "j < length xs" for j
    using assms(2,3) that nth_mem[OF that] by auto
  moreover have "n \<noteq> u" using assms(3) by auto
  ultimately show ?thesis using ys f linked_next[OF assms(1)] by (simp add: linked_append[of _ _ xs])
qed

lemma linked_remove:
  assumes "linked nodes i (xs @ u # n # ys)" "distinct (xs @ u # n # ys)"
    and f: "\<And>a. forward_at nodes' a i = (if a = u then forward_at nodes n i else forward_at nodes a i)"
  shows "linked nodes' i (xs @ u # ys)"
proof -
  have "linked nodes i (n # ys)" using linked_suffix[of nodes i "xs @ [u]" "n # ys"] assms(1) by simp
  then have n: "forward_at nodes n i = Some (case ys of [] \<Rightarrow> None | b # _ \<Rightarrow> Some b)" and "linked nodes i ys" by simp_all
  from this(2) have ys: "linked nodes' i ys" by (rule linked_frame) (use assms(2) f in auto)
  have "\<forall>j<length xs. forward_at nodes (xs ! j) i = Some (Some ((xs @ u # n # ys) ! Suc j))" using assms(1) by (simp add: linked_append[of _ _ xs])
  moreover have "(xs @ u # n # ys) ! Suc j = (xs @ u # ys) ! Suc j" if "j < length xs" for j using that by (auto simp: nth_append nth_Cons split: nat.split)
  moreover have "xs ! j \<noteq> u" if "j < length xs" for j
    using assms(2) that nth_mem[OF that] by auto
  ultimately show ?thesis using ys f n by (simp add: linked_append[of _ _ xs])
qed

text \<open>What linking and unlinking a node does to the forward pointers.\<close>

definition same_shape :: "'v SkipListNode list \<Rightarrow> 'v SkipListNode list \<Rightarrow> bool" where
  "same_shape nodes nodes' \<longleftrightarrow> length nodes' = length nodes \<and>
     (\<forall>a. sn_key (nodes' ! a) = sn_key (nodes ! a) \<and> sn_value (nodes' ! a) = sn_value (nodes ! a) \<and> hgt nodes' a = hgt nodes a)"

lemma link_forward:
  assumes "distinct is" "n < length nodes"
    and "\<forall>i\<in>set is. i < length upd \<and> (\<exists>u. upd ! i = Some u \<and> u \<noteq> n \<and> u < length nodes \<and> i < hgt nodes u) \<and> i < hgt nodes n"
  shows "\<exists>nodes'. link n upd is nodes = Some nodes' \<and> same_shape nodes nodes' \<and>
    (\<forall>a i. forward_at nodes' a i =
       (if i \<in> set is then if a = the (upd ! i) then Some (Some n) else if a = n then forward_at nodes (the (upd ! i)) i else forward_at nodes a i
        else forward_at nodes a i))"
  using assms
proof (induction "is" arbitrary: nodes)
  case (Cons i "is")
  obtain u where u: "i < length upd" "upd ! i = Some u" "u \<noteq> n" "u < length nodes" "i < hgt nodes u" "i < hgt nodes n" using Cons.prems(3) by auto
  define nodes1 where "nodes1 = set_forward (set_forward nodes n i (sn_forward (nodes ! u) ! i)) u i (Some n)"
  have fu: "forward_at nodes u i = Some (sn_forward (nodes ! u) ! i)" using u by (simp add: forward_at_def)
  have f1: "forward_at nodes1 a j = (if j = i then if a = u then Some (Some n) else if a = n then forward_at nodes u i else forward_at nodes a j
      else forward_at nodes a j)" for a j
    using u fu Cons.prems(2) by (auto simp: nodes1_def forward_at_set_forward)
  have shape: "same_shape nodes nodes1" by (simp add: same_shape_def nodes1_def)
  have "\<exists>nodes'. link n upd is nodes1 = Some nodes' \<and> same_shape nodes1 nodes' \<and>
    (\<forall>a i. forward_at nodes' a i =
       (if i \<in> set is then if a = the (upd ! i) then Some (Some n) else if a = n then forward_at nodes1 (the (upd ! i)) i else forward_at nodes1 a i
        else forward_at nodes1 a i))"
    by (rule Cons.IH) (use Cons.prems shape in \<open>auto simp: same_shape_def\<close>)
  then obtain nodes' where n': "link n upd is nodes1 = Some nodes'" "same_shape nodes1 nodes'"
      "\<And>a j. forward_at nodes' a j = (if j \<in> set is then if a = the (upd ! j) then Some (Some n) else if a = n then forward_at nodes1 (the (upd ! j)) j else forward_at nodes1 a j
        else forward_at nodes1 a j)" by blast
  have "link n upd (i # is) nodes = Some nodes'" using u fu n'(1) by (simp add: nodes1_def)
  moreover have "same_shape nodes nodes'" using shape n'(2) by (simp add: same_shape_def)
  moreover have "forward_at nodes' a j = (if j \<in> set (i # is) then if a = the (upd ! j) then Some (Some n) else if a = n then forward_at nodes (the (upd ! j)) j else forward_at nodes a j
        else forward_at nodes a j)" for a j
    using n'(3)[of a j] f1 u(2) Cons.prems(1) by auto
  ultimately show ?case by blast
qed (simp add: same_shape_def)

lemma unlink_forward:
  assumes "distinct is1" "n < length nodes"
    and "\<forall>i\<in>set is1. i < length upd \<and> (\<exists>u. upd ! i = Some u \<and> u \<noteq> n \<and> forward_at nodes u i = Some (Some n)) \<and> i < hgt nodes n"
    and "is2 \<noteq> [] \<Longrightarrow> hd is2 \<notin> set is1 \<and> hd is2 < length upd \<and> (\<exists>u p. upd ! hd is2 = Some u \<and> forward_at nodes u (hd is2) = Some p \<and> p \<noteq> Some n)"
  shows "\<exists>nodes'. unlink n upd (is1 @ is2) nodes = Some nodes' \<and> same_shape nodes nodes' \<and>
    (\<forall>a i. forward_at nodes' a i = (if i \<in> set is1 \<and> a = the (upd ! i) then forward_at nodes n i else forward_at nodes a i))"
  using assms
proof (induction is1 arbitrary: nodes)
  case Nil
  then show ?case by (cases is2) (auto simp: same_shape_def)
next
  case (Cons i is1)
  obtain u where u: "i < length upd" "upd ! i = Some u" "u \<noteq> n" "forward_at nodes u i = Some (Some n)" "i < hgt nodes n" using Cons.prems(3) by auto
  have fn: "forward_at nodes n i = Some (sn_forward (nodes ! n) ! i)" using u Cons.prems(2) by (simp add: forward_at_def)
  have ub: "u < length nodes" "i < hgt nodes u" using u(4) by (auto simp: forward_at_def split: if_splits)
  define nodes1 where "nodes1 = set_forward nodes u i (sn_forward (nodes ! n) ! i)"
  have f1: "forward_at nodes1 a j = (if j = i \<and> a = u then forward_at nodes n i else forward_at nodes a j)" for a j
    using ub fn by (auto simp: nodes1_def forward_at_set_forward)
  have shape: "same_shape nodes nodes1" by (simp add: same_shape_def nodes1_def)
  have "\<exists>nodes'. unlink n upd (is1 @ is2) nodes1 = Some nodes' \<and> same_shape nodes1 nodes' \<and>
    (\<forall>a j. forward_at nodes' a j = (if j \<in> set is1 \<and> a = the (upd ! j) then forward_at nodes1 n j else forward_at nodes1 a j))"
  proof (rule Cons.IH)
    show "\<forall>j\<in>set is1. j < length upd \<and> (\<exists>u. upd ! j = Some u \<and> u \<noteq> n \<and> forward_at nodes1 u j = Some (Some n)) \<and> j < hgt nodes1 n"
      using Cons.prems(1,3) f1 shape by (fastforce simp: same_shape_def)
    show "hd is2 \<notin> set is1 \<and> hd is2 < length upd \<and> (\<exists>u p. upd ! hd is2 = Some u \<and> forward_at nodes1 u (hd is2) = Some p \<and> p \<noteq> Some n)" if "is2 \<noteq> []"
      using Cons.prems(4)[OF that] f1 by auto
  qed (use Cons.prems shape in \<open>auto simp: same_shape_def\<close>)
  then obtain nodes' where n': "unlink n upd (is1 @ is2) nodes1 = Some nodes'" "same_shape nodes1 nodes'"
    "\<And>a j. forward_at nodes' a j = (if j \<in> set is1 \<and> a = the (upd ! j) then forward_at nodes1 n j else forward_at nodes1 a j)" by blast
  have "unlink n upd ((i # is1) @ is2) nodes = Some nodes'" using u fn n'(1) by (simp add: nodes1_def)
  moreover have "same_shape nodes nodes'" using shape n'(2) by (simp add: same_shape_def)
  moreover have "forward_at nodes' a j = (if j \<in> set (i # is1) \<and> a = the (upd ! j) then forward_at nodes n j else forward_at nodes a j)" for a j
    using n'(3)[of a j] f1 u(2,3) Cons.prems(1) by auto
  ultimately show ?case by blast
qed

subsection \<open>The search path\<close>

lemma advance_ok:
  assumes "linked nodes i (xs @ cur # ys @ zs)" "\<forall>a\<in>set ys. blt (sn_key (nodes ! a)) key" "\<forall>a\<in>set zs. \<not> blt (sn_key (nodes ! a)) key"
    "\<forall>a\<in>set (ys @ zs). a < length nodes" "length ys < fuel"
  shows "advance fuel nodes key i cur = Some (last (cur # ys))"
  using assms
proof (induction fuel arbitrary: xs cur ys)
  case (Suc fuel)
  show ?case
  proof (cases ys)
    case Nil
    then show ?thesis using linked_next[OF Suc.prems(1)] Suc.prems(3,4) by (cases zs) auto
  next
    case (Cons y ys')
    have "advance fuel nodes key i y = Some (last (y # ys'))"
      by (rule Suc.IH[of "xs @ [cur]"]) (use Suc.prems Cons in auto)
    then show ?thesis using linked_next[OF Suc.prems(1)] Suc.prems(2,4) Cons by auto
  qed
qed simp

lemma last_filter_split:
  assumes "\<And>a. P a \<Longrightarrow> Q a"
  obtains xs ys where "z # filter Q L = xs @ last (z # filter P L) # ys" "last (last (z # filter P L) # ys) = last (z # filter Q L)"
proof -
  have "last (z # filter P L) \<in> set (z # filter Q L)"
  proof (cases "filter P L = []")
    case False
    then have "last (filter P L) \<in> set (filter P L)" by (rule last_in_set)
    then show ?thesis using assms False by auto
  qed simp
  then obtain xs ys where xy: "z # filter Q L = xs @ last (z # filter P L) # ys" by (meson split_list)
  then have "last (z # filter Q L) = last (last (z # filter P L) # ys)" by simp
  then show ?thesis using that xy by metis
qed

lemma length_le_nodes:
  assumes "distinct xs" "\<forall>a\<in>set xs. a < n" shows "length xs \<le> (n :: nat)"
proof -
  have "card (set xs) \<le> card {..<n}" by (rule card_mono) (use assms(2) in auto)
  then show ?thesis using assms(1) by (simp add: distinct_card)
qed

lemma descend_ok:
  assumes lk: "\<And>i. i < maxLevel \<Longrightarrow> linked nodes i (0 # tall nodes i (Q @ R))"
    and Q: "\<forall>a\<in>set Q. blt (sn_key (nodes ! a)) key" and R: "\<forall>a\<in>set R. \<not> blt (sn_key (nodes ! a)) key"
    and bnd: "\<forall>a\<in>set (0 # Q @ R). a < length nodes" "distinct (0 # Q @ R)"
    and start: "cur = last (0 # tall nodes level Q)" "level \<le> maxLevel" "length upd = maxLevel"
  shows "\<exists>upd'. descend nodes key level cur upd = Some (last (0 # tall nodes 0 Q), upd') \<and> length upd' = maxLevel \<and>
    (\<forall>i<maxLevel. upd' ! i = (if i < level then Some (last (0 # tall nodes i Q)) else upd ! i))"
  using start
proof (induction level arbitrary: cur upd)
  case (Suc i)
  obtain xs ys where xy: "0 # tall nodes i Q = xs @ cur # ys" "last (cur # ys) = last (0 # tall nodes i Q)"
    by (rule last_filter_split[of "\<lambda>a. Suc i < hgt nodes a" "\<lambda>a. i < hgt nodes a" 0 Q]) (use Suc.prems(1) in auto)
  have i: "i < maxLevel" using Suc.prems(2) by simp
  have "0 # tall nodes i (Q @ R) = (0 # tall nodes i Q) @ tall nodes i R" by simp
  then have "linked nodes i ((xs @ cur # ys) @ tall nodes i R)" using lk[OF i] unfolding xy(1) by metis
  then have "linked nodes i (xs @ cur # ys @ tall nodes i R)" by simp
  moreover have "set ys \<subseteq> set Q"
  proof -
    have "0 \<notin> set ys"
    proof
      assume "0 \<in> set ys"
      moreover have "distinct (xs @ cur # ys)" unfolding xy(1)[symmetric] using bnd(2) by simp
      ultimately show False using xy(1) by (cases xs) auto
    qed
    moreover have "set ys \<subseteq> set (0 # tall nodes i Q)" using xy(1) by auto
    ultimately show ?thesis by auto
  qed
  moreover have "length (0 # tall nodes i Q) \<le> length nodes" by (rule length_le_nodes) (use bnd in auto)
  then have "length ys < length nodes" using xy(1) by auto
  ultimately have "advance (length nodes) nodes key i cur = Some (last (cur # ys))"
    by (intro advance_ok[where xs = xs and zs = "tall nodes i R"]) (use Q R bnd in auto)
  then have adv: "advance (length nodes) nodes key i cur = Some (last (0 # tall nodes i Q))" using xy(2) by simp
  obtain upd' where u: "descend nodes key i (last (0 # tall nodes i Q)) (upd[i := Some (last (0 # tall nodes i Q))]) = Some (last (0 # tall nodes 0 Q), upd')"
      "length upd' = maxLevel" "\<forall>j<maxLevel. upd' ! j = (if j < i then Some (last (0 # tall nodes j Q)) else upd[i := Some (last (0 # tall nodes i Q))] ! j)"
    using Suc.IH[of "last (0 # tall nodes i Q)" "upd[i := Some (last (0 # tall nodes i Q))]"] Suc.prems by auto
  then show ?case using adv i Suc.prems(3) by (intro exI[of _ upd']) (auto simp: nth_list_update less_Suc_eq)
qed auto

section \<open>Correctness\<close>

subsection \<open>Entries in key order\<close>

fun sorted_put :: "bytes \<Rightarrow> 'v \<Rightarrow> (bytes \<times> 'v) list \<Rightarrow> (bytes \<times> 'v) list" where
  "sorted_put k v [] = [(k, v)]"
| "sorted_put k v (e # es) = (if fst e = k then (k, v) # es else if blt k (fst e) then (k, v) # e # es else e # sorted_put k v es)"

lemma map_of_sorted_put:
  "sorted_wrt blt (map fst es) \<Longrightarrow> map_of (sorted_put k v es) k' = (if k' = k then Some v else map_of es k')"
  by (induction es) auto

lemma sorted_put_split:
  assumes "\<forall>e\<in>set xs. blt (fst e) k" "\<forall>e\<in>set ys. blt k (fst e)"
  shows "sorted_put k v (xs @ ys) = xs @ (k, v) # ys" "sorted_put k v (xs @ (k, w) # ys) = xs @ (k, v) # ys"
proof -
  have ne: "fst e \<noteq> k \<and> \<not> blt k (fst e)" if "blt (fst e) k" for e :: "bytes \<times> 'v"
    using that bytes_compare_flip[of k "fst e"] by auto
  have "sorted_put k v ys = (k, v) # ys" using assms(2) by (cases ys) (auto simp: bytes_compare_irrefl)
  then show "sorted_put k v (xs @ ys) = xs @ (k, v) # ys" using assms(1) by (induction xs) (auto simp: ne)
  show "sorted_put k v (xs @ (k, w) # ys) = xs @ (k, v) # ys" using assms(1) by (induction xs) (auto simp: ne)
qed

lemma sorted_sorted_put:
  assumes "sorted_wrt blt (map fst es)" shows "sorted_wrt blt (map fst (sorted_put k v es))"
  using assms
proof (induction es)
  case (Cons e es)
  have *: "set (sorted_put k v es) \<subseteq> insert (k, v) (set es)" for es by (induction es) auto
  show ?case
    using Cons * [of es] bytes_compare_total[of "fst e" k] bytes_compare_trans[of k "fst e"] by (auto 0 3)
qed simp

lemma sorted_wrt_blt_distinct: "sorted_wrt blt ks \<Longrightarrow> distinct ks"
  by (induction ks) auto

lemma map_of_sorted_split:
  assumes "\<forall>e\<in>set xs. fst e \<noteq> k" "\<forall>e\<in>set ys. fst e \<noteq> k"
  shows "map_of (xs @ ys) k = None" "map_of (xs @ (k, w) # ys) k = Some w"
proof -
  have "map_of xs k = None" "map_of ys k = None" using assms by (auto simp: map_of_eq_None_iff)
  then show "map_of (xs @ ys) k = None" "map_of (xs @ (k, w) # ys) k = Some w" by (simp_all add: map_add_def)
qed

subsection \<open>The path to a key\<close>

lemma level_loop_range: "level \<le> maxLevel \<Longrightarrow> level \<le> fst (level_loop r d level) \<and> fst (level_loop r d level) \<le> maxLevel"
proof (induction r d level rule: level_loop.induct)
  case (1 r d level)
  then show ?case by (subst (1 2) level_loop.simps) (auto simp del: level_loop.simps)
qed

declare level_loop.simps [simp del]

lemma length_raise_levels [simp]: "length (raise_levels l m u) = length u"
proof -
  have "length (fold (\<lambda>i u. u[i := Some 0]) is u) = length u" for "is" by (induction "is" arbitrary: u) auto
  then show ?thesis by (simp add: raise_levels_def)
qed

lemma nth_raise_levels: "i < length u \<Longrightarrow> raise_levels l m u ! i = (if l \<le> i \<and> i < m then Some 0 else u ! i)"
proof -
  have "i < length u \<Longrightarrow> fold (\<lambda>i u. u[i := Some 0]) is u ! i = (if i \<in> set is then Some 0 else u ! i)" for "is"
    by (induction "is" arbitrary: u) (auto simp: nth_list_update)
  then show "i < length u \<Longrightarrow> raise_levels l m u ! i = (if l \<le> i \<and> i < m then Some 0 else u ! i)" by (auto simp: raise_levels_def)
qed

lemma sorted_split:
  assumes "sorted_wrt blt (map f L)"
  obtains Q R where "L = Q @ R" "\<forall>a\<in>set Q. blt (f a) key" "\<forall>a\<in>set R. \<not> blt (f a) key"
  using assms
proof (induction L arbitrary: thesis)
  case (Cons a L)
  show ?case
  proof (cases "blt (f a) key")
    case True
    obtain Q R where "L = Q @ R" "\<forall>a\<in>set Q. blt (f a) key" "\<forall>a\<in>set R. \<not> blt (f a) key" using Cons by auto
    then show ?thesis using True by (intro Cons.prems(1)[of "a # Q" R]) auto
  next
    case False
    have "\<not> blt (f b) key" if "b \<in> set L" for b
      using Cons.prems(2) that False bytes_compare_trans[of "f a" "f b" key] by auto
    then show ?thesis using False by (intro Cons.prems(1)[of "[]" "a # L"]) auto
  qed
qed simp

lemma sl_repD:
  assumes "sl_rep sl L"
  shows "1 \<le> sl_level sl" "sl_level sl \<le> maxLevel" "sl_nodes sl \<noteq> []" "hgt (sl_nodes sl) 0 = maxLevel" "distinct (0 # L)"
    "a \<in> set L \<Longrightarrow> 0 < a" "a \<in> set L \<Longrightarrow> a < length (sl_nodes sl)" "a \<in> set L \<Longrightarrow> 0 < hgt (sl_nodes sl) a"
    "a \<in> set L \<Longrightarrow> hgt (sl_nodes sl) a \<le> sl_level sl" "a \<in> set L \<Longrightarrow> sn_value (sl_nodes sl ! a) \<noteq> None"
    "sorted_wrt blt (map (\<lambda>a. sn_key (sl_nodes sl ! a)) L)" "i < maxLevel \<Longrightarrow> linked (sl_nodes sl) i (0 # tall (sl_nodes sl) i L)"
    "sl_size sl = int (length L)"
proof -
  note r = assms[unfolded sl_rep_def]
  show "1 \<le> sl_level sl" "sl_level sl \<le> maxLevel" "sl_nodes sl \<noteq> []" "hgt (sl_nodes sl) 0 = maxLevel"
    "a \<in> set L \<Longrightarrow> 0 < a" "a \<in> set L \<Longrightarrow> a < length (sl_nodes sl)"
    "a \<in> set L \<Longrightarrow> hgt (sl_nodes sl) a \<le> sl_level sl" "a \<in> set L \<Longrightarrow> sn_value (sl_nodes sl ! a) \<noteq> None"
    "sorted_wrt blt (map (\<lambda>a. sn_key (sl_nodes sl ! a)) L)" "i < maxLevel \<Longrightarrow> linked (sl_nodes sl) i (0 # tall (sl_nodes sl) i L)"
    "sl_size sl = int (length L)" using r by blast+
  have "distinct L" "\<forall>a\<in>set L. 0 < a" using r by blast+
  then show "distinct (0 # L)" by auto
  show "0 < hgt (sl_nodes sl) a" if "a \<in> set L" using r that by fastforce
qed

lemma sl_path:
  assumes rep: "sl_rep sl L"
  obtains Q R upd where "L = Q @ R" "\<forall>a\<in>set Q. blt (sn_key (sl_nodes sl ! a)) key" "\<forall>a\<in>set R. \<not> blt (sn_key (sl_nodes sl ! a)) key"
    "descend (sl_nodes sl) key (sl_level sl) 0 (replicate maxLevel None) = Some (last (0 # Q), upd)" "length upd = maxLevel"
    "\<forall>i<maxLevel. upd ! i = (if i < sl_level sl then Some (last (0 # tall (sl_nodes sl) i Q)) else None)"
    "forward_at (sl_nodes sl) (last (0 # Q)) 0 = Some (case R of [] \<Rightarrow> None | r # _ \<Rightarrow> Some r)"
proof -
  let ?n = "sl_nodes sl"
  note D = sl_repD[OF rep]
  obtain Q R where QR: "L = Q @ R" "\<forall>a\<in>set Q. blt (sn_key (?n ! a)) key" "\<forall>a\<in>set R. \<not> blt (sn_key (?n ! a)) key"
    by (rule sorted_split[OF D(11)]) (rule that)
  have lk: "linked ?n i (0 # tall ?n i (Q @ R))" if "i < maxLevel" for i using D(12)[OF that] QR(1) by simp
  have short: "tall ?n (sl_level sl) Q = []" using D(9) QR(1) by (auto simp: filter_empty_conv not_less)
  have all: "tall ?n 0 Q = Q" "tall ?n 0 R = R" using D(8) QR(1) by (simp_all add: filter_id_conv)
  have "\<exists>upd'. descend ?n key (sl_level sl) 0 (replicate maxLevel None) = Some (last (0 # tall ?n 0 Q), upd') \<and> length upd' = maxLevel \<and>
    (\<forall>i<maxLevel. upd' ! i = (if i < sl_level sl then Some (last (0 # tall ?n i Q)) else replicate maxLevel None ! i))"
    by (rule descend_ok[OF lk QR(2,3)]) (use D(2,3,5,7) QR(1) short in auto)
  then obtain upd where u: "descend ?n key (sl_level sl) 0 (replicate maxLevel None) = Some (last (0 # Q), upd)" "length upd = maxLevel"
    "\<forall>i<maxLevel. upd ! i = (if i < sl_level sl then Some (last (0 # tall ?n i Q)) else None)" unfolding all(1) by auto
  have "butlast (0 # Q) @ [last (0 # Q)] = 0 # Q" by (rule append_butlast_last_id) simp
  then have "butlast (0 # Q) @ last (0 # Q) # R = (0 # Q) @ R" by (metis append.assoc append_Cons append_Nil)
  moreover have "linked ?n 0 ((0 # Q) @ R)" using lk[of 0] unfolding filter_append all append_Cons by (simp only: maxLevel_def)
  ultimately have "linked ?n 0 (butlast (0 # Q) @ last (0 # Q) # R)" by metis
  then show ?thesis using that[OF QR u] linked_next by blast
qed

subsection \<open>Operations\<close>

definition sl_holds :: "'v SkipList \<Rightarrow> (bytes \<times> 'v) list \<Rightarrow> bool" where
  "sl_holds sl es \<longleftrightarrow> (\<exists>L. sl_rep sl L \<and> sl_items sl L = es)"

abbreviation sl_entry :: "'v SkipList \<Rightarrow> nat \<Rightarrow> bytes \<times> 'v" where
  "sl_entry sl a \<equiv> (sn_key (sl_nodes sl ! a), the (sn_value (sl_nodes sl ! a)))"

lemma sl_holds_sorted: "sl_holds sl es \<Longrightarrow> sorted_wrt blt (map fst es)"
  by (auto simp: sl_holds_def sl_items_def comp_def dest: sl_repD(11))

lemma sl_holds_size: "sl_holds sl es \<Longrightarrow> sl_size sl = int (length es)"
  by (auto simp: sl_holds_def sl_items_def dest: sl_repD(13))

lemma NewSkipList_holds: "sl_holds (NewSkipList r :: 'v SkipList) []"
proof -
  have "linked (sl_nodes (NewSkipList r :: 'v SkipList)) i [0]" if "i < maxLevel" for i
    using that by (simp add: NewSkipList_def newSkipListNode_def forward_at_def)
  then have "sl_rep (NewSkipList r :: 'v SkipList) []" by (simp add: sl_rep_def NewSkipList_def newSkipListNode_def maxLevel_def)
  then show ?thesis by (auto simp: sl_holds_def sl_items_def)
qed

text \<open>The three cases of a search: the key is beyond the end, at the next node, or missing.\<close>

lemma sl_cases:
  assumes rep: "sl_rep sl L"
  obtains (found) Q r R upd where "L = Q @ r # R" "sn_key (sl_nodes sl ! r) = key"
      "descend (sl_nodes sl) key (sl_level sl) 0 (replicate maxLevel None) = Some (last (0 # Q), upd)" "length upd = maxLevel"
      "\<forall>i<maxLevel. upd ! i = (if i < sl_level sl then Some (last (0 # tall (sl_nodes sl) i Q)) else None)"
      "forward_at (sl_nodes sl) (last (0 # Q)) 0 = Some (Some r)"
      "\<forall>a\<in>set Q. blt (sn_key (sl_nodes sl ! a)) key" "\<forall>a\<in>set R. blt key (sn_key (sl_nodes sl ! a))"
  | (missing) Q R upd where "L = Q @ R"
      "descend (sl_nodes sl) key (sl_level sl) 0 (replicate maxLevel None) = Some (last (0 # Q), upd)" "length upd = maxLevel"
      "\<forall>i<maxLevel. upd ! i = (if i < sl_level sl then Some (last (0 # tall (sl_nodes sl) i Q)) else None)"
      "forward_at (sl_nodes sl) (last (0 # Q)) 0 = Some (case R of [] \<Rightarrow> None | r # _ \<Rightarrow> Some r)"
      "\<forall>a\<in>set Q. blt (sn_key (sl_nodes sl ! a)) key" "\<forall>a\<in>set R. blt key (sn_key (sl_nodes sl ! a))"
proof -
  obtain Q R upd where p: "L = Q @ R" "\<forall>a\<in>set Q. blt (sn_key (sl_nodes sl ! a)) key" "\<forall>a\<in>set R. \<not> blt (sn_key (sl_nodes sl ! a)) key"
    "descend (sl_nodes sl) key (sl_level sl) 0 (replicate maxLevel None) = Some (last (0 # Q), upd)" "length upd = maxLevel"
    "\<forall>i<maxLevel. upd ! i = (if i < sl_level sl then Some (last (0 # tall (sl_nodes sl) i Q)) else None)"
    "forward_at (sl_nodes sl) (last (0 # Q)) 0 = Some (case R of [] \<Rightarrow> None | r # _ \<Rightarrow> Some r)" by (rule sl_path[OF rep]) (rule that)
  have gt: "blt key (sn_key (sl_nodes sl ! a))" if "a \<in> set R" "sn_key (sl_nodes sl ! a) \<noteq> key" for a
    using p(3) that bytes_compare_total by blast
  have srt: "sorted_wrt blt (map (\<lambda>a. sn_key (sl_nodes sl ! a)) R)" using sl_repD(11)[OF rep] p(1) by (simp add: sorted_wrt_append)
  show ?thesis
  proof (cases "\<exists>r R'. R = r # R' \<and> sn_key (sl_nodes sl ! r) = key")
    case True
    then obtain r R' where R: "R = r # R'" "sn_key (sl_nodes sl ! r) = key" by blast
    have "\<forall>a\<in>set R'. blt key (sn_key (sl_nodes sl ! a))" using srt R by simp
    then show ?thesis using p R by (intro found[of Q r R' upd]) auto
  next
    case False
    have "sn_key (sl_nodes sl ! a) \<noteq> key" if aR: "a \<in> set R" for a
    proof
      assume a: "sn_key (sl_nodes sl ! a) = key"
      obtain r R' where R: "R = r # R'" using aR by (cases R) auto
      then have "blt key (sn_key (sl_nodes sl ! r))" using False gt by auto
      moreover have "a \<in> set R'" using aR R a False by auto
      ultimately show False using srt R a bytes_compare_trans[of key "sn_key (sl_nodes sl ! r)" key] by auto
    qed
    then show ?thesis using p gt by (intro missing[of Q R upd]) auto
  qed
qed

lemma sl_Search_ok:
  assumes "sl_holds sl es" shows "sl_Search key sl = Some (map_of es key)"
proof -
  obtain L where L: "sl_rep sl L" "sl_items sl L = es" using assms by (auto simp: sl_holds_def)
  show ?thesis
  proof (rule sl_cases[OF L(1), of key])
    fix Q r R upd assume p: "L = Q @ r # R" "sn_key (sl_nodes sl ! r) = key"
      "descend (sl_nodes sl) key (sl_level sl) 0 (replicate maxLevel None) = Some (last (0 # Q), upd)"
      "forward_at (sl_nodes sl) (last (0 # Q)) 0 = Some (Some r)"
      "\<forall>a\<in>set Q. blt (sn_key (sl_nodes sl ! a)) key" "\<forall>a\<in>set R. blt key (sn_key (sl_nodes sl ! a))"
    have "map_of (map (sl_entry sl) Q @ (key, the (sn_value (sl_nodes sl ! r))) # map (sl_entry sl) R) key = Some (the (sn_value (sl_nodes sl ! r)))"
      by (rule map_of_sorted_split) (use p(5,6) in auto)
    then have "map_of es key = Some (the (sn_value (sl_nodes sl ! r)))" using L(2) p(1,2) by (simp only: sl_items_def map_append list.map)
    then show ?thesis using p(1-4) sl_repD(10)[OF L(1), of r] by (auto simp: sl_Search_def)
  next
    fix Q R upd assume p: "L = Q @ R"
      "descend (sl_nodes sl) key (sl_level sl) 0 (replicate maxLevel None) = Some (last (0 # Q), upd)"
      "forward_at (sl_nodes sl) (last (0 # Q)) 0 = Some (case R of [] \<Rightarrow> None | r # _ \<Rightarrow> Some r)"
      "\<forall>a\<in>set Q. blt (sn_key (sl_nodes sl ! a)) key" "\<forall>a\<in>set R. blt key (sn_key (sl_nodes sl ! a))"
    have "map_of (map (sl_entry sl) Q @ map (sl_entry sl) R) key = None"
      by (rule map_of_sorted_split) (use p(4,5) in auto)
    then have "map_of es key = None" using L(2) p(1) by (simp only: sl_items_def map_append)
    then show ?thesis using p(2,3,5) by (cases R) (auto simp: sl_Search_def)
  qed
qed

lemma sl_rep_value:
  assumes "sl_rep sl L" "r \<in> set L"
  shows "sl_rep (sl\<lparr>sl_nodes := (sl_nodes sl)[r := (sl_nodes sl ! r)\<lparr>sn_value := Some v\<rparr>]\<rparr>) L"
proof -
  let ?n = "sl_nodes sl" and ?n' = "(sl_nodes sl)[r := (sl_nodes sl ! r)\<lparr>sn_value := Some v\<rparr>]"
  have nth: "?n' ! a = (if a = r then (?n ! r)\<lparr>sn_value := Some v\<rparr> else ?n ! a)" for a
    using sl_repD(7)[OF assms] by (auto simp: nth_list_update)
  have h: "hgt ?n' a = hgt ?n a" "sn_key (?n' ! a) = sn_key (?n ! a)" for a by (simp_all add: nth)
  have f: "forward_at ?n' a i = forward_at ?n a i" for a i by (simp add: forward_at_def nth)
  have "linked ?n' i (0 # tall ?n' i L)" if "i < maxLevel" for i
    using linked_frame[OF sl_repD(12)[OF assms(1) that], of ?n'] f by (simp only: h)
  then show ?thesis using assms(1) unfolding sl_rep_def by (simp add: h) (auto simp: nth)
qed

lemma sl_Insert_update:
  assumes rep: "sl_rep sl L" and p: "L = Q @ r # R" "sn_key (sl_nodes sl ! r) = key"
      "descend (sl_nodes sl) key (sl_level sl) 0 (replicate maxLevel None) = Some (last (0 # Q), upd)"
      "forward_at (sl_nodes sl) (last (0 # Q)) 0 = Some (Some r)"
      "\<forall>a\<in>set Q. blt (sn_key (sl_nodes sl ! a)) key" "\<forall>a\<in>set R. blt key (sn_key (sl_nodes sl ! a))"
  shows "\<exists>sl'. sl_Insert key v sl = Some sl' \<and> sl_rep sl' L \<and> sl_items sl' L = sorted_put key v (sl_items sl L)"
proof -
  let ?sl' = "sl\<lparr>sl_nodes := (sl_nodes sl)[r := (sl_nodes sl ! r)\<lparr>sn_value := Some v\<rparr>]\<rparr>"
  have r: "r < length (sl_nodes sl)" "r \<notin> set Q" "r \<notin> set R" using sl_repD(5,7)[OF rep] p(1) by auto
  have run: "sl_Insert key v sl = Some ?sl'" using p by (simp add: sl_Insert_def)
  have rep': "sl_rep ?sl' L" by (rule sl_rep_value[OF rep]) (simp add: p(1))
  have "sorted_put key v (map (sl_entry sl) Q @ (key, the (sn_value (sl_nodes sl ! r))) # map (sl_entry sl) R) =
      map (sl_entry sl) Q @ (key, v) # map (sl_entry sl) R"
    by (rule sorted_put_split(2)) (use p(5,6) in auto)
  moreover have keep: "map (sl_entry ?sl') xs = map (sl_entry sl) xs" if "r \<notin> set xs" for xs using that by (induction xs) auto
  ultimately have "sl_items ?sl' L = sorted_put key v (sl_items sl L)"
    using keep[OF r(2)] keep[OF r(3)] r(1) p(1,2) by (simp add: sl_items_def)
  then show ?thesis using run rep' by blast
qed


lemma last_tall:
  assumes rep: "sl_rep sl (Q @ R)"
  shows "last (0 # tall (sl_nodes sl) i Q) < length (sl_nodes sl)" "i < maxLevel \<Longrightarrow> i < hgt (sl_nodes sl) (last (0 # tall (sl_nodes sl) i Q))"
    "last (0 # tall (sl_nodes sl) i Q) \<in> set (0 # Q)" "sl_level sl \<le> i \<Longrightarrow> tall (sl_nodes sl) i Q = []"
proof -
  let ?u = "last (0 # tall (sl_nodes sl) i Q)"
  have u: "?u = 0 \<or> ?u \<in> set (tall (sl_nodes sl) i Q)" using last_in_set[of "tall (sl_nodes sl) i Q"] by auto
  then show "?u < length (sl_nodes sl)" using sl_repD(3,7)[OF rep] by auto
  show "i < hgt (sl_nodes sl) ?u" if "i < maxLevel" using u that sl_repD(4)[OF rep] by auto
  show "?u \<in> set (0 # Q)" using u by auto
  show "tall (sl_nodes sl) i Q = []" if "sl_level sl \<le> i" using that sl_repD(9)[OF rep] by (fastforce simp: filter_empty_conv not_less)
qed

lemma forward_at_append: "a < length nodes \<Longrightarrow> forward_at (nodes @ [x]) a i = forward_at nodes a i"
  by (simp add: forward_at_def nth_append)

text \<open>A node spliced into a level right behind the search path, or left out of it.\<close>

lemma level_insert:
  assumes rep: "sl_rep sl (Q @ R)" and i: "i < maxLevel" and n: "n \<notin> set (0 # Q @ R)"
    and f: "\<And>a. a \<noteq> n \<Longrightarrow> forward_at nodes' a i = (if a = last (0 # tall (sl_nodes sl) i Q) then Some (Some n) else forward_at (sl_nodes sl) a i)"
    and fn: "forward_at nodes' n i = forward_at (sl_nodes sl) (last (0 # tall (sl_nodes sl) i Q)) i"
  shows "linked nodes' i (0 # tall (sl_nodes sl) i Q @ n # tall (sl_nodes sl) i R)"
proof -
  let ?n = "sl_nodes sl" and ?u = "last (0 # tall (sl_nodes sl) i Q)" and ?xs = "butlast (0 # tall (sl_nodes sl) i Q)"
  have split: "0 # tall ?n i Q @ zs = ?xs @ ?u # zs" for zs
  proof -
    have "(?xs @ [?u]) @ zs = (0 # tall ?n i Q) @ zs" by (subst append_butlast_last_id) simp_all
    then show ?thesis by simp
  qed
  have "linked ?n i (?xs @ ?u # tall ?n i R)" using sl_repD(12)[OF rep i] unfolding filter_append split .
  moreover have "distinct (?xs @ ?u # tall ?n i R)" unfolding split[symmetric] using sl_repD(5)[OF rep] by auto
  moreover have "n \<notin> set (?xs @ ?u # tall ?n i R)" unfolding split[symmetric] using n by auto
  ultimately have "linked nodes' i (?xs @ ?u # n # tall ?n i R)"
  proof (rule linked_insert)
    have "n \<noteq> ?u" using last_tall(3)[OF rep, of i] n by auto
    then show "forward_at nodes' a i = (if a = ?u then Some (Some n) else if a = n then forward_at ?n ?u i else forward_at ?n a i)" for a
      using f[of a] fn by auto
  qed
  then show ?thesis unfolding split .
qed

lemma sl_Insert_new:
  assumes rep: "sl_rep sl (Q @ R)"
    and p: "descend (sl_nodes sl) key (sl_level sl) 0 (replicate maxLevel None) = Some (last (0 # Q), upd)" "length upd = maxLevel"
      "\<forall>i<maxLevel. upd ! i = (if i < sl_level sl then Some (last (0 # tall (sl_nodes sl) i Q)) else None)"
      "forward_at (sl_nodes sl) (last (0 # Q)) 0 = Some (case R of [] \<Rightarrow> None | r # _ \<Rightarrow> Some r)"
      "\<forall>a\<in>set Q. blt (sn_key (sl_nodes sl ! a)) key" "\<forall>a\<in>set R. blt key (sn_key (sl_nodes sl ! a))"
  shows "\<exists>sl'. sl_Insert key v sl = Some sl' \<and> sl_rep sl' (Q @ length (sl_nodes sl) # R) \<and>
    sl_items sl' (Q @ length (sl_nodes sl) # R) = sorted_put key v (sl_items sl (Q @ R))"
proof -
  let ?n = "sl_nodes sl"
  define n where "n = length ?n"
  obtain m dr where md: "level_loop (sl_random sl) (sl_draws sl) (Suc 0) = (m, dr)" by fastforce
  define nodes1 where "nodes1 = ?n @ [newSkipListNode key (Some v) m]"
  define upd' where "upd' = raise_levels (sl_level sl) m upd"
  have m: "1 \<le> m" "m \<le> maxLevel" using level_loop_range[of "Suc 0" "sl_random sl" "sl_draws sl"] by (simp_all add: md maxLevel_def)
  define w where "w i = last (0 # tall ?n i Q)" for i
  have w: "w i < n" "i < maxLevel \<Longrightarrow> i < hgt ?n (w i)" for i using last_tall(1,2)[OF rep, of i] unfolding w_def n_def .
  have u: "upd' ! i = Some (w i)" if "i < m" for i
    using that m(2) p(2,3) last_tall(4)[OF rep, of i] by (auto simp: upd'_def nth_raise_levels w_def)
  have lt: "a < n" if "a \<in> set (0 # Q @ R)" for a using that sl_repD(3,7)[OF rep] by (auto simp: n_def)
  have old: "nodes1 ! a = ?n ! a" if "a < n" for a using that by (simp add: nodes1_def nth_append n_def)
  have len1: "length nodes1 = Suc n" by (simp add: nodes1_def n_def)
  have new: "nodes1 ! n = newSkipListNode key (Some v) m" by (simp add: nodes1_def n_def)
  have "\<exists>nodes'. link n upd' [0..<m] nodes1 = Some nodes' \<and> same_shape nodes1 nodes' \<and> (\<forall>a i. forward_at nodes' a i =
       (if i \<in> set [0..<m] then if a = the (upd' ! i) then Some (Some n) else if a = n then forward_at nodes1 (the (upd' ! i)) i else forward_at nodes1 a i
        else forward_at nodes1 a i))"
  proof (rule link_forward)
    show "\<forall>i\<in>set [0..<m]. i < length upd' \<and> (\<exists>u. upd' ! i = Some u \<and> u \<noteq> n \<and> u < length nodes1 \<and> i < hgt nodes1 u) \<and> i < hgt nodes1 n"
    proof
      fix i assume "i \<in> set [0..<m]"
      then have i: "i < m" "i < maxLevel" using m by auto
      then show "i < length upd' \<and> (\<exists>u. upd' ! i = Some u \<and> u \<noteq> n \<and> u < length nodes1 \<and> i < hgt nodes1 u) \<and> i < hgt nodes1 n"
        using u[OF i(1)] w[of i] p(2) old[OF w(1)] len1 by (auto simp: upd'_def new newSkipListNode_def)
    qed
  qed (simp_all add: nodes1_def n_def)
  then obtain nodes' where n': "link n upd' [0..<m] nodes1 = Some nodes'" "same_shape nodes1 nodes'"
    "\<And>a i. forward_at nodes' a i = (if i < m then if a = the (upd' ! i) then Some (Some n) else if a = n then forward_at nodes1 (the (upd' ! i)) i else forward_at nodes1 a i
        else forward_at nodes1 a i)" by auto
  define sl' where "sl' = sl\<lparr>sl_nodes := nodes', sl_level := max (sl_level sl) m, sl_size := sl_size sl + 1, sl_draws := dr\<rparr>"
  have "\<not> (case (case R of [] \<Rightarrow> None | r # _ \<Rightarrow> Some r) of None \<Rightarrow> False | Some x \<Rightarrow> sn_key (?n ! x) = key)"
    using p(6) by (cases R) auto
  then have run: "sl_Insert key v sl = Some sl'"
    using p(1,4) n'(1) by (simp add: sl_Insert_def randomLevel_def Let_def md upd'_def[symmetric] nodes1_def[symmetric] n_def[symmetric] sl'_def)
  have shape: "length nodes' = Suc n" "\<And>a. sn_key (nodes' ! a) = sn_key (nodes1 ! a)" "\<And>a. sn_value (nodes' ! a) = sn_value (nodes1 ! a)"
      "\<And>a. hgt nodes' a = hgt nodes1 a" using n'(2) by (auto simp: same_shape_def nodes1_def n_def)
  have tq: "tall nodes' i Q = tall ?n i Q" "tall nodes' i R = tall ?n i R" for i
    by (rule filter_cong[OF refl]; use lt old shape(4) in simp)+
  have hn: "hgt nodes' n = m" using shape(4)[of n] new by (simp add: newSkipListNode_def)
  have fo: "forward_at nodes1 a i = forward_at ?n a i" if "a \<noteq> n" for a i
    using that by (cases "a < n") (auto simp: nodes1_def n_def forward_at_append, auto simp: forward_at_def)
  have nn: "n \<notin> set (0 # Q @ R)" using lt by blast
  have lk: "linked nodes' i (0 # tall nodes' i (Q @ n # R))" if i: "i < maxLevel" for i
  proof (cases "i < m")
    case True
    have "linked nodes' i (0 # tall ?n i Q @ n # tall ?n i R)"
      by (rule level_insert[OF rep i nn, folded w_def]) (use n'(3)[of _ i] u[OF True] True fo w(1)[of i] in auto)
    then show ?thesis using True by (simp add: hn tq)
  next
    case False
    have "linked nodes' i (0 # tall ?n i (Q @ R))"
      by (rule linked_frame[OF sl_repD(12)[OF rep i]]) (use False n'(3)[of _ i] fo[OF less_imp_neq[OF lt]] in auto)
    then show ?thesis using False by (simp add: hn tq)
  qed
  have same: "sn_key (nodes' ! a) = sn_key (?n ! a)" "sn_value (nodes' ! a) = sn_value (?n ! a)" "hgt nodes' a = hgt ?n a" if "a \<in> set (0 # Q @ R)" for a
    using old[OF lt[OF that]] shape by simp_all
  have nv: "sn_key (nodes' ! n) = key" "sn_value (nodes' ! n) = Some v" using shape(2,3) new by (simp_all add: newSkipListNode_def)
  have srt: "sorted_wrt blt (map (\<lambda>a. sn_key (nodes' ! a)) (Q @ n # R))"
  proof -
    have eq: "map (\<lambda>a. sn_key (nodes' ! a)) Q = map (\<lambda>a. sn_key (?n ! a)) Q" "map (\<lambda>a. sn_key (nodes' ! a)) R = map (\<lambda>a. sn_key (?n ! a)) R" using same(1) by auto
    show ?thesis unfolding map_append list.map eq nv(1) using sl_repD(11)[OF rep] p(5,6) by (auto simp: sorted_wrt_append)
  qed
  have nodes: "\<forall>a\<in>set (Q @ n # R). 0 < a \<and> a < length nodes' \<and> 1 \<le> hgt nodes' a \<and> hgt nodes' a \<le> max (sl_level sl) m \<and> sn_value (nodes' ! a) \<noteq> None"
  proof
    fix a assume a: "a \<in> set (Q @ n # R)"
    show "0 < a \<and> a < length nodes' \<and> 1 \<le> hgt nodes' a \<and> hgt nodes' a \<le> max (sl_level sl) m \<and> sn_value (nodes' ! a) \<noteq> None"
    proof (cases "a = n")
      case True
      then show ?thesis using hn nv m shape(1) lt[of 0] by auto
    next
      case False
      then have aL: "a \<in> set (Q @ R)" using a by auto
      then show ?thesis using same[of a] lt[of a] sl_repD(6,8,9,10)[OF rep aL] shape(1) by (auto simp: Suc_le_eq)
    qed
  qed
  have dist: "distinct (Q @ n # R)" using sl_repD(5)[OF rep] nn by auto
  have "sl_rep sl' (Q @ n # R)" unfolding sl_rep_def
    using nodes dist srt lk same(3)[of 0] sl_repD(1,2,4,13)[OF rep] m shape(1) by (auto simp: sl'_def)
  moreover have "sl_items sl' (Q @ n # R) = sorted_put key v (sl_items sl (Q @ R))"
  proof -
    have "sorted_put key v (map (sl_entry sl) Q @ map (sl_entry sl) R) = map (sl_entry sl) Q @ (key, v) # map (sl_entry sl) R"
      by (rule sorted_put_split(1)) (use p(5,6) in auto)
    then show ?thesis using same(1,2) nv by (simp add: sl_items_def sl'_def)
  qed
  ultimately show ?thesis using run by (auto simp: n_def)
qed

lemma sl_Insert_ok:
  assumes "sl_holds sl es" shows "\<exists>sl'. sl_Insert key v sl = Some sl' \<and> sl_holds sl' (sorted_put key v es)"
proof -
  obtain L where L: "sl_rep sl L" "sl_items sl L = es" using assms by (auto simp: sl_holds_def)
  show ?thesis
  proof (cases rule: sl_cases[OF L(1), of key])
    case (1 Q r R upd)
    then show ?thesis using sl_Insert_update[OF L(1) 1(1,2,3,6,7,8), of v] L(2) by (auto simp: sl_holds_def)
  next
    case (2 Q R upd)
    then show ?thesis using sl_Insert_new[OF L(1)[unfolded 2(1)] 2(2-7), of v] L(2) unfolding sl_holds_def by blast
  qed
qed

subsection \<open>Deletion\<close>

lemma lower_level_ok:
  "1 \<le> lv \<Longrightarrow> 1 \<le> lower_level nodes lv \<and> lower_level nodes lv \<le> lv \<and> (\<forall>i. lower_level nodes lv \<le> i \<and> i < lv \<longrightarrow> sn_forward (nodes ! 0) ! i = None)"
  by (induction lv) (auto simp: less_Suc_eq)

lemma level_path:
  assumes rep: "sl_rep sl (Q @ r # R)" and i: "i < maxLevel"
  shows "\<exists>xs. 0 # tall (sl_nodes sl) i (Q @ r # R) = xs @ last (0 # tall (sl_nodes sl) i Q) # tall (sl_nodes sl) i (r # R) \<and>
    linked (sl_nodes sl) i (xs @ last (0 # tall (sl_nodes sl) i Q) # tall (sl_nodes sl) i (r # R)) \<and>
    distinct (xs @ last (0 # tall (sl_nodes sl) i Q) # tall (sl_nodes sl) i (r # R)) \<and>
    (\<forall>zs. 0 # tall (sl_nodes sl) i Q @ zs = xs @ last (0 # tall (sl_nodes sl) i Q) # zs)"
proof -
  let ?n = "sl_nodes sl"
  have split: "0 # tall ?n i Q @ zs = butlast (0 # tall ?n i Q) @ last (0 # tall ?n i Q) # zs" for zs
  proof -
    have "(butlast (0 # tall ?n i Q) @ [last (0 # tall ?n i Q)]) @ zs = (0 # tall ?n i Q) @ zs" by (subst append_butlast_last_id) simp_all
    then show ?thesis by simp
  qed
  have "distinct (0 # tall ?n i (Q @ r # R))" using sl_repD(5)[OF rep] by auto
  then show ?thesis using sl_repD(12)[OF rep i] split unfolding filter_append by (intro exI[of _ "butlast (0 # tall ?n i Q)"]) metis
qed

lemma sl_unlink:
  assumes rep: "sl_rep sl (Q @ r # R)" and upd: "length upd = maxLevel"
      "\<forall>i<maxLevel. upd ! i = (if i < sl_level sl then Some (last (0 # tall (sl_nodes sl) i Q)) else None)"
  shows "\<exists>nodes'. unlink r upd [0..<sl_level sl] (sl_nodes sl) = Some nodes' \<and> same_shape (sl_nodes sl) nodes' \<and>
    (\<forall>i<maxLevel. linked nodes' i (0 # tall (sl_nodes sl) i (Q @ R)))"
proof -
  let ?n = "sl_nodes sl"
  define w where "w i = last (0 # tall ?n i Q)" for i
  have r: "r \<in> set (Q @ r # R)" by simp
  note hr = sl_repD(7,8,9)[OF rep r]
  have lv: "sl_level sl \<le> maxLevel" using sl_repD(2)[OF rep] .
  have u: "upd ! i = Some (w i)" if "i < sl_level sl" for i using upd(2) that lv by (simp add: w_def)
  have wr: "w i \<noteq> r" for i using last_tall(3)[of sl Q "r # R" i, OF rep, folded w_def] sl_repD(5)[OF rep] by auto
  have next_w: "forward_at ?n (w i) i = Some (case tall ?n i (r # R) of [] \<Rightarrow> None | b # _ \<Rightarrow> Some b)" if "i < maxLevel" for i
    using level_path[OF rep that] linked_next unfolding w_def by metis
  have list: "[0..<sl_level sl] = [0..<hgt ?n r] @ [hgt ?n r..<sl_level sl]" using hr(3) by (metis le_add_diff_inverse upt_add_eq_append zero_le)
  have "\<exists>nodes'. unlink r upd ([0..<hgt ?n r] @ [hgt ?n r..<sl_level sl]) ?n = Some nodes' \<and> same_shape ?n nodes' \<and>
    (\<forall>a i. forward_at nodes' a i = (if i \<in> set [0..<hgt ?n r] \<and> a = the (upd ! i) then forward_at ?n r i else forward_at ?n a i))"
  proof (rule unlink_forward)
    show "\<forall>i\<in>set [0..<hgt ?n r]. i < length upd \<and> (\<exists>u. upd ! i = Some u \<and> u \<noteq> r \<and> forward_at ?n u i = Some (Some r)) \<and> i < hgt ?n r"
    proof
      fix i assume "i \<in> set [0..<hgt ?n r]"
      then have i: "i < hgt ?n r" "i < sl_level sl" "i < maxLevel" using hr(3) lv by auto
      then show "i < length upd \<and> (\<exists>u. upd ! i = Some u \<and> u \<noteq> r \<and> forward_at ?n u i = Some (Some r)) \<and> i < hgt ?n r"
        using u[OF i(2)] wr[of i] next_w[OF i(3)] upd(1) by simp
    qed
    show "hd [hgt ?n r..<sl_level sl] \<notin> set [0..<hgt ?n r] \<and> hd [hgt ?n r..<sl_level sl] < length upd \<and>
      (\<exists>u p. upd ! hd [hgt ?n r..<sl_level sl] = Some u \<and> forward_at ?n u (hd [hgt ?n r..<sl_level sl]) = Some p \<and> p \<noteq> Some r)"
      if "[hgt ?n r..<sl_level sl] \<noteq> []"
    proof -
      have i: "hgt ?n r < sl_level sl" "hgt ?n r < maxLevel" using that lv by auto
      have "(case tall ?n (hgt ?n r) R of [] \<Rightarrow> None | b # _ \<Rightarrow> Some b) \<noteq> Some r"
      proof (cases "tall ?n (hgt ?n r) R")
        case (Cons b bs)
        then have "b \<in> set (tall ?n (hgt ?n r) R)" by simp
        then have "b \<noteq> r" by auto
        then show ?thesis using Cons by simp
      qed simp
      then have "forward_at ?n (w (hgt ?n r)) (hgt ?n r) = Some (case tall ?n (hgt ?n r) R of [] \<Rightarrow> None | b # _ \<Rightarrow> Some b)"
          "(case tall ?n (hgt ?n r) R of [] \<Rightarrow> None | b # _ \<Rightarrow> Some b) \<noteq> Some r"
        using next_w[OF i(2)] by simp_all
      then show ?thesis using i u[OF i(1)] upd(1) by (simp add: hd_upt)
    qed
  qed (use hr in auto)
  then obtain nodes' where n': "unlink r upd [0..<sl_level sl] ?n = Some nodes'" "same_shape ?n nodes'"
    "\<And>a i. forward_at nodes' a i = (if i < hgt ?n r \<and> a = the (upd ! i) then forward_at ?n r i else forward_at ?n a i)"
    unfolding list by auto
  have "linked nodes' i (0 # tall ?n i (Q @ R))" if i: "i < maxLevel" for i
  proof -
    obtain xs where xs: "0 # tall ?n i (Q @ r # R) = xs @ w i # tall ?n i (r # R)" "linked ?n i (xs @ w i # tall ?n i (r # R))"
        "distinct (xs @ w i # tall ?n i (r # R))" "\<forall>zs. 0 # tall ?n i Q @ zs = xs @ w i # zs"
      using level_path[OF rep i] unfolding w_def[symmetric] by blast
    show ?thesis
    proof (cases "i < hgt ?n r")
      case True
      have "linked nodes' i (xs @ w i # tall ?n i R)"
        by (rule linked_remove[of ?n i xs "w i" r "tall ?n i R"]) (use xs(2,3) True n'(3)[of _ i] u[of i] hr(3) in auto)
      then show ?thesis using xs(4) by (simp only: filter_append)
    next
      case False
      have "linked nodes' i (xs @ w i # tall ?n i (r # R))" by (rule linked_frame[OF xs(2)]) (simp add: n'(3) False)
      then have "linked nodes' i (xs @ w i # tall ?n i R)" using False by simp
      then show ?thesis using xs(4) by (simp only: filter_append)
    qed
  qed
  then show ?thesis using n'(1,2) by blast
qed

lemma sl_Delete_found:
  assumes rep: "sl_rep sl (Q @ r # R)" and p: "sn_key (sl_nodes sl ! r) = key"
      "descend (sl_nodes sl) key (sl_level sl) 0 (replicate maxLevel None) = Some (last (0 # Q), upd)" "length upd = maxLevel"
      "\<forall>i<maxLevel. upd ! i = (if i < sl_level sl then Some (last (0 # tall (sl_nodes sl) i Q)) else None)"
      "forward_at (sl_nodes sl) (last (0 # Q)) 0 = Some (Some r)"
  shows "\<exists>sl'. sl_Delete key sl = Some (True, sl') \<and> sl_rep sl' (Q @ R) \<and> sl_items sl' (Q @ R) = sl_items sl (Q @ R)"
proof -
  let ?n = "sl_nodes sl"
  obtain nodes' where n': "unlink r upd [0..<sl_level sl] ?n = Some nodes'" "same_shape ?n nodes'"
    "\<And>i. i < maxLevel \<Longrightarrow> linked nodes' i (0 # tall ?n i (Q @ R))" using sl_unlink[OF rep p(3,4)] by blast
  define l where "l = lower_level nodes' (sl_level sl)"
  define sl' where "sl' = sl\<lparr>sl_nodes := nodes', sl_level := l, sl_size := sl_size sl - 1\<rparr>"
  have sh: "length nodes' = length ?n" "\<And>a. sn_key (nodes' ! a) = sn_key (?n ! a)" "\<And>a. sn_value (nodes' ! a) = sn_value (?n ! a)" "\<And>a. hgt nodes' a = hgt ?n a"
    using n'(2) by (auto simp: same_shape_def)
  have l: "1 \<le> l" "l \<le> sl_level sl" "\<And>i. l \<le> i \<Longrightarrow> i < sl_level sl \<Longrightarrow> sn_forward (nodes' ! 0) ! i = None"
    using lower_level_ok[OF sl_repD(1)[OF rep], of nodes'] by (auto simp: l_def)
  have "hgt ?n a \<le> l" if a: "a \<in> set (Q @ R)" for a
  proof (rule ccontr)
    assume "\<not> hgt ?n a \<le> l"
    then have i: "l \<le> hgt ?n a - 1" "hgt ?n a - 1 < sl_level sl" "hgt ?n a - 1 < maxLevel" "hgt ?n a - 1 < hgt ?n a"
      using sl_repD(9)[OF rep, of a] a sl_repD(2)[OF rep] l(1) by auto
    have "tall ?n (hgt ?n a - 1) (Q @ R) \<noteq> []" using a i(4) by (auto simp: filter_empty_conv)
    then have "forward_at nodes' 0 (hgt ?n a - 1) \<noteq> Some None" using n'(3)[OF i(3)] by (cases "tall ?n (hgt ?n a - 1) (Q @ R)") auto
    moreover have "0 < length nodes'" "hgt nodes' 0 = maxLevel" using sl_repD(3,4)[OF rep] sh by auto
    ultimately show False using l(3)[OF i(1,2)] i(3) by (simp add: forward_at_def)
  qed
  moreover have "sl_Delete key sl = Some (True, sl')" using p n'(1) by (simp add: sl_Delete_def sl'_def l_def)
  moreover have "sorted_wrt blt (map (\<lambda>a. sn_key (?n ! a)) (Q @ R))" using sl_repD(11)[OF rep] by (auto simp: sorted_wrt_append)
  moreover have "distinct (Q @ R)" using sl_repD(5)[OF rep] by auto
  moreover have "0 < a" "a < length ?n" "0 < hgt ?n a" "sn_value (?n ! a) \<noteq> None" if "a \<in> set (Q @ R)" for a
    using that sl_repD(6,7,8,10)[OF rep, of a] by auto
  ultimately show ?thesis using l(1,2) sl_repD(2,3,4,13)[OF rep] n'(3) sh
    by (intro exI[of _ sl']) (auto simp: sl_rep_def sl'_def sl_items_def Suc_le_eq)
qed

lemma sl_Delete_ok:
  assumes "sl_holds sl es"
  shows "\<exists>sl'. sl_Delete key sl = Some (map_of es key \<noteq> None, sl') \<and> sl_holds sl' (filter (\<lambda>e. fst e \<noteq> key) es)"
proof -
  obtain L where L: "sl_rep sl L" "sl_items sl L = es" using assms by (auto simp: sl_holds_def)
  have id: "filter (\<lambda>e. fst e \<noteq> key) (map (sl_entry sl) xs) = map (sl_entry sl) xs" if "\<forall>a\<in>set xs. sn_key (sl_nodes sl ! a) \<noteq> key" for xs
    by (rule filter_True) (use that in auto)
  show ?thesis
  proof (cases rule: sl_cases[OF L(1), of key])
    case (1 Q r R upd)
    obtain sl' where "sl_Delete key sl = Some (True, sl')" "sl_rep sl' (Q @ R)" "sl_items sl' (Q @ R) = sl_items sl (Q @ R)"
      using sl_Delete_found[OF L(1)[unfolded 1(1)] 1(2-6)] by blast
    moreover have "\<forall>a\<in>set Q. sn_key (sl_nodes sl ! a) \<noteq> key" "\<forall>a\<in>set R. sn_key (sl_nodes sl ! a) \<noteq> key" using 1(7,8) by auto
    then have "filter (\<lambda>e. fst e \<noteq> key) es = sl_items sl (Q @ R)" using L(2) 1(1,2) id by (auto simp: sl_items_def)
    moreover have "map_of es key \<noteq> None" using L(2) 1(1,2) by (auto simp: sl_items_def map_of_eq_None_iff)
    ultimately show ?thesis by (auto simp: sl_holds_def)
  next
    case (2 Q R upd)
    have ne: "\<forall>a\<in>set L. sn_key (sl_nodes sl ! a) \<noteq> key" using 2(1,6,7) by auto
    then have "map_of es key = None" using L(2) by (auto simp: sl_items_def map_of_eq_None_iff)
    moreover have "filter (\<lambda>e. fst e \<noteq> key) es = es" using id[OF ne] L(2) by (simp add: sl_items_def)
    moreover have "sl_Delete key sl = Some (False, sl)" using 2 by (cases R) (auto simp: sl_Delete_def)
    ultimately show ?thesis using assms by auto
  qed
qed

end
