(* ===== verification/MemTable.thy ===== *)
theory MemTable
  imports SkipList
begin

text \<open>
  \<^verbatim>\<open>pkg/lsm/memtable.go\<close>: the in-memory table over the skip list. A nil byte slice and an empty one are both the empty list. The
  locale \<open>sorted_table\<close> is what a table promises of insertion and lookup; the skip list and the memtable provide it.
\<close>

subsection \<open>Interface: a sorted table\<close>

locale sorted_table =
  fixes ins :: "bytes \<Rightarrow> 'v \<Rightarrow> 's \<Rightarrow> 's option"
    and find :: "bytes \<Rightarrow> 's \<Rightarrow> 'v option option"
    and holds :: "'s \<Rightarrow> (bytes \<times> 'v) list \<Rightarrow> bool"
  assumes ins_holds: "holds s es \<Longrightarrow> \<exists>s'. ins k v s = Some s' \<and> holds s' (sorted_put k v es)"
    and find_holds: "holds s es \<Longrightarrow> find k s = Some (map_of es k)"
    and holds_sorted: "holds s es \<Longrightarrow> sorted_wrt blt (map fst es)"
begin

lemma holds_ins: "holds s es \<Longrightarrow> ins k v s = Some s' \<Longrightarrow> holds s' (sorted_put k v es)"
  using ins_holds[of s es k v] by auto

lemma find_after_ins:
  assumes "holds s es" "ins k v s = Some s'"
  shows "find k' s' = Some (if k' = k then Some v else map_of es k')"
  using find_holds[OF holds_ins[OF assms]] map_of_sorted_put[OF holds_sorted[OF assms(1)]] by simp

lemma holds_keys_distinct: "holds s es \<Longrightarrow> distinct (map fst es)"
  by (drule holds_sorted, rule sorted_wrt_blt_distinct)

end

interpretation slt: sorted_table sl_Insert sl_Search sl_holds
  by unfold_locales (auto intro: sl_Insert_ok sl_Search_ok sl_holds_sorted)

subsection \<open>Memtable\<close>

record MemTableEntry =
  me_Key :: bytes
  me_Value :: bytes
  me_Timestamp :: u64
  me_Deleted :: bool

record MemTable =
  mt_skipList :: "MemTableEntry SkipList"
  mt_size :: int
  mt_maxSize :: int

definition NewMemTable :: "(nat \<Rightarrow> bool) \<Rightarrow> int \<Rightarrow> MemTable" where
  "NewMemTable random maxSize = \<lparr>mt_skipList = NewSkipList random, mt_size = 0, mt_maxSize = maxSize\<rparr>"

definition mt_Put :: "bytes \<Rightarrow> bytes \<Rightarrow> u64 \<Rightarrow> MemTable \<Rightarrow> MemTable option" where
  "mt_Put key val timestamp mt =
     (let entry = \<lparr>me_Key = key, me_Value = val, me_Timestamp = timestamp, me_Deleted = False\<rparr>
      in case sl_Insert key entry (mt_skipList mt) of
           None \<Rightarrow> None
         | Some sl \<Rightarrow> Some (mt\<lparr>mt_skipList := sl, mt_size := mt_size mt + (int (length key) + int (length val) + 16)\<rparr>))"

definition mt_Get :: "bytes \<Rightarrow> MemTable \<Rightarrow> MemTableEntry option option" where
  "mt_Get key mt = sl_Search key (mt_skipList mt)"

definition mt_Delete :: "bytes \<Rightarrow> u64 \<Rightarrow> MemTable \<Rightarrow> MemTable option" where
  "mt_Delete key timestamp mt =
     (let entry = \<lparr>me_Key = key, me_Value = [], me_Timestamp = timestamp, me_Deleted = True\<rparr>
      in case sl_Insert key entry (mt_skipList mt) of
           None \<Rightarrow> None
         | Some sl \<Rightarrow> Some (mt\<lparr>mt_skipList := sl, mt_size := mt_size mt + (int (length key) + 16)\<rparr>))"

definition IsFull :: "MemTable \<Rightarrow> bool" where
  "IsFull mt = (mt_size mt \<ge> mt_maxSize mt)"

text \<open>
  The iterator starts at the head and each \<open>Next\<close> follows the forward pointer of level 0; \<open>mt_iterate\<close> is
  the loop \<^verbatim>\<open>for iter.Next() { entry := iter.Entry() ... }\<close>.
\<close>

definition iter_Next :: "MemTableEntry SkipListNode list \<Rightarrow> nat option \<Rightarrow> (bool \<times> nat option) option" where
  "iter_Next nodes current =
     (case current of
        None \<Rightarrow> Some (False, None)
      | Some c \<Rightarrow> (case forward_at nodes c 0 of None \<Rightarrow> None | Some p \<Rightarrow> Some (p \<noteq> None, p)))"

definition iter_Entry :: "MemTableEntry SkipListNode list \<Rightarrow> nat option \<Rightarrow> MemTableEntry option" where
  "iter_Entry nodes current = (case current of None \<Rightarrow> None | Some c \<Rightarrow> sn_value (nodes ! c))"

fun iter_loop :: "nat \<Rightarrow> MemTableEntry SkipListNode list \<Rightarrow> nat option \<Rightarrow> MemTableEntry option list option" where
  "iter_loop 0 nodes current = None"
| "iter_loop (Suc fuel) nodes current =
     (case iter_Next nodes current of
        None \<Rightarrow> None
      | Some (False, _) \<Rightarrow> Some []
      | Some (True, c) \<Rightarrow> map_option (\<lambda>es. iter_Entry nodes c # es) (iter_loop fuel nodes c))"

definition mt_iterate :: "MemTable \<Rightarrow> MemTableEntry option list option" where
  "mt_iterate mt = iter_loop (length (sl_nodes (mt_skipList mt))) (sl_nodes (mt_skipList mt)) (Some 0)"

subsection \<open>Correctness\<close>

text \<open>\<open>mt_holds\<close>: the entries of the table in key order, each under its own key.\<close>

definition mt_holds :: "MemTable \<Rightarrow> (bytes \<times> MemTableEntry) list \<Rightarrow> bool" where
  "mt_holds mt es \<longleftrightarrow> sl_holds (mt_skipList mt) es \<and> (\<forall>x\<in>set es. me_Key (snd x) = fst x)"

lemma set_sorted_put: "set (sorted_put k v es) \<subseteq> insert (k, v) (set es)"
  by (induction es) auto

lemma mt_insert:
  assumes "mt_holds mt es" "me_Key e = k"
  shows "\<exists>sl. sl_Insert k e (mt_skipList mt) = Some sl \<and> (\<forall>n. mt_holds (mt\<lparr>mt_skipList := sl, mt_size := n\<rparr>) (sorted_put k e es))"
proof -
  have "sl_holds (mt_skipList mt) es" using assms(1) by (simp add: mt_holds_def)
  from slt.ins_holds[OF this, of k e] obtain sl where sl: "sl_Insert k e (mt_skipList mt) = Some sl" "sl_holds sl (sorted_put k e es)" by blast
  have "\<forall>x\<in>set (sorted_put k e es). me_Key (snd x) = fst x"
  proof
    fix x assume "x \<in> set (sorted_put k e es)"
    then have "x = (k, e) \<or> x \<in> set es" using set_sorted_put[of k e es] by blast
    then show "me_Key (snd x) = fst x" using assms by (auto simp: mt_holds_def)
  qed
  then show ?thesis using sl by (simp add: mt_holds_def)
qed

lemma mt_Put_ok:
  assumes "mt_holds mt es"
  shows "\<exists>mt'. mt_Put k v ts mt = Some mt' \<and> mt_holds mt' (sorted_put k \<lparr>me_Key = k, me_Value = v, me_Timestamp = ts, me_Deleted = False\<rparr> es)"
  using mt_insert[OF assms, of "\<lparr>me_Key = k, me_Value = v, me_Timestamp = ts, me_Deleted = False\<rparr>" k] by (auto simp: mt_Put_def)

lemma mt_Delete_ok:
  assumes "mt_holds mt es"
  shows "\<exists>mt'. mt_Delete k ts mt = Some mt' \<and> mt_holds mt' (sorted_put k \<lparr>me_Key = k, me_Value = [], me_Timestamp = ts, me_Deleted = True\<rparr> es)"
  using mt_insert[OF assms, of "\<lparr>me_Key = k, me_Value = [], me_Timestamp = ts, me_Deleted = True\<rparr>" k] by (auto simp: mt_Delete_def)

lemma mt_Get_ok: "mt_holds mt es \<Longrightarrow> mt_Get k mt = Some (map_of es k)"
  by (simp add: mt_Get_def mt_holds_def slt.find_holds)

lemma NewMemTable_holds: "mt_holds (NewMemTable r n) []"
  by (simp add: mt_holds_def NewMemTable_def NewSkipList_holds)

lemma mt_holds_sorted: "mt_holds mt es \<Longrightarrow> sorted_wrt blt (map fst es)"
  unfolding mt_holds_def by (blast intro: slt.holds_sorted)

lemma iter_loop_ok:
  assumes "linked nodes 0 (a # xs)" "length xs < fuel"
  shows "iter_loop fuel nodes (Some a) = Some (map (\<lambda>x. sn_value (nodes ! x)) xs)"
  using assms
proof (induction fuel arbitrary: a xs)
  case (Suc fuel)
  then show ?case by (cases xs) (auto simp: iter_Next_def iter_Entry_def)
qed simp

lemma mt_iterate_ok:
  assumes "mt_holds mt es" shows "mt_iterate mt = Some (map (Some \<circ> snd) es)"
proof -
  obtain L where L: "sl_rep (mt_skipList mt) L" "sl_items (mt_skipList mt) L = es" using assms by (auto simp: mt_holds_def sl_holds_def)
  let ?n = "sl_nodes (mt_skipList mt)"
  have all: "tall ?n 0 L = L" using sl_repD(8)[OF L(1)] by (simp add: filter_id_conv)
  have "linked ?n 0 (0 # L)" using sl_repD(12)[OF L(1), of 0] unfolding all by (simp add: maxLevel_def)
  moreover have "length (0 # L) \<le> length ?n" by (rule length_le_nodes[OF sl_repD(5)[OF L(1)]]) (use sl_repD(3,7)[OF L(1)] in auto)
  ultimately have "mt_iterate mt = Some (map (\<lambda>x. sn_value (?n ! x)) L)" by (simp add: mt_iterate_def iter_loop_ok)
  also have "map (\<lambda>x. sn_value (?n ! x)) L = map (Some \<circ> snd) es" using sl_repD(10)[OF L(1)] by (auto simp: L(2)[symmetric] sl_items_def)
  finally show ?thesis .
qed

subsection \<open>Runs\<close>

datatype mt_op = MtPut bytes bytes u64 | MtDelete bytes u64

fun mt_op_entry :: "mt_op \<Rightarrow> MemTableEntry" where
  "mt_op_entry (MtPut k v ts) = \<lparr>me_Key = k, me_Value = v, me_Timestamp = ts, me_Deleted = False\<rparr>"
| "mt_op_entry (MtDelete k ts) = \<lparr>me_Key = k, me_Value = [], me_Timestamp = ts, me_Deleted = True\<rparr>"

fun mt_step :: "mt_op \<Rightarrow> MemTable \<Rightarrow> MemTable option" where
  "mt_step (MtPut k v ts) mt = mt_Put k v ts mt"
| "mt_step (MtDelete k ts) mt = mt_Delete k ts mt"

fun mt_run :: "mt_op list \<Rightarrow> MemTable \<Rightarrow> MemTable option" where
  "mt_run [] mt = Some mt"
| "mt_run (x # xs) mt = (case mt_step x mt of None \<Rightarrow> None | Some mt' \<Rightarrow> mt_run xs mt')"

definition latest_entry :: "mt_op list \<Rightarrow> bytes \<Rightarrow> MemTableEntry option" where
  "latest_entry xs k = (case filter (\<lambda>e. me_Key e = k) (rev (map mt_op_entry xs)) of [] \<Rightarrow> None | e # _ \<Rightarrow> Some e)"

lemma mt_run_append: "mt_run (xs @ ys) mt = (case mt_run xs mt of None \<Rightarrow> None | Some mt' \<Rightarrow> mt_run ys mt')"
  by (induction xs arbitrary: mt) (auto split: option.split)

lemma mt_step_ok:
  assumes "mt_holds mt es"
  shows "\<exists>mt'. mt_step x mt = Some mt' \<and> mt_holds mt' (sorted_put (me_Key (mt_op_entry x)) (mt_op_entry x) es)"
  by (cases x) (simp_all add: mt_Put_ok[OF assms] mt_Delete_ok[OF assms])

lemma mt_run_ok:
  "\<exists>mt es. mt_run xs (NewMemTable r n) = Some mt \<and> mt_holds mt es \<and> (\<forall>k. map_of es k = latest_entry xs k)"
proof (induction xs rule: rev_induct)
  case Nil
  show ?case using NewMemTable_holds[of r n] by (intro exI[of _ "NewMemTable r n"] exI[of _ "[]"]) (simp add: latest_entry_def)
next
  case (snoc x xs)
  then obtain mt es where mt: "mt_run xs (NewMemTable r n) = Some mt" "mt_holds mt es" "\<forall>k. map_of es k = latest_entry xs k" by blast
  obtain mt' where mt': "mt_step x mt = Some mt'" "mt_holds mt' (sorted_put (me_Key (mt_op_entry x)) (mt_op_entry x) es)"
    using mt_step_ok[OF mt(2), of x] by blast
  have "map_of (sorted_put (me_Key (mt_op_entry x)) (mt_op_entry x) es) k = latest_entry (xs @ [x]) k" for k
    using map_of_sorted_put[OF mt_holds_sorted[OF mt(2)]] mt(3) by (simp add: latest_entry_def)
  then show ?case using mt(1) mt' by (auto simp: mt_run_append)
qed

text \<open>
  C12. Whatever levels the skip list draws, a run of \<open>Put\<close> and \<open>Delete\<close> calls on a new memtable returns; afterwards \<open>Get\<close> finds for each key
  the entry of the last call for it, a tombstone after a delete, and the iterator gives these entries once each in
  increasing key order.
\<close>

theorem memtable_refines_sorted_map:
  "\<exists>mt es. mt_run xs (NewMemTable random maxSize) = Some mt \<and> (\<forall>k. mt_Get k mt = Some (latest_entry xs k)) \<and>
     mt_iterate mt = Some (map Some es) \<and> sorted_wrt blt (map me_Key es) \<and> (\<forall>e. e \<in> set es \<longleftrightarrow> latest_entry xs (me_Key e) = Some e)"
proof -
  obtain mt es where mt: "mt_run xs (NewMemTable random maxSize) = Some mt" "mt_holds mt es" "\<forall>k. map_of es k = latest_entry xs k"
    using mt_run_ok by blast
  have keys: "map me_Key (map snd es) = map fst es" using mt(2) by (simp add: mt_holds_def)
  have "distinct (map fst es)" by (rule sorted_wrt_blt_distinct[OF mt_holds_sorted[OF mt(2)]])
  then have "e \<in> set (map snd es) \<longleftrightarrow> map_of es (me_Key e) = Some e" for e
    using mt(2) map_of_SomeD[of es "me_Key e" e] by (force simp: mt_holds_def)
  moreover have "sorted_wrt blt (map me_Key (map snd es))" unfolding keys by (rule mt_holds_sorted[OF mt(2)])
  ultimately show ?thesis
    using mt mt_Get_ok[OF mt(2)] mt_iterate_ok[OF mt(2)]
    by (intro exI[of _ mt] exI[of _ "map snd es"]) simp
qed

end
