(* ===== verification/Bloom.thy ===== *)
theory Bloom
  imports Prelude
begin

text \<open>
  \<^verbatim>\<open>pkg/lsm/bloom.go\<close>: the Bloom filter of a table, with the 64-bit FNV-1a hash of \<^verbatim>\<open>hash/fnv\<close>. \<open>None\<close> is a panic: a division by a zero
  size or an index outside the bit array.
\<close>

subsection \<open>Filter\<close>

record BloomFilter =
  bf_bits :: bytes
  bf_size :: nat
  bf_numHashes :: nat

definition NewBloomFilter :: "nat \<Rightarrow> nat \<Rightarrow> BloomFilter" where
  "NewBloomFilter expectedItems numHashes =
     (let size = expectedItems * 10; byteSize = (size + 7) div 8
      in \<lparr>bf_bits = replicate byteSize 0, bf_size = size, bf_numHashes = numHashes\<rparr>)"

definition fnv64a :: "bytes \<Rightarrow> u64" where
  "fnv64a bs = foldl (\<lambda>h b. (h XOR ucast b) * 1099511628211) 14695981039346656037 bs"

definition bf_hash :: "bytes \<Rightarrow> nat \<Rightarrow> u64" where
  "bf_hash key i = fnv64a key + of_nat i * fnv64a (key @ [of_nat i])"

definition set_bit_at :: "bytes \<Rightarrow> nat \<Rightarrow> bytes option" where
  "set_bit_at bits bitIndex =
     (let byteIndex = bitIndex div 8; bitOffset = bitIndex mod 8
      in if byteIndex < length bits then Some (bits[byteIndex := bits ! byteIndex OR push_bit bitOffset 1]) else None)"

definition test_bit_at :: "bytes \<Rightarrow> nat \<Rightarrow> bool option" where
  "test_bit_at bits bitIndex =
     (let byteIndex = bitIndex div 8; bitOffset = bitIndex mod 8
      in if byteIndex < length bits then Some (bits ! byteIndex AND push_bit bitOffset 1 \<noteq> 0) else None)"

definition bit_index :: "BloomFilter \<Rightarrow> bytes \<Rightarrow> nat \<Rightarrow> nat" where
  "bit_index bf key i = unat (bf_hash key i) mod bf_size bf"

fun add_bits :: "BloomFilter \<Rightarrow> bytes \<Rightarrow> nat list \<Rightarrow> BloomFilter option" where
  "add_bits bf key [] = Some bf"
| "add_bits bf key (i # is) =
     (if bf_size bf = 0 then None
      else case set_bit_at (bf_bits bf) (bit_index bf key i) of
             None \<Rightarrow> None
           | Some bits \<Rightarrow> add_bits (bf\<lparr>bf_bits := bits\<rparr>) key is)"

definition bf_Add :: "bytes \<Rightarrow> BloomFilter \<Rightarrow> BloomFilter option" where
  "bf_Add key bf = add_bits bf key [0..<bf_numHashes bf]"

fun contains_bits :: "BloomFilter \<Rightarrow> bytes \<Rightarrow> nat list \<Rightarrow> bool option" where
  "contains_bits bf key [] = Some True"
| "contains_bits bf key (i # is) =
     (if bf_size bf = 0 then None
      else case test_bit_at (bf_bits bf) (bit_index bf key i) of
             None \<Rightarrow> None
           | Some False \<Rightarrow> Some False
           | Some True \<Rightarrow> contains_bits bf key is)"

definition bf_Contains :: "bytes \<Rightarrow> BloomFilter \<Rightarrow> bool option" where
  "bf_Contains key bf = contains_bits bf key [0..<bf_numHashes bf]"

definition bf_Marshal :: "BloomFilter \<Rightarrow> bytes" where
  "bf_Marshal bf = le_bytes 4 (of_nat (bf_size bf) :: u32) @ le_bytes 4 (of_nat (bf_numHashes bf) :: u32) @ bf_bits bf"

definition UnmarshalBloomFilter :: "bytes \<Rightarrow> BloomFilter option" where
  "UnmarshalBloomFilter data =
     (if length data < 8 then None
      else Some \<lparr>bf_bits = drop 8 data, bf_size = unat (le_word (take 4 data) :: u32), bf_numHashes = unat (le_word (take 4 (drop 4 data)) :: u32)\<rparr>)"

subsection \<open>Bits\<close>

definition bf_wf :: "BloomFilter \<Rightarrow> bool" where
  "bf_wf bf \<longleftrightarrow> 0 < bf_size bf \<and> length (bf_bits bf) = (bf_size bf + 7) div 8"

definition bit_set :: "bytes \<Rightarrow> nat \<Rightarrow> bool" where
  "bit_set bits j \<longleftrightarrow> bit (bits ! (j div 8)) (j mod 8)"

lemma byte_index_bound: "bf_wf bf \<Longrightarrow> j < bf_size bf \<Longrightarrow> j div 8 < length (bf_bits bf)"
  by (simp add: bf_wf_def)

lemma test_bit_at_ok: "j div 8 < length bits \<Longrightarrow> test_bit_at bits j = Some (bit_set bits j)"
  by (simp add: test_bit_at_def bit_set_def and_exp_eq_0_iff_not_bit Let_def)

lemma set_bit_at_ok:
  assumes "j div 8 < length bits"
  shows "\<exists>bits'. set_bit_at bits j = Some bits' \<and> length bits' = length bits \<and> (\<forall>k. k div 8 < length bits \<longrightarrow> bit_set bits' k \<longleftrightarrow> bit_set bits k \<or> k = j)"
proof -
  have "bit (bits ! (j div 8) OR push_bit (j mod 8) 1) (k mod 8) \<longleftrightarrow> bit (bits ! (j div 8)) (k mod 8) \<or> k = j" if "k div 8 = j div 8" for k
    using that mod_div_mult_eq[of k 8] mod_div_mult_eq[of j 8] by (auto simp: bit_or_iff push_bit_eq_mult bit_exp_iff possible_bit_def)
  then show ?thesis using assms by (auto simp: set_bit_at_def bit_set_def Let_def nth_list_update)
qed

lemma add_bits_ok:
  assumes "bf_wf bf"
  shows "\<exists>bits. add_bits bf key is = Some (bf\<lparr>bf_bits := bits\<rparr>) \<and> length bits = length (bf_bits bf) \<and>
    (\<forall>k<bf_size bf. bit_set bits k \<longleftrightarrow> bit_set (bf_bits bf) k \<or> k \<in> bit_index bf key ` set is)"
  using assms
proof (induction "is" arbitrary: bf)
  case Nil then show ?case by (intro exI[of _ "bf_bits bf"]) simp
next
  case (Cons i "is")
  have j: "bit_index bf key i < bf_size bf" using Cons.prems by (simp add: bit_index_def bf_wf_def)
  obtain bits where b: "set_bit_at (bf_bits bf) (bit_index bf key i) = Some bits" "length bits = length (bf_bits bf)"
      "\<forall>k. k div 8 < length (bf_bits bf) \<longrightarrow> bit_set bits k \<longleftrightarrow> bit_set (bf_bits bf) k \<or> k = bit_index bf key i"
    using set_bit_at_ok[OF byte_index_bound[OF Cons.prems j]] by blast
  have wf: "bf_wf (bf\<lparr>bf_bits := bits\<rparr>)" using Cons.prems b(2) by (simp add: bf_wf_def)
  have same: "bit_index (bf\<lparr>bf_bits := bits\<rparr>) key = bit_index bf key" by (simp add: bit_index_def fun_eq_iff)
  obtain bits' where "add_bits (bf\<lparr>bf_bits := bits\<rparr>) key is = Some (bf\<lparr>bf_bits := bits'\<rparr>)" "length bits' = length bits"
      "\<forall>k<bf_size bf. bit_set bits' k \<longleftrightarrow> bit_set bits k \<or> k \<in> bit_index bf key ` set is"
    using Cons.IH[OF wf] unfolding same by auto
  then show ?case using b Cons.prems byte_index_bound[OF Cons.prems] by (intro exI[of _ bits']) (auto simp: bf_wf_def)
qed

lemma contains_bits_ok:
  assumes "bf_wf bf" shows "contains_bits bf key is = Some (\<forall>i\<in>set is. bit_set (bf_bits bf) (bit_index bf key i))"
proof (induction "is")
  case (Cons i "is")
  have "bit_index bf key i < bf_size bf" using assms by (simp add: bit_index_def bf_wf_def)
  then show ?case using Cons assms test_bit_at_ok[OF byte_index_bound[OF assms]] by (auto simp: bf_wf_def split: bool.split)
qed simp

subsection \<open>No false negatives\<close>

text \<open>\<open>bf_holds bf K\<close>: a filter that reports every key of \<open>K\<close>.\<close>

definition bf_holds :: "BloomFilter \<Rightarrow> bytes set \<Rightarrow> bool" where
  "bf_holds bf K \<longleftrightarrow> bf_wf bf \<and> (\<forall>k\<in>K. \<forall>i<bf_numHashes bf. bit_set (bf_bits bf) (bit_index bf k i))"

lemma bf_holds_Contains: "bf_holds bf K \<Longrightarrow> k \<in> K \<Longrightarrow> bf_Contains k bf = Some True"
  by (simp add: bf_holds_def bf_Contains_def contains_bits_ok)

lemma bf_holds_Contains_total: "bf_holds bf K \<Longrightarrow> \<exists>b. bf_Contains k bf = Some b"
  by (simp add: bf_holds_def bf_Contains_def contains_bits_ok)

lemma NewBloomFilter_holds: "0 < n \<Longrightarrow> bf_holds (NewBloomFilter n h) {}"
  by (simp add: bf_holds_def bf_wf_def NewBloomFilter_def Let_def)

lemma bf_Add_holds:
  assumes "bf_holds bf K"
  shows "\<exists>bf'. bf_Add key bf = Some bf' \<and> bf_holds bf' (insert key K) \<and> bf_size bf' = bf_size bf \<and> bf_numHashes bf' = bf_numHashes bf \<and>
    length (bf_bits bf') = length (bf_bits bf)"
proof -
  have wf: "bf_wf bf" using assms by (simp add: bf_holds_def)
  obtain bits where b: "add_bits bf key [0..<bf_numHashes bf] = Some (bf\<lparr>bf_bits := bits\<rparr>)" "length bits = length (bf_bits bf)"
    "\<forall>k<bf_size bf. bit_set bits k \<longleftrightarrow> bit_set (bf_bits bf) k \<or> k \<in> bit_index bf key ` set [0..<bf_numHashes bf]"
    using add_bits_ok[OF wf] by blast
  have same: "bit_index (bf\<lparr>bf_bits := bits\<rparr>) = bit_index bf" by (simp add: bit_index_def fun_eq_iff)
  have lt: "bit_index bf k i < bf_size bf" for k i using wf by (simp add: bit_index_def bf_wf_def)
  have "bf_holds (bf\<lparr>bf_bits := bits\<rparr>) (insert key K)"
    using assms b(2,3) lt by (auto simp: bf_holds_def bf_wf_def same)
  then show ?thesis using b by (simp add: bf_Add_def)
qed

lemma Unmarshal_Marshal:
  assumes "bf_size bf < 2 ^ 32" "bf_numHashes bf < 2 ^ 32"
  shows "UnmarshalBloomFilter (bf_Marshal bf) = Some bf"
  using assms by (simp add: UnmarshalBloomFilter_def bf_Marshal_def unat_of_nat_small)

fun bf_AddAll :: "bytes list \<Rightarrow> BloomFilter \<Rightarrow> BloomFilter option" where
  "bf_AddAll [] bf = Some bf"
| "bf_AddAll (k # ks) bf = (case bf_Add k bf of None \<Rightarrow> None | Some bf' \<Rightarrow> bf_AddAll ks bf')"

text \<open>
  C23. A filter for up to 429,496,729 expected items, at least one, never loses a key: after adding any keys no panic occurs, and \<open>Contains\<close>
  is true for each of them, on the filter itself and on the filter read back from its serialization.
\<close>

theorem bloom_no_false_negatives:
  assumes "0 < expected" "expected * 10 < 2 ^ 32" "hashes < 2 ^ 32" "key \<in> set keys"
  shows "\<exists>bf. bf_AddAll keys (NewBloomFilter expected hashes) = Some bf \<and> bf_Contains key bf = Some True \<and>
    (\<exists>bf'. UnmarshalBloomFilter (bf_Marshal bf) = Some bf' \<and> bf_Contains key bf' = Some True)"
proof -
  have "\<exists>bf'. bf_AddAll ks bf = Some bf' \<and> bf_holds bf' (K \<union> set ks) \<and> bf_size bf' = bf_size bf \<and> bf_numHashes bf' = bf_numHashes bf"
    if "bf_holds bf K" for bf ks K
    using that
  proof (induction ks arbitrary: bf K)
    case (Cons k ks)
    obtain bf1 where 1: "bf_Add k bf = Some bf1" "bf_holds bf1 (insert k K)" "bf_size bf1 = bf_size bf" "bf_numHashes bf1 = bf_numHashes bf"
      using bf_Add_holds[OF Cons.prems] by blast
    from Cons.IH[OF 1(2)] 1 show ?case by auto
  qed simp
  from this[OF NewBloomFilter_holds[OF assms(1)], of keys] obtain bf where
    bf: "bf_AddAll keys (NewBloomFilter expected hashes) = Some bf" "bf_holds bf (set keys)" "bf_size bf = expected * 10" "bf_numHashes bf = hashes"
    by (auto simp: NewBloomFilter_def Let_def)
  then show ?thesis using bf_holds_Contains[OF bf(2) assms(4)] Unmarshal_Marshal[of bf] assms(2,3) by simp
qed

theorem bloom_no_false_negatives_witness:
  "\<exists>bf. bf_AddAll [[1, 2], [3]] (NewBloomFilter 10000 3) = Some bf \<and> bf_Contains [3] bf = Some True"
  using bloom_no_false_negatives[of 10000 3 "[3]" "[[1, 2], [3]]"] by auto

end
