(* ===== verification/SSTable.thy ===== *)
theory SSTable
  imports MemTable Bloom
begin

text \<open>
  \<^verbatim>\<open>pkg/lsm/sstable.go\<close>: tables of sorted entries on disk. A file is its bytes, an offset in it a 64-bit word; operations of the
  file system succeed, a read past the end of a file is an error value. \<open>None\<close> is a panic.
\<close>

subsection \<open>Readers\<close>

text \<open>\<^verbatim>\<open>io.ReadFull\<close> and \<^verbatim>\<open>binary.Read\<close>: no byte left is \<open>EOF\<close>, too few are \<open>UnexpectedEOF\<close>.\<close>

datatype sst_error = EOF | UnexpectedEOF | SeekError | ErrInvalidBloomFilter

definition ReadFull :: "nat \<Rightarrow> bytes \<Rightarrow> sst_error + bytes \<times> bytes" where
  "ReadFull n r =
     (if n = 0 then Inr ([], r) else if r = [] then Inl EOF else if length r < n then Inl UnexpectedEOF
      else Inr (take n r, drop n r))"

definition bind_read :: "'e + 'a \<times> bytes \<Rightarrow> ('a \<Rightarrow> bytes \<Rightarrow> 'e + 'b) \<Rightarrow> 'e + 'b" where
  "bind_read x f = (case x of Inl e \<Rightarrow> Inl e | Inr (a, r) \<Rightarrow> f a r)"

definition read_u32 :: "bytes \<Rightarrow> sst_error + u32 \<times> bytes" where
  "read_u32 r = bind_read (ReadFull 4 r) (\<lambda>b r. Inr (le_word b, r))"

definition read_u64 :: "bytes \<Rightarrow> sst_error + u64 \<times> bytes" where
  "read_u64 r = bind_read (ReadFull 8 r) (\<lambda>b r. Inr (le_word b, r))"

definition readByte :: "bytes \<Rightarrow> sst_error + byte \<times> bytes" where
  "readByte r = bind_read (ReadFull 1 r) (\<lambda>b r. Inr (hd b, r))"

text \<open>A length-prefixed byte string.\<close>

definition read_string :: "bytes \<Rightarrow> sst_error + bytes \<times> bytes" where
  "read_string r = bind_read (read_u32 r) (\<lambda>n r. ReadFull (unat n) r)"

definition readEntry :: "bytes \<Rightarrow> sst_error + MemTableEntry \<times> bytes" where
  "readEntry r =
     bind_read (read_string r) (\<lambda>key r.
     bind_read (read_string r) (\<lambda>val r.
     bind_read (read_u64 r) (\<lambda>timestamp r.
     bind_read (readByte r) (\<lambda>deletedByte r.
       Inr (\<lparr>me_Key = key, me_Value = val, me_Timestamp = timestamp, me_Deleted = (deletedByte = 1)\<rparr>, r)))))"

subsection \<open>Writer\<close>

record IndexEntry =
  ie_Key :: bytes
  ie_Offset :: u64

record SSTable =
  ss_path :: string
  ss_index :: "IndexEntry list"
  ss_bloomFilter :: BloomFilter
  ss_minKey :: bytes
  ss_maxKey :: bytes
  ss_numEntries :: nat
  ss_dataEnd :: u64

record SSTableWriter =
  sw_file :: bytes
  sw_path :: string
  sw_index :: "IndexEntry list"
  sw_bloomFilter :: BloomFilter
  sw_minKey :: bytes
  sw_maxKey :: bytes
  sw_numEntries :: nat
  sw_currentOffset :: u64
  sw_indexInterval :: int

definition sst_path :: "string \<Rightarrow> nat \<Rightarrow> string" where
  "sst_path dir sid = dir @ ''/sstable_'' @ itoa sid @ ''.sst''"

definition NewSSTableWriter :: "string \<Rightarrow> nat \<Rightarrow> int \<Rightarrow> SSTableWriter" where
  "NewSSTableWriter dir sid indexInterval =
     \<lparr>sw_file = [], sw_path = sst_path dir sid, sw_index = [], sw_bloomFilter = NewBloomFilter 10000 3, sw_minKey = [], sw_maxKey = [],
      sw_numEntries = 0, sw_currentOffset = 0, sw_indexInterval = indexInterval\<rparr>"

definition enc_string :: "bytes \<Rightarrow> bytes" where
  "enc_string s = le_bytes 4 (of_nat (length s) :: u32) @ s"

definition enc_entry :: "MemTableEntry \<Rightarrow> bytes" where
  "enc_entry e = enc_string (me_Key e) @ enc_string (me_Value e) @ le_bytes 8 (me_Timestamp e) @ [if me_Deleted e then 1 else 0]"

definition sw_Write :: "MemTableEntry \<Rightarrow> SSTableWriter \<Rightarrow> SSTableWriter option" where
  "sw_Write entry w =
     (let minKey = (if sw_minKey w = [] then me_Key entry else sw_minKey w)
      in case bf_Add (me_Key entry) (sw_bloomFilter w) of
           None \<Rightarrow> None
         | Some bf \<Rightarrow>
            let buf = enc_entry entry
            in if sw_indexInterval w = 0 then None
               else Some (w\<lparr>sw_minKey := minKey, sw_maxKey := me_Key entry, sw_bloomFilter := bf, sw_file := sw_file w @ buf,
                            sw_index := (if int (sw_numEntries w) mod sw_indexInterval w = 0
                                         then sw_index w @ [\<lparr>ie_Key = me_Key entry, ie_Offset = sw_currentOffset w\<rparr>] else sw_index w),
                            sw_currentOffset := sw_currentOffset w + of_nat (length buf), sw_numEntries := sw_numEntries w + 1\<rparr>))"

definition enc_index_entry :: "IndexEntry \<Rightarrow> bytes" where
  "enc_index_entry e = enc_string (ie_Key e) @ le_bytes 8 (ie_Offset e)"

definition footer :: "SSTableWriter \<Rightarrow> bytes" where
  "footer w =
     le_bytes 4 (of_nat (sw_numEntries w) :: u32) @ enc_string (sw_minKey w) @ enc_string (sw_maxKey w) @
     le_bytes 4 (of_nat (length (sw_index w)) :: u32) @ concat (map enc_index_entry (sw_index w)) @
     enc_string (bf_Marshal (sw_bloomFilter w))"

text \<open>The finished table and the content of its file.\<close>

definition Finalize :: "SSTableWriter \<Rightarrow> SSTable \<times> bytes" where
  "Finalize w =
     (\<lparr>ss_path = sw_path w, ss_index = sw_index w, ss_bloomFilter = sw_bloomFilter w, ss_minKey = sw_minKey w, ss_maxKey = sw_maxKey w,
       ss_numEntries = sw_numEntries w, ss_dataEnd = sw_currentOffset w\<rparr>,
      sw_file w @ footer w @ le_bytes 4 (of_nat (length (footer w)) :: u32))"

fun write_entries :: "MemTableEntry list \<Rightarrow> SSTableWriter \<Rightarrow> SSTableWriter option" where
  "write_entries [] w = Some w"
| "write_entries (e # es) w = (case sw_Write e w of None \<Rightarrow> None | Some w' \<Rightarrow> write_entries es w')"

subsection \<open>Opening a table\<close>

fun read_index :: "nat \<Rightarrow> bytes \<Rightarrow> sst_error + IndexEntry list \<times> bytes" where
  "read_index 0 r = Inr ([], r)"
| "read_index (Suc n) r =
     bind_read (read_string r) (\<lambda>key r.
     bind_read (read_u64 r) (\<lambda>off r.
     bind_read (read_index n r) (\<lambda>es r. Inr (\<lparr>ie_Key = key, ie_Offset = off\<rparr> # es, r))))"

definition OpenSSTable :: "string \<Rightarrow> bytes \<Rightarrow> sst_error + SSTable" where
  "OpenSSTable path file =
     (if length file < 4 then Inl SeekError
      else bind_read (read_u32 (drop (length file - 4) file)) (\<lambda>footerSize _.
        if length file < unat footerSize + 4 then Inl SeekError
        else let footerStart = length file - unat footerSize - 4
             in bind_read (read_u32 (drop footerStart file)) (\<lambda>numEntries r.
                bind_read (read_string r) (\<lambda>minKey r.
                bind_read (read_string r) (\<lambda>maxKey r.
                bind_read (read_u32 r) (\<lambda>numIndexEntries r.
                bind_read (read_index (unat numIndexEntries) r) (\<lambda>indexEntries r.
                bind_read (read_string r) (\<lambda>bloomData r.
                  case UnmarshalBloomFilter bloomData of
                    None \<Rightarrow> Inl ErrInvalidBloomFilter
                  | Some bloomFilter \<Rightarrow>
                     Inr \<lparr>ss_path = path, ss_index = indexEntries, ss_bloomFilter = bloomFilter, ss_minKey = minKey, ss_maxKey = maxKey,
                          ss_numEntries = unat numEntries, ss_dataEnd = of_nat footerStart\<rparr>))))))))"

subsection \<open>Lookup\<close>

text \<open>\<^verbatim>\<open>sort.Search\<close>: binary search between \<open>i\<close> and \<open>j\<close>.\<close>

function sort_search :: "(nat \<Rightarrow> bool) \<Rightarrow> nat \<Rightarrow> nat \<Rightarrow> nat" where
  "sort_search f i j =
     (if i < j then let h = (i + j) div 2 in if \<not> f h then sort_search f (h + 1) j else sort_search f i h else i)"
  by pat_completeness auto
termination
  by (relation "measure (\<lambda>(_, i, j). j - i)") auto

lemma ReadFull_length: "ReadFull n r = Inr (b, r') \<Longrightarrow> length r' + n = length r"
  by (auto simp: ReadFull_def split: if_splits)

lemma read_string_length: "read_string r = Inr (b, r') \<Longrightarrow> length r' < length r"
  by (auto simp: read_string_def read_u32_def bind_read_def split: sum.splits dest!: ReadFull_length)

lemma readEntry_length: "readEntry r = Inr (e, r') \<Longrightarrow> length r' < length r"
  by (auto simp: readEntry_def read_u64_def readByte_def bind_read_def split: sum.splits dest!: ReadFull_length read_string_length)

text \<open>The scan from an offset: \<open>pos\<close> is the position in the file and \<open>r\<close> what follows it.\<close>

function scan_table :: "int \<Rightarrow> int \<Rightarrow> bytes \<Rightarrow> bytes \<Rightarrow> sst_error + MemTableEntry option" where
  "scan_table dataEnd pos r key =
     (if pos \<ge> dataEnd then Inr None
      else case readEntry r of
             Inl EOF \<Rightarrow> Inr None
           | Inl e \<Rightarrow> Inl e
           | Inr (entry, r') \<Rightarrow>
              if bytes_compare (me_Key entry) key = 0 then Inr (Some entry)
              else if bytes_compare (me_Key entry) key > 0 then Inr None
              else scan_table dataEnd (pos + int (length r - length r')) r' key)"
  by pat_completeness auto
termination
  by (relation "measure (\<lambda>(_, _, r, _). length r)") (auto dest: readEntry_length)

definition sst_Get :: "bytes \<Rightarrow> SSTable \<Rightarrow> bytes \<Rightarrow> (sst_error + MemTableEntry option) option" where
  "sst_Get key sst file =
     (case bf_Contains key (ss_bloomFilter sst) of
        None \<Rightarrow> None
      | Some False \<Rightarrow> Some (Inr None)
      | Some True \<Rightarrow>
         if bytes_compare key (ss_minKey sst) < 0 \<or> bytes_compare key (ss_maxKey sst) > 0 then Some (Inr None)
         else let found = sort_search (\<lambda>i. bytes_compare (ie_Key (ss_index sst ! i)) key > 0) 0 (length (ss_index sst));
                  idx = (if found > 0 then found - 1 else found);
                  offset = (if idx < length (ss_index sst) then ie_Offset (ss_index sst ! idx) else 0)
              in Some (if sint offset < 0 then Inl SeekError
                       else scan_table (sint (ss_dataEnd sst)) (sint offset) (drop (unat offset) file) key))"

text \<open>The iterator: \<open>Next\<close> stops at the end of the data and at the first error.\<close>

function sst_iterate :: "int \<Rightarrow> int \<Rightarrow> bytes \<Rightarrow> MemTableEntry list" where
  "sst_iterate dataEnd pos r =
     (if pos \<ge> dataEnd then []
      else case readEntry r of
             Inl _ \<Rightarrow> []
           | Inr (entry, r') \<Rightarrow> entry # sst_iterate dataEnd (pos + int (length r - length r')) r')"
  by pat_completeness auto
termination
  by (relation "measure (\<lambda>(_, _, r). length r)") (auto dest: readEntry_length)

definition sst_entries :: "SSTable \<Rightarrow> bytes \<Rightarrow> MemTableEntry list" where
  "sst_entries sst file = sst_iterate (sint (ss_dataEnd sst)) 0 file"
section \<open>Correctness\<close>

subsection \<open>Entries as a codec\<close>

definition entry_ok :: "MemTableEntry \<Rightarrow> bool" where
  "entry_ok e \<longleftrightarrow> length (me_Key e) < 2 ^ 32 \<and> length (me_Value e) < 2 ^ 32"

definition decode_entry :: "bytes \<Rightarrow> (MemTableEntry \<times> bytes) option" where
  "decode_entry r = (case readEntry r of Inl _ \<Rightarrow> None | Inr x \<Rightarrow> Some x)"

named_theorems sst_readers

lemma bind_read_Inr [sst_readers]: "bind_read (Inr (a, r)) f = f a r"
  by (simp add: bind_read_def)

lemma ReadFull_append [sst_readers]: "length b = n \<Longrightarrow> ReadFull n (b @ r) = Inr (b, r)"
  by (cases "b = []") (auto simp: ReadFull_def)

lemma read_u32_append [sst_readers]: "read_u32 (le_bytes 4 w @ r) = Inr (w, r)"
  by (simp add: read_u32_def sst_readers)

lemma read_u64_append [sst_readers]: "read_u64 (le_bytes 8 w @ r) = Inr (w, r)"
  by (simp add: read_u64_def sst_readers)

lemma readByte_Cons [sst_readers]: "readByte (b # r) = Inr (b, r)"
  using ReadFull_append[of "[b]" 1 r] by (simp add: readByte_def sst_readers)

lemma read_string_append [sst_readers]: "length s < 2 ^ 32 \<Longrightarrow> read_string (enc_string s @ r) = Inr (s, r)"
  by (simp add: read_string_def enc_string_def sst_readers unat_of_nat_small)

lemma readEntry_append: "entry_ok e \<Longrightarrow> readEntry (enc_entry e @ r) = Inr (e, r)"
  by (simp add: readEntry_def enc_entry_def entry_ok_def sst_readers)

interpretation entries: byte_codec enc_entry decode_entry entry_ok
  by unfold_locales (simp_all add: decode_entry_def readEntry_append, simp add: enc_entry_def)

abbreviation enc_entries :: "MemTableEntry list \<Rightarrow> bytes" where
  "enc_entries es \<equiv> concat (map enc_entry es)"

declare sst_iterate.simps [simp del] scan_table.simps [simp del] sort_search.simps [simp del]

lemma enc_entry_neq_Nil [simp]: "enc_entry e \<noteq> []"
  by (simp add: enc_entry_def)

lemma before_end: "pos + int (length (enc_entries (e # es))) = dataEnd \<Longrightarrow> pos < dataEnd"
proof -
  have "int (length (enc_entry e)) \<noteq> 0" by simp
  then show "pos < dataEnd" if "pos + int (length (enc_entries (e # es))) = dataEnd" using that by (simp del: of_nat_eq_0_iff)
qed

lemma sst_iterate_step:
  assumes "entry_ok e" "pos < dataEnd"
  shows "sst_iterate dataEnd pos (enc_entry e @ r) = e # sst_iterate dataEnd (pos + int (length (enc_entry e))) r"
  using assms by (subst sst_iterate.simps) (simp add: readEntry_append)

lemma scan_table_step:
  assumes "entry_ok e" "pos < dataEnd"
  shows "scan_table dataEnd pos (enc_entry e @ r) key =
    (if me_Key e = key then Inr (Some e) else if blt key (me_Key e) then Inr None
     else scan_table dataEnd (pos + int (length (enc_entry e))) r key)"
  using assms by (subst scan_table.simps) (simp add: readEntry_append bytes_compare_pos)

lemma sst_iterate_append:
  assumes "\<forall>e\<in>set es. entry_ok e" "pos + int (length (enc_entries es)) = dataEnd"
  shows "sst_iterate dataEnd pos (enc_entries es @ r) = es"
  using assms
proof (induction es arbitrary: pos)
  case Nil then show ?case by (simp add: sst_iterate.simps)
next
  case (Cons e es)
  have "pos < dataEnd" using Cons.prems(2) by (rule before_end)
  then show ?case using Cons.IH[of "pos + int (length (enc_entry e))"] Cons.prems by (simp add: sst_iterate_step)
qed

abbreviation keyed :: "MemTableEntry list \<Rightarrow> (bytes \<times> MemTableEntry) list" where
  "keyed es \<equiv> map (\<lambda>e. (me_Key e, e)) es"

lemma scan_table_append:
  assumes "\<forall>e\<in>set es. entry_ok e" "pos + int (length (enc_entries es)) = dataEnd" "sorted_wrt blt (map me_Key es)"
  shows "scan_table dataEnd pos (enc_entries es @ r) key = Inr (map_of (keyed es) key)"
  using assms
proof (induction es arbitrary: pos)
  case Nil then show ?case by (simp add: scan_table.simps)
next
  case (Cons e es)
  have pos: "pos < dataEnd" using Cons.prems(2) by (rule before_end)
  have "map_of (keyed es) key = None" if "blt key (me_Key e)"
    using that Cons.prems(3) bytes_compare_trans[of key "me_Key e" key] by (auto simp: map_of_eq_None_iff)
  then show ?case using Cons.IH[of "pos + int (length (enc_entry e))"] Cons.prems pos by (simp add: scan_table_step)
qed

lemma sort_search_steps:
  "\<not> i < j \<Longrightarrow> sort_search f i j = i"
  "i < j \<Longrightarrow> f ((i + j) div 2) \<Longrightarrow> sort_search f i j = sort_search f i ((i + j) div 2)"
  "i < j \<Longrightarrow> \<not> f ((i + j) div 2) \<Longrightarrow> sort_search f i j = sort_search f ((i + j) div 2 + 1) j"
  by (subst sort_search.simps; simp add: Let_def)+

text \<open>The result is in range, and the predicate fails just before it.\<close>

lemma sort_search_spec:
  "i \<le> j \<Longrightarrow> i \<le> sort_search f i j \<and> sort_search f i j \<le> j \<and> (i < sort_search f i j \<longrightarrow> \<not> f (sort_search f i j - 1))"
proof (induction f i j rule: sort_search.induct)
  case (1 f i j)
  let ?h = "(i + j) div 2"
  consider "\<not> i < j" | "i < j" "f ?h" | "i < j" "\<not> f ?h" by blast
  then show ?case
  proof cases
    case 1 then show ?thesis using "1.prems" by (simp add: sort_search_steps)
  next
    case 2
    then have h: "i \<le> ?h" "?h \<le> j" by simp_all
    have "\<not> \<not> f ?h" using 2 by simp
    from "1.IH"(2)[OF 2(1) refl this h(1)] show ?thesis using h(2) by (auto simp: sort_search_steps(2)[of i j f, OF 2])
  next
    case 3
    then have h: "i \<le> ?h" "?h + 1 \<le> j" by simp_all
    define r where "r = sort_search f (?h + 1) j"
    have "?h + 1 \<le> r \<and> r \<le> j \<and> (?h + 1 < r \<longrightarrow> \<not> f (r - 1))" unfolding r_def by (rule "1.IH"(1)[OF 3(1) refl 3(2) h(2)])
    moreover have "sort_search f i j = r" using 3 by (simp add: r_def sort_search_steps(3))
    ultimately show ?thesis using h(1) 3(2) by (cases "r = ?h + 1") auto
  qed
qed
subsection \<open>What the writer produces\<close>

definition index_of :: "int \<Rightarrow> MemTableEntry list \<Rightarrow> IndexEntry list" where
  "index_of interval es =
     map (\<lambda>i. \<lparr>ie_Key = me_Key (es ! i), ie_Offset = of_nat (length (enc_entries (take i es)))\<rparr>)
       (filter (\<lambda>i. int i mod interval = 0) [0..<length es])"

definition first_key :: "MemTableEntry list \<Rightarrow> bytes" where
  "first_key es = (case es of [] \<Rightarrow> [] | e # _ \<Rightarrow> me_Key e)"

definition last_key :: "MemTableEntry list \<Rightarrow> bytes" where
  "last_key es = first_key (rev es)"

definition writer_inv :: "SSTableWriter \<Rightarrow> MemTableEntry list \<Rightarrow> bool" where
  "writer_inv w es \<longleftrightarrow> sw_file w = enc_entries es \<and> sw_index w = index_of (sw_indexInterval w) es \<and> sw_indexInterval w \<noteq> 0 \<and>
     bf_holds (sw_bloomFilter w) (me_Key ` set es) \<and> bf_size (sw_bloomFilter w) = 100000 \<and> bf_numHashes (sw_bloomFilter w) = 3 \<and>
     sw_minKey w = first_key es \<and> sw_maxKey w = last_key es \<and> sw_numEntries w = length es \<and>
     sw_currentOffset w = of_nat (length (enc_entries es)) \<and> (\<forall>e\<in>set es. me_Key e \<noteq> [])"

lemma index_of_snoc:
  "index_of n (es @ [e]) = index_of n es @
     (if int (length es) mod n = 0 then [\<lparr>ie_Key = me_Key e, ie_Offset = of_nat (length (enc_entries es))\<rparr>] else [])"
  by (auto simp: index_of_def nth_append)

lemma first_key_append: "\<forall>e\<in>set es. me_Key e \<noteq> [] \<Longrightarrow> first_key (es @ [e]) = (if first_key es = [] then me_Key e else first_key es)"
  by (cases es) (auto simp: first_key_def)

lemma last_key_snoc [simp]: "last_key (es @ [e]) = me_Key e"
  by (simp add: last_key_def first_key_def)

lemma NewSSTableWriter_inv: "n \<noteq> 0 \<Longrightarrow> writer_inv (NewSSTableWriter dir sid n) []"
  using NewBloomFilter_holds[of 10000 3]
  by (simp add: writer_inv_def NewSSTableWriter_def index_of_def first_key_def last_key_def NewBloomFilter_def Let_def)

lemma sw_Write_inv:
  assumes "writer_inv w es" "me_Key e \<noteq> []"
  shows "\<exists>w'. sw_Write e w = Some w' \<and> writer_inv w' (es @ [e]) \<and> sw_path w' = sw_path w \<and> sw_indexInterval w' = sw_indexInterval w"
proof -
  obtain bf where bf: "bf_Add (me_Key e) (sw_bloomFilter w) = Some bf" "bf_holds bf (insert (me_Key e) (me_Key ` set es))"
      "bf_size bf = bf_size (sw_bloomFilter w)" "bf_numHashes bf = bf_numHashes (sw_bloomFilter w)"
    using bf_Add_holds[of "sw_bloomFilter w" "me_Key ` set es" "me_Key e"] assms(1) unfolding writer_inv_def by blast
  show ?thesis
    using assms bf by (simp add: sw_Write_def writer_inv_def Let_def index_of_snoc first_key_append)
qed

lemma write_entries_inv:
  assumes "writer_inv w es" "\<forall>e\<in>set es'. me_Key e \<noteq> []"
  shows "\<exists>w'. write_entries es' w = Some w' \<and> writer_inv w' (es @ es') \<and> sw_path w' = sw_path w \<and> sw_indexInterval w' = sw_indexInterval w"
  using assms
proof (induction es' arbitrary: w es)
  case (Cons e es')
  from sw_Write_inv[OF Cons.prems(1), of e] Cons.prems(2) obtain w1 where
    1: "sw_Write e w = Some w1" "writer_inv w1 (es @ [e])" "sw_path w1 = sw_path w" "sw_indexInterval w1 = sw_indexInterval w" by auto
  from Cons.IH[OF 1(2)] Cons.prems(2) 1 show ?case by auto
qed simp

subsection \<open>What a table holds\<close>

definition table_ok :: "MemTableEntry list \<Rightarrow> bool" where
  "table_ok es \<longleftrightarrow> sorted_wrt blt (map me_Key es) \<and> (\<forall>e\<in>set es. entry_ok e \<and> me_Key e \<noteq> []) \<and> length (enc_entries es) < 2 ^ 63"

definition sst_holds :: "SSTable \<Rightarrow> bytes \<Rightarrow> MemTableEntry list \<Rightarrow> bool" where
  "sst_holds sst file es \<longleftrightarrow> table_ok es \<and> (\<exists>rest. file = enc_entries es @ rest) \<and> (\<exists>n. ss_index sst = index_of n es) \<and>
     bf_holds (ss_bloomFilter sst) (me_Key ` set es) \<and> ss_minKey sst = first_key es \<and> ss_maxKey sst = last_key es \<and>
     ss_dataEnd sst = of_nat (length (enc_entries es))"

definition build_table :: "string \<Rightarrow> nat \<Rightarrow> int \<Rightarrow> MemTableEntry list \<Rightarrow> (SSTable \<times> bytes) option" where
  "build_table dir sid interval es = map_option Finalize (write_entries es (NewSSTableWriter dir sid interval))"

lemma build_table_holds:
  assumes "table_ok es" "interval \<noteq> 0"
  shows "\<exists>sst file. build_table dir sid interval es = Some (sst, file) \<and> sst_holds sst file es \<and> ss_path sst = sst_path dir sid"
proof -
  have keys: "\<forall>e\<in>set es. me_Key e \<noteq> []" using assms(1) by (simp add: table_ok_def)
  obtain w where "write_entries es (NewSSTableWriter dir sid interval) = Some w" "writer_inv w es" "sw_path w = sst_path dir sid"
    using write_entries_inv[OF NewSSTableWriter_inv[OF assms(2), of dir sid] keys] by (auto simp: NewSSTableWriter_def)
  then show ?thesis using assms(1) by (auto simp: build_table_def Finalize_def sst_holds_def writer_inv_def)
qed

lemma small_offset: "n < 2 ^ 63 \<Longrightarrow> sint (of_nat n :: u64) = int n"
  by (simp add: signed_of_nat signed_take_bit_int_eq_self)

lemma first_key_least:
  assumes "table_ok es" "e \<in> set es" shows "\<not> blt (me_Key e) (first_key es)"
proof (cases es)
  case (Cons a as)
  then show ?thesis using assms bytes_compare_trans[of "me_Key e" "me_Key a" "me_Key e"] by (auto simp: table_ok_def first_key_def)
qed (use assms in simp)

lemma last_key_greatest:
  assumes "table_ok es" "e \<in> set es" shows "\<not> blt (last_key es) (me_Key e)"
proof (cases es rule: rev_cases)
  case (snoc as a)
  then show ?thesis using assms bytes_compare_trans[of "me_Key e" "me_Key a" "me_Key e"] by (auto simp: table_ok_def sorted_wrt_append)
qed (use assms in simp)
lemma enc_entries_split: "length (enc_entries (take i es)) + length (enc_entries (drop i es)) = length (enc_entries es)"
proof -
  have "enc_entries es = enc_entries (take i es) @ enc_entries (drop i es)"
    by (metis append_take_drop_id map_append concat_append)
  then show ?thesis by (metis length_append)
qed

lemma drop_enc_entries: "drop (length (enc_entries (take i es))) (enc_entries es @ r) = enc_entries (drop i es) @ r"
proof -
  have "enc_entries es @ r = enc_entries (take i es) @ enc_entries (drop i es) @ r"
    by (metis append_take_drop_id map_append concat_append append_assoc)
  then show ?thesis by simp
qed

lemma scan_from_entry:
  assumes "sst_holds sst file es" "key \<notin> me_Key ` set (take i es)"
  shows "scan_table (sint (ss_dataEnd sst)) (sint (of_nat (length (enc_entries (take i es))) :: u64))
           (drop (unat (of_nat (length (enc_entries (take i es))) :: u64)) file) key = Inr (map_of (keyed es) key)"
proof -
  let ?n = "length (enc_entries (take i es))"
  obtain r where f: "file = enc_entries es @ r" using assms(1) by (auto simp: sst_holds_def)
  have ok: "table_ok es" and e: "ss_dataEnd sst = of_nat (length (enc_entries es))" using assms(1) by (auto simp: sst_holds_def)
  have le: "?n \<le> length (enc_entries es)" using enc_entries_split[of i es] by linarith
  have n: "?n < 2 ^ 63" "length (enc_entries es) < 2 ^ 63" using ok le by (simp_all add: table_ok_def)
  have u: "unat (of_nat ?n :: u64) = ?n" using n(1) by (simp add: unat_of_nat_small)
  have "map_of (keyed es) key = map_of (keyed (take i es) @ keyed (drop i es)) key" by (metis append_take_drop_id map_append)
  also have "\<dots> = map_of (keyed (drop i es)) key"
  proof -
    have "map_of (keyed (take i es)) key = None" using assms(2) by (auto simp: map_of_eq_None_iff)
    then show ?thesis by (simp add: map_add_def split: option.split)
  qed
  finally have m: "map_of (keyed es) key = map_of (keyed (drop i es)) key" .
  have "\<forall>e\<in>set (drop i es). entry_ok e" "sorted_wrt blt (map me_Key (drop i es))"
    using ok by (auto simp: table_ok_def sorted_wrt_drop drop_map[symmetric] dest: in_set_dropD)
  moreover have "int ?n + int (length (enc_entries (drop i es))) = int (length (enc_entries es))" using enc_entries_split[of i es] by linarith
  ultimately have "scan_table (int (length (enc_entries es))) (int ?n) (enc_entries (drop i es) @ r) key = Inr (map_of (keyed (drop i es)) key)"
    by (intro scan_table_append)
  then show ?thesis by (simp only: e u f m drop_enc_entries small_offset[OF n(1)] small_offset[OF n(2)])
qed
lemma index_of_hd:
  assumes "0 < length (index_of n es)" shows "index_of n es ! 0 = \<lparr>ie_Key = me_Key (es ! 0), ie_Offset = 0\<rparr>"
proof -
  have "es \<noteq> []" using assms by (auto simp: index_of_def)
  then show ?thesis by (simp add: index_of_def upt_conv_Cons)
qed

lemma index_of_nth:
  assumes "j < length (index_of n es)"
  shows "\<exists>i<length es. index_of n es ! j = \<lparr>ie_Key = me_Key (es ! i), ie_Offset = of_nat (length (enc_entries (take i es)))\<rparr>"
proof -
  have "index_of n es ! j \<in> set (index_of n es)" using assms by simp
  then show ?thesis by (auto simp: index_of_def)
qed

text \<open>The index entry found points to an entry that no earlier entry shares the key with.\<close>

lemma offset_before_key:
  assumes "table_ok es" "found \<le> length (index_of n es)"
    "0 < found \<Longrightarrow> \<not> bytes_compare (ie_Key (index_of n es ! (found - 1))) key > 0"
  shows "\<exists>i. (if (if found > 0 then found - 1 else found) < length (index_of n es)
      then ie_Offset (index_of n es ! (if found > 0 then found - 1 else found)) else 0) = of_nat (length (enc_entries (take i es))) \<and>
    key \<notin> me_Key ` set (take i es)"
proof (cases "found = 0")
  case True
  then show ?thesis using index_of_hd[of n es] by (intro exI[of _ 0]) simp
next
  case False
  then have "found - 1 < length (index_of n es)" using assms(2) by simp
  from index_of_nth[OF this] obtain i where
    i: "i < length es" "index_of n es ! (found - 1) = \<lparr>ie_Key = me_Key (es ! i), ie_Offset = of_nat (length (enc_entries (take i es)))\<rparr>" by blast
  have "\<not> blt key (me_Key (es ! i))" using assms(3) False i(2) by (simp add: bytes_compare_pos)
  moreover have "blt (me_Key e) (me_Key (es ! i))" if e: "e \<in> set (take i es)" for e
  proof -
    obtain j where "j < i" "e = es ! j" using e i(1) by (auto simp: in_set_conv_nth)
    then show ?thesis using sorted_wrt_nth_less[of blt "map me_Key es" j i] i(1) assms(1) by (simp add: table_ok_def)
  qed
  ultimately show ?thesis using i(2) False \<open>found - 1 < length (index_of n es)\<close> by (intro exI[of _ i]) auto
qed

lemma sst_Get_holds:
  assumes h: "sst_holds sst file es"
  shows "sst_Get key sst file = Some (Inr (map_of (keyed es) key))"
proof -
  have ok: "table_ok es" and bf: "bf_holds (ss_bloomFilter sst) (me_Key ` set es)"
    and mm: "ss_minKey sst = first_key es" "ss_maxKey sst = last_key es" using h by (auto simp: sst_holds_def)
  obtain n where ix: "ss_index sst = index_of n es" using h by (auto simp: sst_holds_def)
  have absent: "map_of (keyed es) key = None" if "key \<notin> me_Key ` set es" using that by (auto simp: map_of_eq_None_iff)
  define found where "found = sort_search (\<lambda>i. bytes_compare (ie_Key (ss_index sst ! i)) key > 0) 0 (length (ss_index sst))"
  define idx where "idx = (if found > 0 then found - 1 else found)"
  have fr: "found \<le> length (ss_index sst)" "0 < found \<Longrightarrow> \<not> bytes_compare (ie_Key (ss_index sst ! (found - 1))) key > 0"
    using sort_search_spec[of 0 "length (ss_index sst)" "\<lambda>i. bytes_compare (ie_Key (ss_index sst ! i)) key > 0"] unfolding found_def by auto
  define off where "off = (if idx < length (ss_index sst) then ie_Offset (ss_index sst ! idx) else 0)"
  have "\<exists>i. off = of_nat (length (enc_entries (take i es))) \<and> key \<notin> me_Key ` set (take i es)"
    using offset_before_key[OF ok, of found n key] fr unfolding off_def idx_def ix by blast
  then obtain i where i: "off = of_nat (length (enc_entries (take i es)))" "key \<notin> me_Key ` set (take i es)" by blast
  have le: "length (enc_entries (take i es)) < 2 ^ 63" using enc_entries_split[of i es] ok by (simp add: table_ok_def)
  have pos: "\<not> sint off < 0" unfolding i(1) small_offset[OF le] by simp
  have body: "sst_Get key sst file =
    (case bf_Contains key (ss_bloomFilter sst) of
        None \<Rightarrow> None
      | Some False \<Rightarrow> Some (Inr None)
      | Some True \<Rightarrow> if blt key (first_key es) \<or> blt (last_key es) key then Some (Inr None) else Some (Inr (map_of (keyed es) key)))"
    using pos scan_from_entry[OF h i(2)]
    unfolding sst_Get_def Let_def found_def[symmetric] idx_def[symmetric] off_def[symmetric] i(1)[symmetric] mm bytes_compare_pos[of key]
    by (simp cong: option.case_cong bool.case_cong)
  show ?thesis
  proof (cases "key \<in> me_Key ` set es")
    case True
    then show ?thesis using bf_holds_Contains[OF bf True] first_key_least[OF ok] last_key_greatest[OF ok] by (auto simp: body)
  next
    case False
    obtain b where "bf_Contains key (ss_bloomFilter sst) = Some b" using bf_holds_Contains_total[OF bf] by blast
    then show ?thesis using absent[OF False] by (simp add: body split: bool.split)
  qed
qed

lemma sst_entries_holds: "sst_holds sst file es \<Longrightarrow> sst_entries sst file = es"
  by (auto simp: sst_holds_def sst_entries_def table_ok_def small_offset intro!: sst_iterate_append)
subsection \<open>Reopening a table\<close>

lemma read_index_append:
  "\<forall>e\<in>set ix. length (ie_Key e) < 2 ^ 32 \<Longrightarrow> read_index (length ix) (concat (map enc_index_entry ix) @ r) = Inr (ix, r)"
  by (induction ix) (simp_all add: enc_index_entry_def sst_readers)

lemma index_keys_small: "\<forall>e\<in>set es. entry_ok e \<Longrightarrow> \<forall>x\<in>set (index_of n es). length (ie_Key x) < 2 ^ 32"
  by (auto simp: index_of_def entry_ok_def)

lemma first_key_small: "\<forall>e\<in>set es. entry_ok e \<Longrightarrow> length (first_key es) < 2 ^ 32 \<and> length (last_key es) < 2 ^ 32"
  using hd_in_set[of es] hd_in_set[of "rev es"] by (auto simp: first_key_def last_key_def entry_ok_def split: list.split)

lemma OpenSSTable_Finalize:
  assumes w: "writer_inv w es" and ok: "\<forall>e\<in>set es. entry_ok e"
    and small: "length (footer w) < 2 ^ 32" "length (sw_index w) < 2 ^ 32" "length es < 2 ^ 32"
  shows "OpenSSTable (sw_path w) (snd (Finalize w)) = Inr (fst (Finalize w))"
proof -
  let ?f = "footer w" and ?file = "snd (Finalize w)" and ?n = "length (enc_entries es)"
  have fl: "?file = enc_entries es @ ?f @ le_bytes 4 (of_nat (length ?f) :: u32)" using w by (simp add: Finalize_def writer_inv_def)
  have len: "length ?file = ?n + length ?f + 4" by (simp add: fl)
  have size: "read_u32 (drop (length ?file - 4) ?file) = Inr (of_nat (length ?f), [])"
    using read_u32_append[of "of_nat (length ?f)" "[]"] by (simp add: len) (simp add: fl)
  have u: "unat (of_nat (length ?f) :: u32) = length ?f" using small(1) by (simp add: unat_of_nat_small)
  have start: "drop (length ?file - length ?f - 4) ?file = ?f @ le_bytes 4 (of_nat (length ?f) :: u32)" by (simp add: len) (simp add: fl)
  have bf: "bf_size (sw_bloomFilter w) = 100000" "bf_numHashes (sw_bloomFilter w) = 3" "bf_wf (sw_bloomFilter w)"
    using w by (simp_all add: writer_inv_def bf_holds_def)
  have bl: "length (bf_Marshal (sw_bloomFilter w)) < 2 ^ 32" using bf by (simp add: bf_Marshal_def bf_wf_def)
  have bm: "UnmarshalBloomFilter (bf_Marshal (sw_bloomFilter w)) = Some (sw_bloomFilter w)" using bf by (intro Unmarshal_Marshal) simp_all
  have ix: "\<forall>x\<in>set (sw_index w). length (ie_Key x) < 2 ^ 32" "length (sw_minKey w) < 2 ^ 32" "length (sw_maxKey w) < 2 ^ 32"
    using w index_keys_small[OF ok, of "sw_indexInterval w"] first_key_small[OF ok] by (simp_all add: writer_inv_def)
  have n: "unat (of_nat (length (sw_index w)) :: u32) = length (sw_index w)" "unat (of_nat (sw_numEntries w) :: u32) = sw_numEntries w"
    using small(2,3) w by (simp_all add: unat_of_nat_small writer_inv_def)
  have fs: "length ?file - length ?f - 4 = ?n" "\<not> length ?file < 4" "\<not> length ?file < length ?f + 4" by (simp_all add: len)
  have parts: "?f @ r = le_bytes 4 (of_nat (sw_numEntries w) :: u32) @ enc_string (sw_minKey w) @ enc_string (sw_maxKey w) @
     le_bytes 4 (of_nat (length (sw_index w)) :: u32) @ concat (map enc_index_entry (sw_index w)) @ enc_string (bf_Marshal (sw_bloomFilter w)) @ r" for r
    by (simp add: footer_def)
  have "OpenSSTable (sw_path w) ?file =
      Inr \<lparr>ss_path = sw_path w, ss_index = sw_index w, ss_bloomFilter = sw_bloomFilter w, ss_minKey = sw_minKey w, ss_maxKey = sw_maxKey w,
        ss_numEntries = sw_numEntries w, ss_dataEnd = of_nat ?n\<rparr>"
    unfolding OpenSSTable_def size bind_read_Inr u Let_def fs(1) if_not_P[OF fs(2)] if_not_P[OF fs(3)]
    unfolding start[unfolded fs(1)] parts read_u32_append bind_read_Inr read_string_append[OF ix(2)] read_string_append[OF ix(3)] n
      read_index_append[OF ix(1)] read_string_append[OF bl] bm option.case ..
  then show ?thesis using w by (simp add: Finalize_def writer_inv_def)
qed
lemma index_bytes_bound: "length (concat (map enc_index_entry (index_of n es))) \<le> length (enc_entries es)"
proof (induction es rule: rev_induct)
  case (snoc e es)
  have "length (enc_index_entry \<lparr>ie_Key = me_Key e, ie_Offset = x\<rparr>) \<le> length (enc_entry e)" for x
    by (simp add: enc_index_entry_def enc_entry_def enc_string_def)
  then show ?case using snoc by (simp add: index_of_snoc add_mono le_SucI trans_le_add1)
qed (simp add: index_of_def)

lemma entry_bytes_bound: "e \<in> set es \<Longrightarrow> 17 + length (me_Key e) + length (me_Value e) \<le> length (enc_entries es)"
  by (induction es) (auto simp: enc_entry_def enc_string_def)

lemma key_bytes_bound: "length (first_key es) \<le> length (enc_entries es) \<and> length (last_key es) \<le> length (enc_entries es)"
  using hd_in_set[of es] hd_in_set[of "rev es"] entry_bytes_bound[of "hd es" es] entry_bytes_bound[of "hd (rev es)" es]
  by (cases es; cases "rev es") (auto simp: first_key_def last_key_def)

lemma entries_number_bound: "length es \<le> length (enc_entries es)"
proof (induction es)
  case (Cons e es) then show ?case by (cases "enc_entry e") simp_all
qed simp

lemma index_of_length: "length (index_of n es) \<le> length es"
  using length_filter_le[of "\<lambda>i. int i mod n = 0" "[0..<length es]"] by (simp add: index_of_def)

lemma footer_bound:
  assumes "writer_inv w es" shows "length (footer w) \<le> 12528 + 3 * length (enc_entries es)"
proof -
  have "length (bf_bits (sw_bloomFilter w)) = 12500" using assms by (simp add: writer_inv_def bf_holds_def bf_wf_def)
  then show ?thesis using assms index_bytes_bound[of "sw_indexInterval w" es] key_bytes_bound[of es]
    by (simp add: footer_def writer_inv_def enc_string_def bf_Marshal_def)
qed

subsection \<open>Interface: immutable sorted files\<close>

text \<open>
  What the tree relies on: a file built from sorted entries is found under its name, answers lookups as the list of entries does, and
  is read back entry by entry.
\<close>

locale sorted_file =
  fixes build :: "string \<Rightarrow> nat \<Rightarrow> int \<Rightarrow> 'e list \<Rightarrow> ('t \<times> bytes) option"
    and get :: "bytes \<Rightarrow> 't \<Rightarrow> bytes \<Rightarrow> ('x + 'e option) option"
    and scan :: "'t \<Rightarrow> bytes \<Rightarrow> 'e list"
    and holds :: "'t \<Rightarrow> bytes \<Rightarrow> 'e list \<Rightarrow> bool"
    and ok :: "'e list \<Rightarrow> bool"
    and key :: "'e \<Rightarrow> bytes"
    and path :: "'t \<Rightarrow> string"
    and file_name :: "string \<Rightarrow> nat \<Rightarrow> string"
  assumes build_ok: "ok es \<Longrightarrow> interval \<noteq> 0 \<Longrightarrow>
      \<exists>t f. build dir i interval es = Some (t, f) \<and> holds t f es \<and> path t = file_name dir i"
    and get_ok: "holds t f es \<Longrightarrow> get k t f = Some (Inr (map_of (map (\<lambda>e. (key e, e)) es) k))"
    and scan_ok: "holds t f es \<Longrightarrow> scan t f = es"
    and holds_ok: "holds t f es \<Longrightarrow> ok es"
begin

text \<open>Rewriting the content of a file into another one keeps every lookup.\<close>

lemma rewrite_keeps_lookups:
  assumes "holds t f es" "interval \<noteq> 0"
  shows "\<exists>t' f'. build dir i interval (scan t f) = Some (t', f') \<and> (\<forall>k. get k t' f' = get k t f)"
  using build_ok[OF holds_ok[OF assms(1)] assms(2), of dir i] scan_ok[OF assms(1)] get_ok[OF assms(1)] get_ok by fastforce

end

interpretation sst: sorted_file build_table sst_Get sst_entries sst_holds table_ok me_Key ss_path sst_path
  by unfold_locales (simp_all add: build_table_holds sst_Get_holds sst_entries_holds, simp add: sst_holds_def)

lemma small_table:
  assumes "sorted_wrt blt (map me_Key es)" "\<forall>e\<in>set es. me_Key e \<noteq> []" "3 * length (enc_entries es) + 13000 < 2 ^ 32"
  shows "table_ok es"
  using assms entry_bytes_bound[of _ es] by (fastforce simp: table_ok_def entry_ok_def)

lemma build_table_opens:
  assumes "table_ok es" "3 * length (enc_entries es) + 13000 < 2 ^ 32" "interval \<noteq> 0"
  shows "\<exists>t f. build_table dir sid interval es = Some (t, f) \<and> sst_holds t f es \<and> ss_path t = sst_path dir sid \<and> OpenSSTable (sst_path dir sid) f = Inr t"
proof -
  have eo: "\<forall>e\<in>set es. entry_ok e" "\<forall>e\<in>set es. me_Key e \<noteq> []" using assms(1) by (simp_all add: table_ok_def)
  obtain w where w: "write_entries es (NewSSTableWriter dir sid interval) = Some w" "writer_inv w es" "sw_path w = sst_path dir sid"
    using write_entries_inv[OF NewSSTableWriter_inv[OF assms(3), of dir sid] eo(2)] by (auto simp: NewSSTableWriter_def)
  have "length (sw_index w) \<le> length es" using w(2) index_of_length by (simp add: writer_inv_def)
  then have "OpenSSTable (sw_path w) (snd (Finalize w)) = Inr (fst (Finalize w))"
    using footer_bound[OF w(2)] entries_number_bound[of es] assms(2) by (intro OpenSSTable_Finalize[OF w(2) eo(1)]) linarith+
  moreover obtain t f where b: "build_table dir sid interval es = Some (t, f)" "sst_holds t f es" "ss_path t = sst_path dir sid"
    using sst.build_ok[OF assms(1,3)] by blast
  moreover from b(1) w(1) have "Finalize w = (t, f)" by (simp add: build_table_def)
  ultimately show ?thesis using w(3) by auto
qed

text \<open>
  C11. A table of entries in increasing order of their non-empty keys, with up to 1.4 GB of data, is written without panic; opening its file gives the
  same table, iterating over it gives the entries, and \<open>Get\<close> finds for every key its entry or nothing, through filter, sparse index
  and scan.
\<close>

theorem sstable_roundtrip:
  assumes "sorted_wrt blt (map me_Key es)" "\<forall>e\<in>set es. me_Key e \<noteq> []" "3 * length (enc_entries es) + 13000 < 2 ^ 32" "interval \<noteq> 0"
  shows "\<exists>sst file. build_table dir sid interval es = Some (sst, file) \<and> OpenSSTable (sst_path dir sid) file = Inr sst \<and>
    sst_entries sst file = es \<and> (\<forall>key. sst_Get key sst file = Some (Inr (map_of (keyed es) key)))"
  using build_table_opens[OF small_table[OF assms(1-3)] assms(3,4), of dir sid] sst.get_ok sst.scan_ok by blast

theorem sstable_roundtrip_witness:
  "\<exists>sst file. build_table ''db'' 7 2 [\<lparr>me_Key = [1], me_Value = [5, 6], me_Timestamp = 10, me_Deleted = False\<rparr>,
       \<lparr>me_Key = [1, 2], me_Value = [], me_Timestamp = 11, me_Deleted = True\<rparr>] = Some (sst, file) \<and>
     OpenSSTable (sst_path ''db'' 7) file = Inr sst \<and>
     sst_Get [1, 2] sst file = Some (Inr (Some \<lparr>me_Key = [1, 2], me_Value = [], me_Timestamp = 11, me_Deleted = True\<rparr>)) \<and>
     sst_Get [2] sst file = Some (Inr None)"
  using sstable_roundtrip[of "[\<lparr>me_Key = [1], me_Value = [5, 6], me_Timestamp = 10, me_Deleted = False\<rparr>,
       \<lparr>me_Key = [1, 2], me_Value = [], me_Timestamp = 11, me_Deleted = True\<rparr>]" 2 "''db''" 7]
  by (auto simp: enc_entry_def enc_string_def)

text \<open>
  An entry with an empty key leaves the minimum key nil, so the next entry sets it and the range check of \<open>Get\<close> hides the empty key.
\<close>

lemma empty_key_lost:
  assumes "build_table dir sid n [e0, e1] = Some (sst, file)" "me_Key e0 = []" "me_Key e1 \<noteq> []" "bf_Contains [] (ss_bloomFilter sst) = Some b"
  shows "sst_Get [] sst file = Some (Inr None)"
proof -
  have "ss_minKey sst = me_Key e1"
    using assms(1-3) by (auto simp: build_table_def Finalize_def sw_Write_def NewSSTableWriter_def Let_def split: option.splits if_splits)
  then have "blt [] (ss_minKey sst)" using assms(3) by (cases "me_Key e1") auto
  then show ?thesis using assms(4) by (simp add: sst_Get_def split: bool.split)
qed

end
