(* ===== verification/Lsm.thy ===== *)
theory Lsm
  imports SSTable "HOL-Library.AList" "HOL-Library.List_Lexorder" "HOL-Library.Char_ord"
begin

text \<open>
  \<^verbatim>\<open>pkg/lsm/lsm.go\<close>: the log-structured merge tree. Every section under the tree's lock is one step; a writer that has filled a
  memtable is between releasing the lock and sending the memtable to the flush worker as long as the memtable is in \<open>ls_sending\<close>. The
  flush worker and the compaction worker each take two steps, before and after they work without the lock. A memtable pointer is the number of the
  memtable. The directory is a clean path; its files are a list of paths with contents. \<open>None\<close> is a panic.
\<close>

subsection \<open>State\<close>

type_synonym mem = "nat \<times> MemTable"

record LSMTree =
  ls_dir :: string
  ls_memTable :: mem
  ls_immutables :: "mem list"
  ls_sstables :: "SSTable list"
  ls_nextSSTableID :: nat
  ls_closed :: bool
  ls_memTableSize :: int
  ls_indexInterval :: int
  ls_sending :: "mem list"
  ls_flushChan :: "mem list"
  ls_compactChan :: bool
  ls_flushing :: "(mem \<times> nat) option"
  ls_compacting :: "(SSTable list \<times> nat) option"
  ls_files :: "(string \<times> bytes) list"
  ls_random :: "nat \<Rightarrow> nat \<Rightarrow> bool"

datatype lsm_error = ErrClosed | ErrTable sst_error | ErrNoFile

definition live :: "MemTableEntry option \<Rightarrow> bytes option" where
  "live x = (case x of None \<Rightarrow> None | Some e \<Rightarrow> if me_Deleted e then None else Some (me_Value e))"

subsection \<open>Writing and reading\<close>

definition fresh_mem :: "LSMTree \<Rightarrow> nat \<Rightarrow> mem" where
  "fresh_mem s n = (n, NewMemTable (ls_random s n) (ls_memTableSize s))"

definition lsm_Put :: "bytes \<Rightarrow> bytes \<Rightarrow> u64 \<Rightarrow> LSMTree \<Rightarrow> (lsm_error option \<times> LSMTree) option" where
  "lsm_Put key val timestamp s =
     (if ls_closed s then Some (Some ErrClosed, s)
      else case mt_Put key val timestamp (snd (ls_memTable s)) of
             None \<Rightarrow> None
           | Some mt \<Rightarrow>
              let m = (fst (ls_memTable s), mt)
              in if IsFull mt
                 then Some (None, s\<lparr>ls_immutables := ls_immutables s @ [m], ls_sending := ls_sending s @ [m], ls_memTable := fresh_mem s (Suc (fst m))\<rparr>)
                 else Some (None, s\<lparr>ls_memTable := m\<rparr>))"

definition lsm_Delete :: "bytes \<Rightarrow> u64 \<Rightarrow> LSMTree \<Rightarrow> (lsm_error option \<times> LSMTree) option" where
  "lsm_Delete key timestamp s =
     (if ls_closed s then Some (Some ErrClosed, s)
      else case mt_Delete key timestamp (snd (ls_memTable s)) of
             None \<Rightarrow> None
           | Some mt \<Rightarrow> Some (None, s\<lparr>ls_memTable := (fst (ls_memTable s), mt)\<rparr>))"

text \<open>The send on the channel of capacity 10: the \<open>i\<close>-th waiting writer sends, or stays blocked.\<close>

definition lsm_send :: "nat \<Rightarrow> LSMTree \<Rightarrow> LSMTree" where
  "lsm_send i s =
     (if i < length (ls_sending s) \<and> length (ls_flushChan s) < 10
      then s\<lparr>ls_flushChan := ls_flushChan s @ [ls_sending s ! i], ls_sending := take i (ls_sending s) @ drop (Suc i) (ls_sending s)\<rparr>
      else s)"

fun get_mems :: "bytes \<Rightarrow> mem list \<Rightarrow> MemTableEntry option option" where
  "get_mems key [] = Some None"
| "get_mems key (m # ms) = (case mt_Get key (snd m) of None \<Rightarrow> None | Some None \<Rightarrow> get_mems key ms | Some (Some e) \<Rightarrow> Some (Some e))"

fun get_tables :: "bytes \<Rightarrow> (string \<times> bytes) list \<Rightarrow> SSTable list \<Rightarrow> (lsm_error + MemTableEntry option) option" where
  "get_tables key files [] = Some (Inr None)"
| "get_tables key files (sst # ssts) =
     (case map_of files (ss_path sst) of
        None \<Rightarrow> (case bf_Contains key (ss_bloomFilter sst) of
                   None \<Rightarrow> None
                 | Some b \<Rightarrow>
                    if b \<and> \<not> (bytes_compare key (ss_minKey sst) < 0 \<or> bytes_compare key (ss_maxKey sst) > 0) then Some (Inl ErrNoFile)
                    else get_tables key files ssts)
      | Some f \<Rightarrow>
         (case sst_Get key sst f of
            None \<Rightarrow> None
          | Some (Inl e) \<Rightarrow> Some (Inl (ErrTable e))
          | Some (Inr None) \<Rightarrow> get_tables key files ssts
          | Some (Inr (Some e)) \<Rightarrow> Some (Inr (Some e))))"

definition lsm_Get :: "bytes \<Rightarrow> LSMTree \<Rightarrow> (lsm_error + bytes option) option" where
  "lsm_Get key s =
     (if ls_closed s then Some (Inl ErrClosed)
      else case get_mems key (ls_memTable s # rev (ls_immutables s)) of
             None \<Rightarrow> None
           | Some (Some e) \<Rightarrow> Some (Inr (live (Some e)))
           | Some None \<Rightarrow>
              (case get_tables key (ls_files s) (ls_sstables s) of
                 None \<Rightarrow> None
               | Some (Inl e) \<Rightarrow> Some (Inl e)
               | Some (Inr x) \<Rightarrow> Some (Inr (live x))))"

subsection \<open>Flushing\<close>

definition alloc_id :: "LSMTree \<Rightarrow> nat \<times> LSMTree" where
  "alloc_id s = (ls_nextSSTableID s, s\<lparr>ls_nextSSTableID := Suc (ls_nextSSTableID s)\<rparr>)"

fun remove_mem :: "nat \<Rightarrow> mem list \<Rightarrow> mem list" where
  "remove_mem n [] = []"
| "remove_mem n (m # ms) = (if fst m = n then ms else m # remove_mem n ms)"

text \<open>The work of \<open>flushMemTable\<close> after its id is taken.\<close>

definition flush_finish :: "mem \<Rightarrow> nat \<Rightarrow> LSMTree \<Rightarrow> LSMTree option" where
  "flush_finish m sid s =
     (case mt_iterate (snd m) of
        None \<Rightarrow> None
      | Some xs \<Rightarrow>
         (case those xs of
            None \<Rightarrow> None
          | Some es \<Rightarrow>
             (case build_table (ls_dir s) sid (ls_indexInterval s) es of
                None \<Rightarrow> None
              | Some (sst, f) \<Rightarrow>
                 let ssts = sst # ls_sstables s
                 in Some (s\<lparr>ls_files := AList.update (sst_path (ls_dir s) sid) f (ls_files s), ls_sstables := ssts,
                            ls_immutables := remove_mem (fst m) (ls_immutables s),
                            ls_compactChan := (ls_compactChan s \<or> length ssts > 4)\<rparr>))))"

definition flushMemTable :: "mem \<Rightarrow> LSMTree \<Rightarrow> LSMTree option" where
  "flushMemTable m s = (let (sid, s1) = alloc_id s in flush_finish m sid s1)"

definition flush_begin :: "LSMTree \<Rightarrow> LSMTree" where
  "flush_begin s =
     (case ls_flushing s of
        Some _ \<Rightarrow> s
      | None \<Rightarrow>
         (case ls_flushChan s of
            [] \<Rightarrow> s
          | m # ms \<Rightarrow> let (sid, s1) = alloc_id s in s1\<lparr>ls_flushChan := ms, ls_flushing := Some (m, sid)\<rparr>))"

definition flush_end :: "LSMTree \<Rightarrow> LSMTree option" where
  "flush_end s =
     (case ls_flushing s of
        None \<Rightarrow> Some s
      | Some (m, sid) \<Rightarrow> map_option (\<lambda>s. s\<lparr>ls_flushing := None\<rparr>) (flush_finish m sid s))"
subsection \<open>Compaction\<close>

text \<open>\<open>compareBytes\<close>, from index \<open>i\<close> on.\<close>

function compare_from :: "bytes \<Rightarrow> bytes \<Rightarrow> nat \<Rightarrow> int" where
  "compare_from a b i =
     (if i < min (length a) (length b) then
        if a ! i < b ! i then -1 else if a ! i > b ! i then 1 else compare_from a b (Suc i)
      else if length a < length b then -1 else if length a > length b then 1 else 0)"
  by pat_completeness auto
termination
  by (relation "measure (\<lambda>(a, b, i). min (length a) (length b) - i)") auto

definition compareBytes :: "bytes \<Rightarrow> bytes \<Rightarrow> int" where
  "compareBytes a b = compare_from a b 0"

text \<open>An iterator is the list of entries it has still to give, the current one first; it is invalid when the list is empty.\<close>

fun min_iter :: "nat \<Rightarrow> MemTableEntry list list \<Rightarrow> (nat \<times> MemTableEntry) option \<Rightarrow> (nat \<times> MemTableEntry) option" where
  "min_iter i [] best = best"
| "min_iter i ([] # its) best = min_iter (Suc i) its best"
| "min_iter i ((e # es) # its) best =
     min_iter (Suc i) its
       (case best of
          None \<Rightarrow> Some (i, e)
        | Some (j, m) \<Rightarrow> if compareBytes (me_Key e) (me_Key m) < 0 then Some (i, e) else best)"

lemma min_iter_index:
  assumes "min_iter i its best = Some (j, e)"
  shows "best = Some (j, e) \<or> (i \<le> j \<and> j < i + length its \<and> (\<exists>es. its ! (j - i) = e # es))"
  using assms
proof (induction i its best rule: min_iter.induct)
  case (2 i its best) then show ?case by (auto simp: nth_Cons' Suc_diff_Suc)
next
  case (3 i x es its best) then show ?case by (auto simp: nth_Cons' Suc_diff_Suc split: option.splits if_splits)
qed simp

lemma merge_decreases:
  assumes "min_iter 0 its None = Some (i, e)"
  shows "sum_list (map length (its[i := tl (its ! i)])) < sum_list (map length its)"
proof -
  from min_iter_index[OF assms] obtain es where i: "i < length its" "its ! i = e # es" by auto
  have "sum_list (map length its) = sum_list (map length (take i its @ (e # es) # drop (Suc i) its))"
    using id_take_nth_drop[OF i(1)] i(2) by simp
  then show ?thesis using i by (simp add: upd_conv_take_nth_drop)
qed

text \<open>The entries that the merge writes.\<close>

function merge_entries :: "MemTableEntry list list \<Rightarrow> bytes option \<Rightarrow> MemTableEntry list" where
  "merge_entries its lastKey =
     (case min_iter 0 its None of
        None \<Rightarrow> []
      | Some (i, e) \<Rightarrow>
         let its' = its[i := tl (its ! i)]
         in if lastKey = None \<or> compareBytes (me_Key e) (the lastKey) \<noteq> 0
            then (if \<not> me_Deleted e then [e] else []) @ merge_entries its' (Some (me_Key e))
            else merge_entries its' lastKey)"
  by pat_completeness auto
termination
  by (relation "measure (\<lambda>(its, _). sum_list (map length its))") (auto dest: merge_decreases)
definition table_entries :: "(string \<times> bytes) list \<Rightarrow> SSTable \<Rightarrow> MemTableEntry list option" where
  "table_entries files t = map_option (sst_entries t) (map_of files (ss_path t))"

text \<open>Creating the writer truncates the new file before the iterators are opened.\<close>

definition mergeSSTables :: "SSTable list \<Rightarrow> nat \<Rightarrow> LSMTree \<Rightarrow> ((lsm_error + SSTable) \<times> LSMTree) option" where
  "mergeSSTables tables newID s =
     (let path = sst_path (ls_dir s) newID; files = AList.update path [] (ls_files s)
      in case those (map (table_entries files) tables) of
           None \<Rightarrow> Some (Inl ErrNoFile, s\<lparr>ls_files := files\<rparr>)
         | Some its \<Rightarrow>
            (case build_table (ls_dir s) newID (ls_indexInterval s) (merge_entries its None) of
               None \<Rightarrow> None
             | Some (t, f) \<Rightarrow> Some (Inr t, s\<lparr>ls_files := AList.update path f files\<rparr>)))"

text \<open>The compaction worker is woken by the channel (\<open>signal\<close>) or by its ticker.\<close>

definition compact_begin :: "bool \<Rightarrow> LSMTree \<Rightarrow> LSMTree" where
  "compact_begin signal s =
     (if ls_compacting s \<noteq> None \<or> signal \<and> \<not> ls_compactChan s then s
      else let s0 = (if signal then s\<lparr>ls_compactChan := False\<rparr> else s)
           in if length (ls_sstables s0) \<le> 4 then s0
              else let (newID, s1) = alloc_id s0
                   in s1\<lparr>ls_compacting := Some (drop (length (ls_sstables s1) - 4) (ls_sstables s1), newID)\<rparr>)"

definition compact_end :: "LSMTree \<Rightarrow> LSMTree option" where
  "compact_end s =
     (case ls_compacting s of
        None \<Rightarrow> Some s
      | Some (tables, newID) \<Rightarrow>
         (case mergeSSTables tables newID s of
            None \<Rightarrow> None
          | Some (Inl _, s1) \<Rightarrow> Some (s1\<lparr>ls_compacting := None\<rparr>)
          | Some (Inr merged, s1) \<Rightarrow>
             Some (s1\<lparr>ls_sstables := filter (\<lambda>t. ss_path t \<notin> ss_path ` set tables) (ls_sstables s1) @ [merged],
                      ls_files := fold (\<lambda>t. AList.delete (ss_path t)) tables (ls_files s1), ls_compacting := None\<rparr>)))"

subsection \<open>Opening and closing\<close>

text \<open>
  The names that match \<^verbatim>\<open>sstable_*.sst\<close>, and the number that \<^verbatim>\<open>Sscanf\<close> reads from a name in the form that the writer gives it.
\<close>

definition table_prefix :: "string \<Rightarrow> string" where
  "table_prefix dir = dir @ ''/sstable_''"

definition is_table_path :: "string \<Rightarrow> string \<Rightarrow> bool" where
  "is_table_path dir p \<longleftrightarrow>
     (let n = length (table_prefix dir)
      in n + 4 \<le> length p \<and> take n p = table_prefix dir \<and> drop (length p - 4) p = ''.sst'' \<and> CHR ''/'' \<notin> set (drop n p))"

definition is_digit :: "char \<Rightarrow> bool" where
  "is_digit c \<longleftrightarrow> 48 \<le> (of_char c :: nat) \<and> (of_char c :: nat) \<le> 57"

definition path_id :: "string \<Rightarrow> string \<Rightarrow> nat option" where
  "path_id dir p =
     (let r = drop (length (table_prefix dir)) p; ds = takeWhile is_digit r
      in if ds \<noteq> [] \<and> take 4 (dropWhile is_digit r) = ''.sst'' then Some (atoi ds) else None)"

fun load_tables :: "string list \<Rightarrow> LSMTree \<Rightarrow> lsm_error + LSMTree" where
  "load_tables [] s = Inr s"
| "load_tables (p # ps) s =
     (case map_of (ls_files s) p of
        None \<Rightarrow> Inl ErrNoFile
      | Some f \<Rightarrow>
         (case OpenSSTable p f of
            Inl e \<Rightarrow> Inl (ErrTable e)
          | Inr t \<Rightarrow>
             load_tables ps (s\<lparr>ls_sstables := ls_sstables s @ [t],
               ls_nextSSTableID := (case path_id (ls_dir s) p of
                                      None \<Rightarrow> ls_nextSSTableID s
                                    | Some i \<Rightarrow> if i \<ge> ls_nextSSTableID s then i + 1 else ls_nextSSTableID s)\<rparr>)))"

definition loadSSTables :: "LSMTree \<Rightarrow> lsm_error + LSMTree" where
  "loadSSTables s = load_tables (rev (sort (filter (is_table_path (ls_dir s)) (map fst (ls_files s))))) s"

definition NewLSMTree :: "string \<Rightarrow> int \<Rightarrow> int \<Rightarrow> (nat \<Rightarrow> nat \<Rightarrow> bool) \<Rightarrow> (string \<times> bytes) list \<Rightarrow> lsm_error + LSMTree" where
  "NewLSMTree dir memTableSize indexInterval random files =
     loadSSTables \<lparr>ls_dir = dir, ls_memTable = (0, NewMemTable (random 0) memTableSize), ls_immutables = [], ls_sstables = [], ls_nextSSTableID = 0,
       ls_closed = False, ls_memTableSize = memTableSize, ls_indexInterval = indexInterval, ls_sending = [], ls_flushChan = [],
       ls_compactChan = False, ls_flushing = None, ls_compacting = None, ls_files = files, ls_random = random\<rparr>"

text \<open>
  \<open>Close\<close> marks the tree closed and captures memtable and immutable memtables; when both workers have stopped it flushes what it captured.
\<close>

definition close_begin :: "LSMTree \<Rightarrow> (mem \<times> mem list) option \<times> LSMTree" where
  "close_begin s = (if ls_closed s then (None, s) else (Some (ls_memTable s, ls_immutables s), s\<lparr>ls_closed := True\<rparr>))"

fun flush_all :: "mem list \<Rightarrow> LSMTree \<Rightarrow> LSMTree option" where
  "flush_all [] s = Some s"
| "flush_all (m # ms) s = (case flushMemTable m s of None \<Rightarrow> None | Some s' \<Rightarrow> flush_all ms s')"

definition close_end :: "mem \<times> mem list \<Rightarrow> LSMTree \<Rightarrow> LSMTree option" where
  "close_end c s = flush_all ((if mt_size (snd (fst c)) > 0 then [fst c] else []) @ snd c) s"

subsection \<open>Runs\<close>

datatype lsm_op = LPut bytes bytes u64 | LDelete bytes u64 | LSend nat | LFlushBegin | LFlushEnd | LCompactBegin bool | LCompactEnd

fun lsm_exec :: "lsm_op \<Rightarrow> LSMTree \<Rightarrow> LSMTree option" where
  "lsm_exec (LPut k v ts) s = map_option snd (lsm_Put k v ts s)"
| "lsm_exec (LDelete k ts) s = map_option snd (lsm_Delete k ts s)"
| "lsm_exec (LSend i) s = Some (lsm_send i s)"
| "lsm_exec LFlushBegin s = Some (flush_begin s)"
| "lsm_exec LFlushEnd s = flush_end s"
| "lsm_exec (LCompactBegin b) s = Some (compact_begin b s)"
| "lsm_exec LCompactEnd s = compact_end s"

fun lsm_run :: "lsm_op list \<Rightarrow> LSMTree \<Rightarrow> LSMTree option" where
  "lsm_run [] s = Some s"
| "lsm_run (x # xs) s = (case lsm_exec x s of None \<Rightarrow> None | Some s' \<Rightarrow> lsm_run xs s')"

text \<open>The specification: a map from keys to values.\<close>

fun kv_step :: "lsm_op \<Rightarrow> (bytes \<Rightarrow> bytes option) \<Rightarrow> (bytes \<Rightarrow> bytes option)" where
  "kv_step (LPut k v ts) m = m(k := Some v)"
| "kv_step (LDelete k ts) m = m(k := None)"
| "kv_step _ m = m"

definition kv_run :: "lsm_op list \<Rightarrow> bytes \<Rightarrow> bytes option" where
  "kv_run xs = fold kv_step xs (\<lambda>_. None)"
section \<open>Merging\<close>

declare compare_from.simps [simp del] merge_entries.simps [simp del]

lemma compare_from_drop: "i \<le> length a \<Longrightarrow> i \<le> length b \<Longrightarrow> compare_from a b i = bytes_compare (drop i a) (drop i b)"
proof (induction a b i rule: compare_from.induct)
  case (1 a b i)
  show ?case
  proof (cases "i < min (length a) (length b)")
    case True
    then have "drop i a = a ! i # drop (Suc i) a" "drop i b = b ! i # drop (Suc i) b" by (simp_all add: Cons_nth_drop_Suc)
    then show ?thesis using 1 True by (subst compare_from.simps) simp
  next
    case False
    then have "i = length a \<or> i = length b" using 1(2,3) by auto
    then show ?thesis using False 1(2,3)
      by (subst compare_from.simps) (cases "drop i a"; cases "drop i b"; fastforce dest: arg_cong[of _ _ length])
  qed
qed

text \<open>The hand-written comparison is that of \<^verbatim>\<open>bytes.Compare\<close>.\<close>

lemma compareBytes_eq [simp]: "compareBytes a b = bytes_compare a b"
  by (simp add: compareBytes_def compare_from_drop)

text \<open>\<open>min_iter\<close> finds the first iterator whose current key is least.\<close>

lemma min_iter_None: "min_iter i its best = None \<longleftrightarrow> best = None \<and> (\<forall>it\<in>set its. it = [])"
  by (induction i its best rule: min_iter.induct) (auto split: option.splits)

definition least_from :: "nat \<Rightarrow> MemTableEntry list list \<Rightarrow> nat \<Rightarrow> MemTableEntry \<Rightarrow> bool" where
  "least_from i its j e \<longleftrightarrow>
     (\<forall>k<length its. its ! k \<noteq> [] \<longrightarrow> \<not> blt (me_Key (hd (its ! k))) (me_Key e) \<and> (i + k < j \<longrightarrow> blt (me_Key e) (me_Key (hd (its ! k)))))"

lemma least_from_Cons:
  "least_from i (it # its) j e \<longleftrightarrow>
     (it \<noteq> [] \<longrightarrow> \<not> blt (me_Key (hd it)) (me_Key e) \<and> (i < j \<longrightarrow> blt (me_Key e) (me_Key (hd it)))) \<and> least_from (Suc i) its j e"
  by (auto simp: least_from_def All_less_Suc2)

lemma blt_le_trans: "blt a b \<Longrightarrow> \<not> blt c b \<Longrightarrow> blt a c"
  using bytes_compare_total[of b c] bytes_compare_trans[of a b c] by auto

lemma min_iter_least:
  assumes "min_iter i its best = Some (j, e)" "\<forall>k m. best = Some (k, m) \<longrightarrow> k < i"
  shows "(\<forall>k m. best = Some (k, m) \<longrightarrow> k = j \<and> m = e \<or> blt (me_Key e) (me_Key m)) \<and> least_from i its j e"
  using assms
proof (induction i its best rule: min_iter.induct)
  case (1 i best) then show ?case by (simp add: least_from_def)
next
  case (2 i its best)
  then show ?case by (simp add: least_from_Cons less_Suc_eq)
next
  case (3 i x es its best)
  show ?case
  proof (cases "\<exists>k m. best = Some (k, m) \<and> \<not> blt (me_Key x) (me_Key m)")
    case True
    then obtain k m where b: "best = Some (k, m)" "\<not> blt (me_Key x) (me_Key m)" by blast
    then have "k = j \<and> m = e \<or> blt (me_Key e) (me_Key m)" "least_from (Suc i) its j e" "k < i"
      using 3 by (simp_all add: less_Suc_eq)
    then show ?thesis using b blt_le_trans[of "me_Key e" "me_Key m" "me_Key x"] bytes_compare_trans[of "me_Key e" "me_Key x" "me_Key e"]
      by (auto simp: least_from_Cons)
  next
    case False
    then have e: "(case best of None \<Rightarrow> Some (i, x) | Some (j, m) \<Rightarrow> if compareBytes (me_Key x) (me_Key m) < 0 then Some (i, x) else best) = Some (i, x)"
      by (auto split: option.split)
    have "i = j \<and> x = e \<or> blt (me_Key e) (me_Key x)" "least_from (Suc i) its j e" using "3.IH" "3.prems"(1) unfolding e min_iter.simps(3) by simp_all
    moreover have "blt (me_Key e) (me_Key m)" if "best = Some (k, m)" for k m
      using that False calculation(1) bytes_compare_trans[of "me_Key e" "me_Key x" "me_Key m"] by auto
    ultimately show ?thesis using bytes_compare_trans[of "me_Key e" "me_Key x" "me_Key e"] by (auto simp: least_from_Cons)
  qed
qed

lemma min_iter_spec:
  assumes "min_iter 0 its None = Some (j, e)"
  obtains es where "j < length its" "its ! j = e # es" "least_from 0 its j e"
  using min_iter_index[OF assms] min_iter_least[OF assms] by auto
abbreviation sorted_its :: "MemTableEntry list list \<Rightarrow> bool" where
  "sorted_its its \<equiv> \<forall>it\<in>set its. sorted_wrt blt (map me_Key it)"

abbreviation hits :: "MemTableEntry list list \<Rightarrow> bytes \<Rightarrow> MemTableEntry option" where
  "hits its k \<equiv> map_of (concat (map keyed its)) k"

definition undeleted :: "MemTableEntry option \<Rightarrow> MemTableEntry option" where
  "undeleted x = (case x of None \<Rightarrow> None | Some e \<Rightarrow> if me_Deleted e then None else Some e)"

lemma live_undeleted [simp]: "live (undeleted x) = live x"
  by (cases x) (simp_all add: live_def undeleted_def)

lemma hd_least:
  assumes "sorted_wrt blt (map me_Key it)" "x \<in> set it" "blt a (me_Key (hd it)) \<or> \<not> blt (me_Key (hd it)) a"
  shows "(blt a (me_Key (hd it)) \<longrightarrow> blt a (me_Key x)) \<and> \<not> blt (me_Key x) a"
proof (cases it)
  case (Cons y ys)
  then have "x = y \<or> blt (me_Key y) (me_Key x)" using assms(1,2) by auto
  then show ?thesis using assms(3) Cons bytes_compare_trans[of a "me_Key y" "me_Key x"] bytes_compare_trans[of "me_Key y" "me_Key x" a]
      bytes_compare_trans[of a "me_Key x" a] by auto
qed (use assms in simp)

lemma merge_step:
  assumes "min_iter 0 its None = Some (j, e)" "sorted_its its"
  obtains pre es post where "its = pre @ (e # es) # post" "its[j := tl (its ! j)] = pre @ es # post" "sorted_its (pre @ es # post)"
    "\<forall>it\<in>set its. \<forall>x\<in>set it. \<not> blt (me_Key x) (me_Key e)" "\<forall>it\<in>set pre. \<forall>x\<in>set it. me_Key x \<noteq> me_Key e" "\<forall>x\<in>set es. blt (me_Key e) (me_Key x)"
proof -
  from min_iter_spec[OF assms(1)] obtain es where j: "j < length its" "its ! j = e # es" "least_from 0 its j e" .
  let ?pre = "take j its" and ?post = "drop (Suc j) its"
  have s: "its = ?pre @ (e # es) # ?post" using id_take_nth_drop[OF j(1)] j(2) by simp
  have u: "its[j := tl (its ! j)] = ?pre @ es # ?post" using j by (simp add: upd_conv_take_nth_drop)
  have so: "sorted_wrt blt (map me_Key (e # es))" using assms(2) j(1,2) by (metis nth_mem)
  have "sorted_its (?pre @ es # ?post)" using assms(2) so by (auto dest: in_set_takeD in_set_dropD)
  moreover have "\<not> blt (me_Key x) (me_Key e)" if it: "it \<in> set its" "x \<in> set it" for it x
  proof -
    obtain k where k: "k < length its" "it = its ! k" using it(1) by (auto simp: in_set_conv_nth)
    have ne: "it \<noteq> []" using it(2) by auto
    have "\<not> blt (me_Key (hd it)) (me_Key e)" using j(3) k ne by (simp add: least_from_def)
    then show ?thesis using hd_least[of it x "me_Key e"] assms(2) it by blast
  qed
  moreover have "me_Key x \<noteq> me_Key e" if it: "it \<in> set ?pre" "x \<in> set it" for it x
  proof -
    obtain k where k: "k < j" "it = its ! k" using it(1) j(1) by (auto simp: in_set_conv_nth)
    have ne: "it \<noteq> []" using it(2) by auto
    have "blt (me_Key e) (me_Key (hd it))" using j(1,3) k ne by (simp add: least_from_def)
    moreover have "sorted_wrt blt (map me_Key it)" using assms(2) it(1) by (auto dest: in_set_takeD)
    ultimately have "blt (me_Key e) (me_Key x)" using hd_least[of it x "me_Key e"] it(2) by blast
    then show ?thesis by auto
  qed
  moreover have "\<forall>x\<in>set es. blt (me_Key e) (me_Key x)" using so by simp
  ultimately show thesis using s u that by blast
qed
lemma merge_entries_steps:
  "min_iter 0 its None = None \<Longrightarrow> merge_entries its l = []"
  "min_iter 0 its None = Some (i, e) \<Longrightarrow> l = None \<or> me_Key e \<noteq> the l \<Longrightarrow>
     merge_entries its l = (if \<not> me_Deleted e then [e] else []) @ merge_entries (its[i := tl (its ! i)]) (Some (me_Key e))"
  "min_iter 0 its None = Some (i, e) \<Longrightarrow> l = Some (me_Key e) \<Longrightarrow> merge_entries its l = merge_entries (its[i := tl (its ! i)]) l"
  by (subst merge_entries.simps; simp add: Let_def)+

definition merged_ok :: "MemTableEntry list list \<Rightarrow> bytes option \<Rightarrow> MemTableEntry list \<Rightarrow> bool" where
  "merged_ok its l r \<longleftrightarrow> sorted_wrt blt (map me_Key r) \<and> (\<forall>x\<in>set r. \<forall>k. l = Some k \<longrightarrow> blt k (me_Key x)) \<and> set r \<subseteq> \<Union> (set ` set its) \<and>
     length (enc_entries r) \<le> length (enc_entries (concat its)) \<and> (\<forall>k. map_of (keyed r) k = (if l = Some k then None else undeleted (hits its k)))"

lemma hits_step:
  assumes "\<forall>it\<in>set pre. \<forall>x\<in>set it. me_Key x \<noteq> me_Key e"
  shows "hits (pre @ (e # es) # post) k = (if k = me_Key e then Some e else hits (pre @ es # post) k)"
proof -
  have "hits pre (me_Key e) = None" using assms by (auto simp: map_of_eq_None_iff) fastforce
  then show ?thesis by (auto simp: map_add_def split: option.split)
qed

lemma merged_ok_empty: "\<forall>it\<in>set its. it = [] \<Longrightarrow> merged_ok its l []"
proof -
  assume "\<forall>it\<in>set its. it = []"
  then have "hits its k = None" for k by (auto simp: map_of_eq_None_iff)
  then show ?thesis by (simp add: merged_ok_def undeleted_def)
qed

lemma merge_entries_ok:
  "sorted_its its \<Longrightarrow> \<forall>k. l = Some k \<longrightarrow> (\<forall>it\<in>set its. \<forall>x\<in>set it. \<not> blt (me_Key x) k) \<Longrightarrow> merged_ok its l (merge_entries its l)"
proof (induction its l rule: merge_entries.induct)
  case (1 its l)
  show ?case
  proof (cases "min_iter 0 its None")
    case None
    then show ?thesis by (simp add: merge_entries_steps(1) min_iter_None merged_ok_empty)
  next
    case (Some p)
    obtain j e where p: "p = (j, e)" by force
    note m = Some[unfolded p]
    from merge_step[OF m "1.prems"(1)] obtain pre es post where
      st: "its = pre @ (e # es) # post" "its[j := tl (its ! j)] = pre @ es # post" "sorted_its (pre @ es # post)"
        "\<forall>it\<in>set its. \<forall>x\<in>set it. \<not> blt (me_Key x) (me_Key e)" "\<forall>it\<in>set pre. \<forall>x\<in>set it. me_Key x \<noteq> me_Key e" "\<forall>x\<in>set es. blt (me_Key e) (me_Key x)" .
    have low: "\<forall>it\<in>set (pre @ es # post). \<forall>x\<in>set it. \<not> blt (me_Key x) (me_Key e)" using st(4) unfolding st(1) by auto
    show ?thesis
    proof (cases "l = Some (me_Key e)")
      case True
      have "merged_ok (pre @ es # post) l (merge_entries (pre @ es # post) l)"
        using "1.IH"(2)[OF m refl refl] True st(3) low unfolding st(2) by simp
      then show ?thesis
        using True unfolding merge_entries_steps(3)[OF m True] st(2) merged_ok_def hits_step[OF st(5), of es post, folded st(1)] by (auto simp: st(1))
    next
      case False
      have r: "merged_ok (pre @ es # post) (Some (me_Key e)) (merge_entries (pre @ es # post) (Some (me_Key e)))"
        using "1.IH"(1)[OF m refl refl] False st(3) low unfolding st(2) by (cases l) auto
      have le: "blt k (me_Key e)" if "l = Some k" for k
        using "1.prems"(2) that False bytes_compare_total[of k "me_Key e"] by (auto simp: st(1))
      let ?r = "merge_entries (pre @ es # post) (Some (me_Key e))"
      have eq: "merge_entries its l = (if \<not> me_Deleted e then [e] else []) @ ?r" using merge_entries_steps(2)[OF m, of l] False unfolding st(2) by (cases l) auto
      have gt: "blt k (me_Key x)" if "l = Some k" "x \<in> set ?r" for k x
        using le[OF that(1)] r that(2) bytes_compare_trans[of k "me_Key e" "me_Key x"] by (auto simp: merged_ok_def)
      have "map_of (keyed (merge_entries its l)) k = (if l = Some k then None else undeleted (hits its k))" for k
      proof (cases "l = Some k")
        case True
        have "\<forall>x\<in>set ?r. me_Key x \<noteq> k" using gt[OF True] by fastforce
        then show ?thesis using True le[OF True] unfolding eq by (auto simp: map_of_eq_None_iff)
      next
        case nl: False
        have "map_of (keyed ?r) k = (if me_Key e = k then None else undeleted (hits (pre @ es # post) k))" using r by (simp add: merged_ok_def)
        then show ?thesis using nl unfolding eq hits_step[OF st(5), of es post, folded st(1)] by (auto simp: undeleted_def)
      qed
      moreover have "length (enc_entries (merge_entries its l)) \<le> length (enc_entries (concat its))" using r unfolding eq by (auto simp: merged_ok_def st(1))
      ultimately show ?thesis using r le gt unfolding merged_ok_def eq by (auto simp: st(1))
    qed
  qed
qed
section \<open>The tree as a map\<close>

type_synonym items = "(bytes \<times> MemTableEntry) list"

definition mems_hold :: "mem list \<Rightarrow> items list \<Rightarrow> bool" where
  "mems_hold = list_all2 (\<lambda>m es. mt_holds (snd m) es)"

definition tables_hold :: "(string \<times> bytes) list \<Rightarrow> SSTable list \<Rightarrow> MemTableEntry list list \<Rightarrow> bool" where
  "tables_hold files = list_all2 (\<lambda>t es. \<exists>f. map_of files (ss_path t) = Some f \<and> sst_holds t f es)"

text \<open>The layers of the tree: the entries of the memtable, of the immutable memtables (oldest first) and of the tables (newest first).\<close>

definition layers :: "LSMTree \<Rightarrow> items \<Rightarrow> items list \<Rightarrow> MemTableEntry list list \<Rightarrow> bool" where
  "layers s M Is Ts \<longleftrightarrow> mt_holds (snd (ls_memTable s)) M \<and> mems_hold (ls_immutables s) Is \<and> tables_hold (ls_files s) (ls_sstables s) Ts"

definition view :: "items \<Rightarrow> items list \<Rightarrow> MemTableEntry list list \<Rightarrow> bytes \<Rightarrow> bytes option" where
  "view M Is Ts k = live (map_of (M @ concat (rev Is) @ concat (map keyed Ts)) k)"

lemma get_mems_ok: "mems_hold ms Is \<Longrightarrow> get_mems k ms = Some (map_of (concat Is) k)"
  unfolding mems_hold_def
  by (induction ms Is rule: list_all2_induct) (auto simp: mt_Get_ok map_add_def split: option.split)

lemma get_tables_ok: "tables_hold files ts Ts \<Longrightarrow> get_tables k files ts = Some (Inr (hits Ts k))"
  unfolding tables_hold_def
  by (induction ts Ts rule: list_all2_induct) (auto simp: sst.get_ok map_add_def split: option.split)

lemma lsm_Get_ok:
  assumes "layers s M Is Ts" "\<not> ls_closed s"
  shows "lsm_Get k s = Some (Inr (view M Is Ts k))"
proof -
  have "mems_hold (ls_memTable s # rev (ls_immutables s)) (M # rev Is)"
    using assms(1) by (simp add: layers_def mems_hold_def)
  then have "get_mems k (ls_memTable s # rev (ls_immutables s)) = Some (map_of (concat (M # rev Is)) k)" by (rule get_mems_ok)
  moreover have "get_tables k (ls_files s) (ls_sstables s) = Some (Inr (hits Ts k))" using assms(1) by (simp add: layers_def get_tables_ok)
  ultimately show ?thesis using assms(2) by (auto simp: lsm_Get_def view_def map_add_def live_def split: option.split)
qed

subsection \<open>Invariant\<close>

definition opt_ids :: "('a \<times> nat) option \<Rightarrow> nat list" where
  "opt_ids x = (case x of None \<Rightarrow> [] | Some (_, i) \<Rightarrow> [i])"

text \<open>The flush worker, the channel and the waiting writers hold the immutable memtables in order; table numbers are used once.\<close>

definition in_order :: "LSMTree \<Rightarrow> bool" where
  "in_order s \<longleftrightarrow> (case ls_flushing s of None \<Rightarrow> [] | Some (m, _) \<Rightarrow> [m]) @ ls_flushChan s @ ls_sending s = ls_immutables s"

definition ids_ok :: "LSMTree \<Rightarrow> bool" where
  "ids_ok s \<longleftrightarrow> (\<exists>ids. map ss_path (ls_sstables s) = map (sst_path (ls_dir s)) ids \<and> distinct (ids @ opt_ids (ls_flushing s) @ opt_ids (ls_compacting s)) \<and>
     (\<forall>i\<in>set (ids @ opt_ids (ls_flushing s) @ opt_ids (ls_compacting s)). i < ls_nextSSTableID s)) \<and>
     (\<forall>cs i. ls_compacting s = Some (cs, i) \<longrightarrow> (\<exists>pre. ls_sstables s = pre @ cs))"

definition all_entries :: "items \<Rightarrow> items list \<Rightarrow> MemTableEntry list list \<Rightarrow> MemTableEntry list" where
  "all_entries M Is Ts = map snd M @ concat (map (map snd) Is) @ concat Ts"

definition content_ok :: "MemTableEntry list \<Rightarrow> nat \<Rightarrow> bool" where
  "content_ok es n \<longleftrightarrow> (\<forall>e\<in>set es. entry_ok e \<and> me_Key e \<noteq> []) \<and> length (enc_entries es) \<le> n"

definition lsm_inv :: "(bytes \<Rightarrow> bytes option) \<Rightarrow> nat \<Rightarrow> LSMTree \<Rightarrow> bool" where
  "lsm_inv kv n s \<longleftrightarrow> \<not> ls_closed s \<and> ls_indexInterval s \<noteq> 0 \<and> in_order s \<and> ids_ok s \<and>
     (\<exists>M Is Ts. layers s M Is Ts \<and> content_ok (all_entries M Is Ts) n \<and> view M Is Ts = kv)"

lemma lsm_invI:
  assumes "\<not> ls_closed s" "ls_indexInterval s \<noteq> 0" "in_order s" "ids_ok s" "layers s M Is Ts" "content_ok (all_entries M Is Ts) n" "view M Is Ts = kv"
  shows "lsm_inv kv n s"
  using assms unfolding lsm_inv_def by blast

lemma lsm_invE:
  assumes "lsm_inv kv n s"
  obtains M Is Ts where "\<not> ls_closed s" "ls_indexInterval s \<noteq> 0" "in_order s" "ids_ok s" "layers s M Is Ts" "content_ok (all_entries M Is Ts) n" "view M Is Ts = kv"
  using assms unfolding lsm_inv_def by blast

lemma content_ok_sub: "content_ok es n \<Longrightarrow> set es' \<subseteq> set es \<Longrightarrow> length (enc_entries es') \<le> length (enc_entries es) \<Longrightarrow> content_ok es' n"
  by (auto simp: content_ok_def)

lemma sst_path_inj: "sst_path d i = sst_path d j \<longleftrightarrow> i = j"
  using atoi_itoa[of i] atoi_itoa[of j] by (auto simp: sst_path_def)
subsection \<open>Writers\<close>

lemma sorted_put_entries:
  "set (map snd (sorted_put k e M)) \<subseteq> insert e (set (map snd M))"
  "length (enc_entries (map snd (sorted_put k e M))) \<le> length (enc_entry e) + length (enc_entries (map snd M))"
  by (induction M) auto

lemma view_put:
  assumes "sorted_wrt blt (map fst M)"
  shows "view (sorted_put k e M) Is Ts = (view M Is Ts)(k := live (Some e))"
  using map_of_sorted_put[OF assms] by (auto simp: view_def fun_eq_iff map_add_def)

lemma content_ok_put:
  assumes "content_ok (all_entries M Is Ts) n" "entry_ok e" "me_Key e \<noteq> []"
  shows "content_ok (all_entries (sorted_put k e M) Is Ts) (n + length (enc_entry e))"
proof -
  have "x \<in> insert e (set (all_entries M Is Ts))" if "x \<in> set (all_entries (sorted_put k e M) Is Ts)" for x
    using that sorted_put_entries(1)[of k e M] by (auto simp: all_entries_def)
  moreover have "length (enc_entries (all_entries (sorted_put k e M) Is Ts)) \<le> length (enc_entries (all_entries M Is Ts)) + length (enc_entry e)"
    using sorted_put_entries(2)[of k e M] by (simp add: all_entries_def)
  ultimately show ?thesis using assms by (auto simp: content_ok_def)
qed

text \<open>A memtable with one more entry takes the place of the memtable, or of a new immutable memtable.\<close>

lemma lsm_inv_put:
  assumes inv: "lsm_inv kv n s" and e: "entry_ok e" "me_Key e \<noteq> []"
    and mt: "\<And>es. mt_holds (snd (ls_memTable s)) es \<Longrightarrow> mt_holds mt (sorted_put (me_Key e) e es)"
  shows "lsm_inv (kv(me_Key e := live (Some e))) (n + length (enc_entry e)) (s\<lparr>ls_memTable := (fst (ls_memTable s), mt)\<rparr>)"
    and "lsm_inv (kv(me_Key e := live (Some e))) (n + length (enc_entry e))
      (s\<lparr>ls_immutables := ls_immutables s @ [(a, mt)], ls_sending := ls_sending s @ [(a, mt)], ls_memTable := fresh_mem s b\<rparr>)"
proof -
  obtain M Is Ts where i: "\<not> ls_closed s" "ls_indexInterval s \<noteq> 0" "in_order s" "ids_ok s" "layers s M Is Ts" "content_ok (all_entries M Is Ts) n"
    "view M Is Ts = kv" using inv by (rule lsm_invE)
  have M: "mt_holds (snd (ls_memTable s)) M" using i(5) by (simp add: layers_def)
  let ?M = "sorted_put (me_Key e) e M"
  have v: "view ?M Is Ts = kv(me_Key e := live (Some e))" using view_put[OF mt_holds_sorted[OF M]] i(7) by simp
  show "lsm_inv (kv(me_Key e := live (Some e))) (n + length (enc_entry e)) (s\<lparr>ls_memTable := (fst (ls_memTable s), mt)\<rparr>)"
    using i mt[OF M] v content_ok_put[OF i(6) e]
    by (intro lsm_invI[where M = ?M and Is = Is and Ts = Ts]) (auto simp: layers_def in_order_def ids_ok_def)
  have v': "view [] (Is @ [?M]) Ts = view ?M Is Ts" by (simp add: view_def fun_eq_iff)
  have c': "content_ok (all_entries [] (Is @ [?M]) Ts) (n + length (enc_entry e))"
    by (rule content_ok_sub[OF content_ok_put[OF i(6) e]]) (auto simp: all_entries_def)
  show "lsm_inv (kv(me_Key e := live (Some e))) (n + length (enc_entry e))
      (s\<lparr>ls_immutables := ls_immutables s @ [(a, mt)], ls_sending := ls_sending s @ [(a, mt)], ls_memTable := fresh_mem s b\<rparr>)"
    using i mt[OF M] v v' c' NewMemTable_holds
    by (intro lsm_invI[where M = "[]" and Is = "Is @ [?M]" and Ts = Ts])
      (auto simp: layers_def in_order_def ids_ok_def fresh_mem_def mems_hold_def list_all2_appendI)
qed

lemma lsm_Put_inv:
  assumes "lsm_inv kv n s" "k \<noteq> []" "length k < 2 ^ 32" "length v < 2 ^ 32"
  shows "\<exists>s'. lsm_Put k v ts s = Some (None, s') \<and> lsm_inv (kv(k := Some v)) (n + (17 + length k + length v)) s'"
proof -
  let ?e = "\<lparr>me_Key = k, me_Value = v, me_Timestamp = ts, me_Deleted = False\<rparr>"
  obtain M where M: "mt_holds (snd (ls_memTable s)) M" and c: "\<not> ls_closed s" using assms(1) by (auto simp: lsm_inv_def layers_def)
  from mt_Put_ok[OF M, of k v ts] obtain mt where mt: "mt_Put k v ts (snd (ls_memTable s)) = Some mt" by blast
  have all: "mt_holds mt (sorted_put (me_Key ?e) ?e es)" if "mt_holds (snd (ls_memTable s)) es" for es
    using mt_Put_ok[OF that, of k v ts] mt by simp
  have e: "entry_ok ?e" "me_Key ?e \<noteq> []" using assms by (simp_all add: entry_ok_def)
  have n: "length (enc_entry ?e) = 17 + length k + length v" by (simp add: enc_entry_def enc_string_def)
  show ?thesis using lsm_inv_put[OF assms(1) e all] c unfolding n by (simp add: lsm_Put_def mt live_def Let_def)
qed

lemma lsm_Delete_inv:
  assumes "lsm_inv kv n s" "k \<noteq> []" "length k < 2 ^ 32"
  shows "\<exists>s'. lsm_Delete k ts s = Some (None, s') \<and> lsm_inv (kv(k := None)) (n + (17 + length k)) s'"
proof -
  let ?e = "\<lparr>me_Key = k, me_Value = [], me_Timestamp = ts, me_Deleted = True\<rparr>"
  obtain M where M: "mt_holds (snd (ls_memTable s)) M" and c: "\<not> ls_closed s" using assms(1) by (auto simp: lsm_inv_def layers_def)
  from mt_Delete_ok[OF M, of k ts] obtain mt where mt: "mt_Delete k ts (snd (ls_memTable s)) = Some mt" by blast
  have all: "mt_holds mt (sorted_put (me_Key ?e) ?e es)" if "mt_holds (snd (ls_memTable s)) es" for es
    using mt_Delete_ok[OF that, of k ts] mt by simp
  have e: "entry_ok ?e" "me_Key ?e \<noteq> []" using assms by (simp_all add: entry_ok_def)
  have n: "length (enc_entry ?e) = 17 + length k" by (simp add: enc_entry_def enc_string_def)
  show ?thesis using lsm_inv_put(1)[OF assms(1) e all] c unfolding n by (simp add: lsm_Delete_def mt live_def)
qed
subsection \<open>Workers\<close>

lemma lsm_send_inv:
  assumes "lsm_inv kv n s" shows "lsm_inv kv n (lsm_send 0 s)"
proof -
  obtain M Is Ts where i: "\<not> ls_closed s" "ls_indexInterval s \<noteq> 0" "in_order s" "ids_ok s" "layers s M Is Ts" "content_ok (all_entries M Is Ts) n"
    "view M Is Ts = kv" using assms by (rule lsm_invE)
  show ?thesis
  proof (cases "ls_sending s")
    case Nil then show ?thesis using assms by (simp add: lsm_send_def)
  next
    case (Cons m ms)
    have "lsm_inv kv n (s\<lparr>ls_flushChan := ls_flushChan s @ [m], ls_sending := ms\<rparr>)"
      using i Cons by (intro lsm_invI[where M = M and Is = Is and Ts = Ts]) (auto simp: layers_def in_order_def ids_ok_def)
    then show ?thesis using Cons assms by (simp add: lsm_send_def)
  qed
qed

lemma flush_begin_inv:
  assumes "lsm_inv kv n s" shows "lsm_inv kv n (flush_begin s)"
proof (cases "ls_flushing s = None \<and> ls_flushChan s \<noteq> []")
  case True
  then obtain m ms where c: "ls_flushChan s = m # ms" "ls_flushing s = None" by (cases "ls_flushChan s") auto
  obtain M Is Ts where i: "\<not> ls_closed s" "ls_indexInterval s \<noteq> 0" "in_order s" "ids_ok s" "layers s M Is Ts" "content_ok (all_entries M Is Ts) n"
    "view M Is Ts = kv" using assms by (rule lsm_invE)
  obtain ids where ids: "map ss_path (ls_sstables s) = map (sst_path (ls_dir s)) ids" "distinct (ids @ opt_ids (ls_compacting s))"
    "\<forall>x\<in>set (ids @ opt_ids (ls_compacting s)). x < ls_nextSSTableID s" using i(4) c(2) by (auto simp: ids_ok_def opt_ids_def[of None])
  let ?s = "s\<lparr>ls_nextSSTableID := Suc (ls_nextSSTableID s), ls_flushChan := ms, ls_flushing := Some (m, ls_nextSSTableID s)\<rparr>"
  have "distinct (ids @ opt_ids (ls_flushing ?s) @ opt_ids (ls_compacting ?s))"
    "\<forall>x\<in>set (ids @ opt_ids (ls_flushing ?s) @ opt_ids (ls_compacting ?s)). x < ls_nextSSTableID ?s"
    using ids(2,3) by (auto simp: opt_ids_def less_Suc_eq split: option.splits)
  then have "ids_ok ?s" using i(4) ids(1) unfolding ids_ok_def by (intro conjI exI[of _ ids]) auto
  then have "lsm_inv kv n ?s" using i c by (intro lsm_invI[where M = M and Is = Is and Ts = Ts]) (auto simp: layers_def in_order_def)
  then show ?thesis using c by (simp add: flush_begin_def alloc_id_def)
next
  case False then show ?thesis using assms by (auto simp: flush_begin_def split: option.splits list.splits)
qed

lemma those_map: "those (map Some xs) = Some xs"
  by (induction xs) auto

lemma keyed_items: "mt_holds mt I \<Longrightarrow> keyed (map snd I) = I"
  by (auto simp: mt_holds_def intro!: map_idI prod_eqI)

lemma tables_hold_update:
  assumes "tables_hold files ts Ts" "p \<notin> ss_path ` set ts"
  shows "tables_hold (AList.update p f files) ts Ts"
proof -
  have "map_of (AList.update p f files) (ss_path t) = map_of files (ss_path t)" if "t \<in> set ts" for t
    using that assms(2) by (auto simp: update_conv')
  then show ?thesis using assms(1) unfolding tables_hold_def by (auto elim!: list.rel_mono_strong)
qed

lemma table_paths_fresh:
  "map ss_path ts = map (sst_path d) ids \<Longrightarrow> i \<notin> set ids \<Longrightarrow> sst_path d i \<notin> ss_path ` set ts"
  by (metis (no_types, lifting) image_iff list.set_map sst_path_inj)

lemma table_ok_items:
  assumes "mt_holds mt I" "content_ok es n" "set (map snd I) \<subseteq> set es" "length (enc_entries (map snd I)) \<le> length (enc_entries es)" "n < 2 ^ 63"
  shows "table_ok (map snd I)"
proof -
  have "map me_Key (map snd I) = map fst I" using assms(1) by (simp add: mt_holds_def)
  then have "sorted_wrt blt (map me_Key (map snd I))" using mt_holds_sorted[OF assms(1)] by (simp only:)
  then show ?thesis using assms(2-5) by (auto simp: table_ok_def content_ok_def)
qed
lemma flush_finish_build:
  assumes "mt_holds (snd m) I" "build_table (ls_dir s) sid (ls_indexInterval s) (map snd I) = Some (t, f)"
  shows "flush_finish m sid s = Some (s\<lparr>ls_files := AList.update (sst_path (ls_dir s) sid) f (ls_files s), ls_sstables := t # ls_sstables s,
      ls_immutables := remove_mem (fst m) (ls_immutables s), ls_compactChan := (ls_compactChan s \<or> length (ls_sstables s) > 3)\<rparr>)"
  using mt_iterate_ok[OF assms(1)] those_map[of "map snd I"] assms(2) by (simp add: flush_finish_def comp_def)

lemma flush_finish_ok:
  assumes "mt_holds (snd m) I" "table_ok (map snd I)" "ls_indexInterval s \<noteq> 0"
  shows "\<exists>t f. flush_finish m sid s = Some (s\<lparr>ls_files := AList.update (sst_path (ls_dir s) sid) f (ls_files s), ls_sstables := t # ls_sstables s,
      ls_immutables := remove_mem (fst m) (ls_immutables s), ls_compactChan := (ls_compactChan s \<or> length (ls_sstables s) > 3)\<rparr>) \<and>
    sst_holds t f (map snd I) \<and> ss_path t = sst_path (ls_dir s) sid"
  using sst.build_ok[OF assms(2,3), of "ls_dir s" sid] flush_finish_build[OF assms(1)] by blast

lemma flush_end_inv:
  assumes "lsm_inv kv n s" "n < 2 ^ 63"
  shows "\<exists>s'. flush_end s = Some s' \<and> lsm_inv kv n s'"
proof (cases "ls_flushing s")
  case None then show ?thesis using assms by (simp add: flush_end_def)
next
  case (Some p)
  obtain m sid where p: "ls_flushing s = Some (m, sid)" using Some by (cases p) simp
  obtain M Is Ts where i: "\<not> ls_closed s" "ls_indexInterval s \<noteq> 0" "in_order s" "ids_ok s" "layers s M Is Ts" "content_ok (all_entries M Is Ts) n"
    "view M Is Ts = kv" using assms(1) by (rule lsm_invE)
  define ms where "ms = ls_flushChan s @ ls_sending s"
  have ms: "ls_immutables s = m # ms" "ls_flushChan s @ ls_sending s = ms" using i(3) p by (auto simp: in_order_def ms_def)
  obtain I Ir where Is: "Is = I # Ir" and h: "mt_holds (snd m) I" "mems_hold ms Ir"
    using i(5) ms(1) by (auto simp: layers_def mems_hold_def list_all2_Cons1)
  have ok: "table_ok (map snd I)" by (rule table_ok_items[OF h(1) i(6) _ _ assms(2)]) (auto simp: all_entries_def Is)
  from flush_finish_ok[OF h(1) ok i(2), of sid] obtain t f where
    ff: "flush_finish m sid s = Some (s\<lparr>ls_files := AList.update (sst_path (ls_dir s) sid) f (ls_files s), ls_sstables := t # ls_sstables s,
      ls_immutables := ms, ls_compactChan := (ls_compactChan s \<or> length (ls_sstables s) > 3)\<rparr>)" (is "_ = Some ?s1")
    and t: "sst_holds t f (map snd I)" "ss_path t = sst_path (ls_dir s) sid" using ms(1) by auto
  let ?s = "?s1\<lparr>ls_flushing := None\<rparr>"
  obtain ids where ids: "map ss_path (ls_sstables s) = map (sst_path (ls_dir s)) ids" "distinct (ids @ sid # opt_ids (ls_compacting s))"
    "\<forall>x\<in>set (ids @ sid # opt_ids (ls_compacting s)). x < ls_nextSSTableID s"
    and co: "\<forall>cs i. ls_compacting s = Some (cs, i) \<longrightarrow> (\<exists>pre. ls_sstables s = pre @ cs)"
    using i(4) p by (auto simp: ids_ok_def opt_ids_def[of "Some _"])
  have "tables_hold (ls_files ?s) (ls_sstables s) Ts"
    using i(5) tables_hold_update table_paths_fresh[OF ids(1)] ids(2) by (auto simp: layers_def)
  then have "tables_hold (ls_files ?s) (t # ls_sstables s) (map snd I # Ts)" using t by (simp add: tables_hold_def update_conv')
  then have "layers ?s M Ir (map snd I # Ts)" using i(5) h(2) by (simp add: layers_def)
  moreover have "ids_ok ?s" unfolding ids_ok_def
  proof (intro conjI exI[of _ "sid # ids"] allI impI)
    fix cs j assume "ls_compacting ?s = Some (cs, j)"
    then obtain pre where "ls_sstables s = pre @ cs" using co by auto
    then show "\<exists>pre. ls_sstables ?s = pre @ cs" by (intro exI[of _ "t # pre"]) simp
  qed (use ids t(2) in \<open>auto simp: opt_ids_def[of None]\<close>)
  moreover have "content_ok (all_entries M Ir (map snd I # Ts)) n"
    by (rule content_ok_sub[OF i(6)]) (auto simp: all_entries_def Is)
  moreover have "view M Ir (map snd I # Ts) = kv" using i(7) keyed_items[OF h(1)] by (simp add: view_def fun_eq_iff Is)
  moreover have "in_order ?s" using ms(2) by (simp add: in_order_def)
  ultimately have "lsm_inv kv n ?s" using i(1,2) by (intro lsm_invI[where M = M and Is = Ir and Ts = "map snd I # Ts"]) auto
  then show ?thesis using p ff by (simp add: flush_end_def)
qed
lemma compact_begin_inv:
  assumes "lsm_inv kv n s" shows "lsm_inv kv n (compact_begin b s)"
proof -
  obtain M Is Ts where i: "\<not> ls_closed s" "ls_indexInterval s \<noteq> 0" "in_order s" "ids_ok s" "layers s M Is Ts" "content_ok (all_entries M Is Ts) n"
    "view M Is Ts = kv" using assms by (rule lsm_invE)
  have flag: "lsm_inv kv n (s\<lparr>ls_compactChan := x\<rparr>)" for x
    using i by (intro lsm_invI[where M = M and Is = Is and Ts = Ts]) (auto simp: layers_def in_order_def ids_ok_def)
  show ?thesis
  proof (cases "ls_compacting s = None \<and> length (ls_sstables s) > 4")
    case False then show ?thesis using assms flag by (auto simp: compact_begin_def Let_def)
  next
    case True
    obtain ids where ids: "map ss_path (ls_sstables s) = map (sst_path (ls_dir s)) ids" "distinct (ids @ opt_ids (ls_flushing s))"
      "\<forall>x\<in>set (ids @ opt_ids (ls_flushing s)). x < ls_nextSSTableID s" using i(4) True by (auto simp: ids_ok_def opt_ids_def[of None])
    have "lsm_inv kv n (s\<lparr>ls_compactChan := x, ls_nextSSTableID := Suc (ls_nextSSTableID s),
        ls_compacting := Some (drop (length (ls_sstables s) - 4) (ls_sstables s), ls_nextSSTableID s)\<rparr>)" (is "lsm_inv _ _ (?s x)") for x
    proof -
      have "ids_ok (?s x)" unfolding ids_ok_def
      proof (intro conjI exI[of _ ids] allI impI)
        fix cs j assume "ls_compacting (?s x) = Some (cs, j)"
        then show "\<exists>pre. ls_sstables (?s x) = pre @ cs" by (intro exI[of _ "take (length (ls_sstables s) - 4) (ls_sstables s)"]) auto
      qed (use ids in \<open>auto simp: opt_ids_def less_Suc_eq split: option.splits\<close>)
      then show ?thesis using i by (intro lsm_invI[where M = M and Is = Is and Ts = Ts]) (auto simp: layers_def in_order_def)
    qed
    from this[of False] this[of "ls_compactChan s"] show ?thesis using True assms by (auto simp: compact_begin_def Let_def alloc_id_def)
  qed
qed

lemma those_tables:
  assumes "tables_hold files ts Ts" shows "those (map (table_entries files) ts) = Some Ts"
  using assms unfolding tables_hold_def
  by (induction ts Ts rule: list_all2_induct) (auto simp: table_entries_def sst.scan_ok)

lemma tables_hold_delete:
  assumes "tables_hold files ts Ts" "\<forall>t\<in>set ts. \<forall>c\<in>set cs. ss_path t \<noteq> ss_path c"
  shows "tables_hold (fold (\<lambda>c. AList.delete (ss_path c)) cs files) ts Ts"
  using assms
proof (induction cs arbitrary: files)
  case (Cons c cs)
  have "map_of (AList.delete (ss_path c) files) (ss_path t) = map_of files (ss_path t)" if "t \<in> set ts" for t
    using that Cons.prems(2) by (auto simp: delete_conv')
  then have "tables_hold (AList.delete (ss_path c) files) ts Ts"
    using Cons.prems(1) unfolding tables_hold_def by (auto elim!: list.rel_mono_strong)
  then show ?case using Cons by simp
qed simp

lemma tables_sorted: "tables_hold files ts Ts \<Longrightarrow> sorted_its Ts"
  unfolding tables_hold_def by (induction ts Ts rule: list_all2_induct) (auto dest!: sst.holds_ok simp: table_ok_def)

lemma view_merged:
  assumes "merged_ok Tc None R" shows "view M Is (Tp @ [R]) = view M Is (Tp @ Tc)"
proof
  fix k
  have "map_of (keyed R) k = undeleted (hits Tc k)" using assms by (simp add: merged_ok_def)
  then have "live (map_of (X @ keyed R) k) = live (map_of (X @ concat (map keyed Tc)) k)" for X
    by (auto simp: map_add_def split: option.split)
  from this[of "M @ concat (rev Is) @ concat (map keyed Tp)"] show "view M Is (Tp @ [R]) k = view M Is (Tp @ Tc) k" by (simp add: view_def)
qed

lemma merge_tables_ok:
  assumes "tables_hold files cs Tc" "content_ok (concat Tc) n" "n < 2 ^ 63"
  shows "merged_ok Tc None (merge_entries Tc None)" "table_ok (merge_entries Tc None)"
proof -
  show m: "merged_ok Tc None (merge_entries Tc None)" by (rule merge_entries_ok) (use tables_sorted[OF assms(1)] in auto)
  then have "set (merge_entries Tc None) \<subseteq> set (concat Tc)" by (auto simp: merged_ok_def)
  then show "table_ok (merge_entries Tc None)" using m assms(2,3) by (auto simp: merged_ok_def table_ok_def content_ok_def)
qed
lemma compact_end_inv:
  assumes "lsm_inv kv n s" "n < 2 ^ 63"
  shows "\<exists>s'. compact_end s = Some s' \<and> lsm_inv kv n s'"
proof (cases "ls_compacting s")
  case None then show ?thesis using assms by (simp add: compact_end_def)
next
  case (Some p)
  obtain cs cid where p: "ls_compacting s = Some (cs, cid)" using Some by (cases p) simp
  obtain M Is Ts where i: "\<not> ls_closed s" "ls_indexInterval s \<noteq> 0" "in_order s" "ids_ok s" "layers s M Is Ts" "content_ok (all_entries M Is Ts) n"
    "view M Is Ts = kv" using assms(1) by (rule lsm_invE)
  obtain ids where ids: "map ss_path (ls_sstables s) = map (sst_path (ls_dir s)) ids" "distinct (ids @ opt_ids (ls_flushing s) @ [cid])"
    "\<forall>x\<in>set (ids @ opt_ids (ls_flushing s) @ [cid]). x < ls_nextSSTableID s"
    using i(4) p by (auto simp: ids_ok_def opt_ids_def[of "Some _"])
  obtain pre where pre: "ls_sstables s = pre @ cs" using i(4) p by (auto simp: ids_ok_def)
  let ?path = "sst_path (ls_dir s) cid" and ?F = "AList.update (sst_path (ls_dir s) cid)"
  have fresh: "?path \<notin> ss_path ` set (ls_sstables s)" using table_paths_fresh[OF ids(1)] ids(2) by auto
  have dp: "distinct (map ss_path (pre @ cs))" unfolding pre[symmetric] ids(1) using ids(2) by (simp add: distinct_map inj_on_def sst_path_inj)
  obtain Tp Tc where T: "Ts = Tp @ Tc" "tables_hold (ls_files s) pre Tp" "tables_hold (ls_files s) cs Tc"
    using i(5) pre by (auto simp: layers_def tables_hold_def list_all2_append1)
  have up: "tables_hold (?F f (ls_files s)) pre Tp" "tables_hold (?F f (ls_files s)) cs Tc" for f
    using T(2,3) fresh pre by (auto intro!: tables_hold_update)
  have c: "content_ok (concat Tc) n" by (rule content_ok_sub[OF i(6)]) (auto simp: all_entries_def T(1))
  let ?R = "merge_entries Tc None"
  note m = merge_tables_ok[OF T(3) c assms(2)]
  from sst.build_ok[OF m(2) i(2), of "ls_dir s" cid] obtain t f where
    t: "build_table (ls_dir s) cid (ls_indexInterval s) ?R = Some (t, f)" "sst_holds t f ?R" "ss_path t = ?path" by blast
  have ms: "mergeSSTables cs cid s = Some (Inr t, s\<lparr>ls_files := ?F f (?F [] (ls_files s))\<rparr>)"
    using those_tables[OF up(2)] t(1) by (simp add: mergeSSTables_def Let_def)
  have flt: "filter (\<lambda>t. ss_path t \<notin> ss_path ` set cs) (ls_sstables s) = pre"
    using dp by (auto simp: pre filter_id_conv filter_empty_conv)
  let ?s = "s\<lparr>ls_sstables := pre @ [t], ls_files := fold (\<lambda>t. AList.delete (ss_path t)) cs (?F f (?F [] (ls_files s))), ls_compacting := None\<rparr>"
  have ce: "compact_end s = Some ?s" by (simp add: compact_end_def p ms flt)
  have "tables_hold (?F f (?F [] (ls_files s))) pre Tp" using up(1) fresh pre by (auto intro: tables_hold_update)
  then have "tables_hold (?F f (?F [] (ls_files s))) (pre @ [t]) (Tp @ [?R])"
    using t(2,3) by (auto simp: tables_hold_def update_conv' intro!: list_all2_appendI)
  moreover have "\<forall>x\<in>set (pre @ [t]). \<forall>c\<in>set cs. ss_path x \<noteq> ss_path c"
  proof (intro ballI)
    fix x c assume xc: "x \<in> set (pre @ [t])" "c \<in> set cs"
    have "ss_path c \<in> ss_path ` set cs" "ss_path c \<noteq> ?path" using xc(2) fresh unfolding pre by force+
    then show "ss_path x \<noteq> ss_path c" using xc(1) dp t(3) by (auto simp: disjoint_iff)
  qed
  ultimately have "tables_hold (ls_files ?s) (pre @ [t]) (Tp @ [?R])" by (simp add: tables_hold_delete)
  then have "layers ?s M Is (Tp @ [?R])" using i(5) by (simp add: layers_def)
  moreover have "content_ok (all_entries M Is (Tp @ [?R])) n"
    by (rule content_ok_sub[OF i(6)]) (use m(1) in \<open>auto simp: all_entries_def T(1) merged_ok_def\<close>)
  moreover have "view M Is (Tp @ [?R]) = kv" using view_merged[OF m(1)] i(7) T(1) by simp
  moreover have "ids_ok ?s" unfolding ids_ok_def
  proof (intro conjI exI[of _ "take (length pre) ids @ [cid]"])
    have "map ss_path pre = map (sst_path (ls_dir s)) (take (length pre) ids)"
      using arg_cong[OF ids(1), of "take (length pre)"] by (simp add: pre take_map)
    then show "map ss_path (ls_sstables ?s) = map (sst_path (ls_dir ?s)) (take (length pre) ids @ [cid])" using t(3) by simp
  qed (use ids(2,3) in \<open>auto simp: opt_ids_def[of None] dest: in_set_takeD\<close>)
  moreover have "in_order ?s" using i(3) by (simp add: in_order_def)
  ultimately have "lsm_inv kv n ?s" using i(1,2) by (intro lsm_invI[where M = M and Is = Is and Ts = "Tp @ [?R]"]) auto
  then show ?thesis using ce by blast
qed
section \<open>Theorems\<close>

fun op_ok :: "lsm_op \<Rightarrow> bool" where
  "op_ok (LPut k v ts) \<longleftrightarrow> k \<noteq> [] \<and> length k < 2 ^ 32 \<and> length v < 2 ^ 32"
| "op_ok (LDelete k ts) \<longleftrightarrow> k \<noteq> [] \<and> length k < 2 ^ 32"
| "op_ok (LSend i) \<longleftrightarrow> i = 0"
| "op_ok _ \<longleftrightarrow> True"

fun op_bytes :: "lsm_op \<Rightarrow> nat" where
  "op_bytes (LPut k v ts) = 17 + length k + length v"
| "op_bytes (LDelete k ts) = 17 + length k"
| "op_bytes _ = 0"

lemma lsm_exec_inv:
  assumes "lsm_inv kv n s" "op_ok x" "n + op_bytes x < 2 ^ 63"
  shows "\<exists>s'. lsm_exec x s = Some s' \<and> lsm_inv (kv_step x kv) (n + op_bytes x) s'"
proof (cases x)
  case (LPut k v ts)
  then show ?thesis using lsm_Put_inv[OF assms(1), of k v ts] assms(2) by auto
next
  case (LDelete k ts)
  then show ?thesis using lsm_Delete_inv[OF assms(1), of k ts] assms(2) by auto
qed (use assms in \<open>simp_all add: lsm_send_inv flush_begin_inv compact_begin_inv flush_end_inv compact_end_inv\<close>)

lemma lsm_run_inv:
  assumes "lsm_inv kv n s" "\<forall>x\<in>set xs. op_ok x" "n + sum_list (map op_bytes xs) < 2 ^ 63"
  shows "\<exists>s'. lsm_run xs s = Some s' \<and> lsm_inv (fold kv_step xs kv) (n + sum_list (map op_bytes xs)) s'"
  using assms
proof (induction xs arbitrary: kv n s)
  case (Cons x xs)
  then obtain s' where s': "lsm_exec x s = Some s'" "lsm_inv (kv_step x kv) (n + op_bytes x) s'" using lsm_exec_inv[of kv n s x] by auto
  from Cons.IH[OF s'(2)] Cons.prems(2,3) s'(1) show ?case by (auto simp: add.assoc)
qed simp

definition empty_tree :: "string \<Rightarrow> int \<Rightarrow> int \<Rightarrow> (nat \<Rightarrow> nat \<Rightarrow> bool) \<Rightarrow> LSMTree" where
  "empty_tree dir msize interval random =
     \<lparr>ls_dir = dir, ls_memTable = (0, NewMemTable (random 0) msize), ls_immutables = [], ls_sstables = [], ls_nextSSTableID = 0,
       ls_closed = False, ls_memTableSize = msize, ls_indexInterval = interval, ls_sending = [], ls_flushChan = [],
       ls_compactChan = False, ls_flushing = None, ls_compacting = None, ls_files = [], ls_random = random\<rparr>"

lemma NewLSMTree_empty: "NewLSMTree dir msize interval random [] = Inr (empty_tree dir msize interval random)"
  by (simp add: NewLSMTree_def loadSSTables_def empty_tree_def)

lemma empty_tree_inv: "interval \<noteq> 0 \<Longrightarrow> lsm_inv (\<lambda>_. None) 0 (empty_tree dir msize interval random)"
  by (rule lsm_invI[where M = "[]" and Is = "[]" and Ts = "[]"])
    (simp_all add: empty_tree_def layers_def NewMemTable_holds mems_hold_def tables_hold_def content_ok_def all_entries_def view_def live_def
      in_order_def ids_ok_def opt_ids_def fun_eq_iff)

text \<open>
  C10. On a tree opened on an empty directory, any interleaving of puts and deletes of non-empty keys with the two halves of flushes and of
  compactions runs without panic, and afterwards \<open>Get\<close> returns for every key the value of its last put, or nothing after a delete,
  provided that the writers send their full memtables to the flush worker in the order in which they filled them.
\<close>

theorem lsm_get_latest:
  assumes "\<forall>x\<in>set xs. op_ok x" "sum_list (map op_bytes xs) < 2 ^ 63" "interval \<noteq> 0"
  shows "\<exists>s0 s. NewLSMTree dir msize interval random [] = Inr s0 \<and> lsm_run xs s0 = Some s \<and> (\<forall>k. lsm_Get k s = Some (Inr (kv_run xs k)))"
proof -
  obtain s where s: "lsm_run xs (empty_tree dir msize interval random) = Some s" "lsm_inv (kv_run xs) (sum_list (map op_bytes xs)) s"
    using lsm_run_inv[OF empty_tree_inv[OF assms(3), of dir msize random] assms(1)] assms(2) by (auto simp: kv_run_def)
  then show ?thesis using lsm_Get_ok by (auto simp: NewLSMTree_empty lsm_inv_def)
qed

theorem lsm_get_latest_witness:
  "\<exists>s0 s. NewLSMTree ''db'' 20 2 (\<lambda>_ _. False) [] = Inr s0 \<and>
     lsm_run [LPut [1] [10, 11] 1, LDelete [2] 2, LPut [1] [12] 3, LSend 0, LFlushBegin, LPut [3] [4, 4, 4] 4, LFlushEnd, LSend 0, LFlushBegin,
       LFlushEnd, LCompactBegin False, LDelete [3] 5] s0 = Some s \<and>
     lsm_Get [1] s = Some (Inr (Some [12])) \<and> lsm_Get [3] s = Some (Inr None)"
  using lsm_get_latest[of "[LPut [1] [10, 11] 1, LDelete [2] 2, LPut [1] [12] 3, LSend 0, LFlushBegin, LPut [3] [4, 4, 4] 4, LFlushEnd, LSend 0,
       LFlushBegin, LFlushEnd, LCompactBegin False, LDelete [3] 5]" 2 "''db''" 20 "\<lambda>_ _. False"]
  by (auto simp: kv_run_def simp del: lsm_run.simps)
subsection \<open>Orders that lose updates\<close>

lemma put_fills:
  assumes "n \<le> 16"
  obtains mt where "mt_Put k v ts (NewMemTable r n) = Some mt" "mt_holds mt [(k, \<lparr>me_Key = k, me_Value = v, me_Timestamp = ts, me_Deleted = False\<rparr>)]" "IsFull mt"
proof -
  from mt_Put_ok[OF NewMemTable_holds[of r n], of k v ts] obtain mt where
    mt: "mt_Put k v ts (NewMemTable r n) = Some mt" "mt_holds mt [(k, \<lparr>me_Key = k, me_Value = v, me_Timestamp = ts, me_Deleted = False\<rparr>)]" by auto
  then have "IsFull mt" using assms by (auto simp: mt_Put_def NewMemTable_def IsFull_def split: option.splits)
  then show thesis using mt that by blast
qed

lemma single_table_ok: "entry_ok e \<Longrightarrow> me_Key e \<noteq> [] \<Longrightarrow> table_ok [e]"
  by (simp add: table_ok_def entry_ok_def enc_entry_def enc_string_def)

lemma path_neq [simp]: "sst_path d 0 \<noteq> sst_path d (Suc 0)" "sst_path d (Suc 0) \<noteq> sst_path d 0"
  by (simp_all add: sst_path_inj)

text \<open>
  C32. Two writers that each fill a memtable may send them in the other order, since the lock is released before the send: then
  the flush of the newer memtable is overtaken by that of the older one, and \<open>Get\<close> returns the overwritten value.
\<close>

theorem out_of_order_flush_is_stale:
  assumes "k \<noteq> []" "length k < 2 ^ 32" "length v1 < 2 ^ 32" "length v2 < 2 ^ 32" "msize \<le> 16" "interval \<noteq> 0"
  shows "\<exists>s0 s. NewLSMTree dir msize interval random [] = Inr s0 \<and>
    lsm_run [LPut k v1 t1, LPut k v2 t2, LSend 1, LFlushBegin, LFlushEnd, LSend 0, LFlushBegin, LFlushEnd] s0 = Some s \<and>
    lsm_Get k s = Some (Inr (Some v1))"
proof -
  let ?e = "\<lambda>v t. \<lparr>me_Key = k, me_Value = v, me_Timestamp = t, me_Deleted = False\<rparr>"
  obtain m1 where m1: "mt_Put k v1 t1 (NewMemTable (random 0) msize) = Some m1" "mt_holds m1 [(k, ?e v1 t1)]" "IsFull m1" using assms(5) by (rule put_fills)
  obtain m2 where m2: "mt_Put k v2 t2 (NewMemTable (random 1) msize) = Some m2" "mt_holds m2 [(k, ?e v2 t2)]" "IsFull m2" using assms(5) by (rule put_fills)
  have ok: "table_ok (map snd [(k, ?e v1 t1)])" "table_ok (map snd [(k, ?e v2 t2)])" using assms(1-4) by (simp_all add: single_table_ok entry_ok_def)
  let ?s0 = "empty_tree dir msize interval random"
  define sa where "sa = ?s0\<lparr>ls_immutables := [(0, m1), (1, m2)], ls_memTable := fresh_mem ?s0 2, ls_sending := [(0, m1)],
    ls_nextSSTableID := 1, ls_flushing := Some ((1, m2), 0)\<rparr>"
  have a: "lsm_run [LPut k v1 t1, LPut k v2 t2, LSend 1, LFlushBegin] ?s0 = Some sa"
    using m1(1,3) m2(1,3) by (simp add: lsm_Put_def empty_tree_def fresh_mem_def Let_def lsm_send_def flush_begin_def alloc_id_def sa_def numeral_2_eq_2)
  have "ls_indexInterval sa \<noteq> 0" using assms(6) by (simp add: sa_def empty_tree_def)
  from flush_finish_ok[of "(1, m2)", unfolded snd_conv, OF m2(2) ok(2) this, of 0] obtain u2 f2 where
    b: "flush_end sa = Some (?s0\<lparr>ls_immutables := [(0, m1)], ls_memTable := fresh_mem ?s0 2, ls_sending := [(0, m1)], ls_nextSSTableID := 1,
      ls_files := [(sst_path dir 0, f2)], ls_sstables := [u2]\<rparr>)" "sst_holds u2 f2 [?e v2 t2]" "ss_path u2 = sst_path dir 0"
    by (auto simp: flush_end_def sa_def empty_tree_def)
  define sb where "sb = ?s0\<lparr>ls_immutables := [(0, m1)], ls_memTable := fresh_mem ?s0 2, ls_nextSSTableID := 2,
      ls_files := [(sst_path dir 0, f2)], ls_sstables := [u2], ls_flushing := Some ((0, m1), 1)\<rparr>"
  have c: "lsm_run [LFlushEnd, LSend 0, LFlushBegin] sa = Some sb"
    by (simp add: b(1) sb_def lsm_send_def flush_begin_def alloc_id_def empty_tree_def)
  have "ls_indexInterval sb \<noteq> 0" using assms(6) by (simp add: sb_def empty_tree_def)
  from flush_finish_ok[of "(0, m1)", unfolded snd_conv, OF m1(2) ok(1) this, of 1] obtain u1 f1 where
    d: "flush_end sb = Some (?s0\<lparr>ls_memTable := fresh_mem ?s0 2, ls_nextSSTableID := 2,
      ls_files := [(sst_path dir 0, f2), (sst_path dir 1, f1)], ls_sstables := [u1, u2]\<rparr>)" (is "_ = Some ?s")
    "sst_holds u1 f1 [?e v1 t1]" "ss_path u1 = sst_path dir 1"
    by (auto simp: flush_end_def sb_def empty_tree_def)
  have "layers ?s [] [] [[?e v1 t1], [?e v2 t2]]"
    using b(2,3) d(2,3) by (simp add: layers_def mems_hold_def tables_hold_def fresh_mem_def NewMemTable_holds empty_tree_def)
  moreover have "\<not> ls_closed ?s" by (simp add: empty_tree_def)
  ultimately have "lsm_Get k ?s = Some (Inr (Some v1))" using lsm_Get_ok by (fastforce simp: view_def live_def)
  then show ?thesis using a c d(1) by (auto simp: NewLSMTree_empty split: option.splits)
qed
lemma digit_chars: "digit_char 0 = CHR ''0''" "digit_char 1 = CHR ''1''"
  by code_simp+

lemma table_paths: "sst_path d 0 = d @ ''/sstable_0.sst''" "sst_path d (Suc 0) = d @ ''/sstable_1.sst''"
  by (simp_all add: sst_path_def itoa.simps digit_chars[simplified])

lemma table_paths_match: "is_table_path d (sst_path d 0)" "is_table_path d (sst_path d (Suc 0))"
  by (simp_all add: is_table_path_def table_prefix_def table_paths Let_def)

lemma table_paths_less: "sst_path d 0 < sst_path d (Suc 0)"
  by (induction d) (simp_all add: table_paths)

lemma load_two_tables:
  assumes "OpenSSTable (sst_path dir 0) f0 = Inr u0" "OpenSSTable (sst_path dir (Suc 0)) f1 = Inr u1"
  shows "\<exists>n. NewLSMTree dir msize interval random [(sst_path dir 0, f0), (sst_path dir (Suc 0), f1)] =
    Inr ((empty_tree dir msize interval random)\<lparr>ls_files := [(sst_path dir 0, f0), (sst_path dir (Suc 0), f1)], ls_sstables := [u1, u0], ls_nextSSTableID := n\<rparr>)"
proof -
  have "sort [sst_path dir 0, sst_path dir (Suc 0)] = [sst_path dir 0, sst_path dir (Suc 0)]" using table_paths_less[of dir] by simp
  then show ?thesis using assms table_paths_match[of dir] by (simp add: NewLSMTree_def loadSSTables_def empty_tree_def)
qed

text \<open>
  C31. \<open>Close\<close> flushes the memtable before the older immutable ones, so that these get the newer table numbers. A key that was put, with
  its memtable waiting in the channel, and then deleted is there again when the directory is opened after a clean \<open>Close\<close>.
\<close>

theorem close_revives_deleted_key:
  assumes "k \<noteq> []" "length k < 2 ^ 29" "length v < 2 ^ 29" "msize \<le> 16" "interval \<noteq> 0"
  shows "\<exists>s0 s c s1 s2 s3. NewLSMTree dir msize interval random [] = Inr s0 \<and> lsm_run [LPut k v t1, LSend 0, LDelete k t2] s0 = Some s \<and>
    lsm_Get k s = Some (Inr None) \<and> close_begin s = (Some c, s1) \<and> close_end c s1 = Some s2 \<and>
    NewLSMTree dir msize interval random (ls_files s2) = Inr s3 \<and> lsm_Get k s3 = Some (Inr (Some v))"
proof -
  let ?e = "\<lparr>me_Key = k, me_Value = v, me_Timestamp = t1, me_Deleted = False\<rparr>" and ?d = "\<lparr>me_Key = k, me_Value = [], me_Timestamp = t2, me_Deleted = True\<rparr>"
  let ?s0 = "empty_tree dir msize interval random"
  obtain m1 where m1: "mt_Put k v t1 (NewMemTable (random 0) msize) = Some m1" "mt_holds m1 [(k, ?e)]" "IsFull m1" using assms(4) by (rule put_fills)
  from mt_Delete_ok[OF NewMemTable_holds[of "random 1" msize], of k t2] obtain m2 where
    m2: "mt_Delete k t2 (NewMemTable (random 1) msize) = Some m2" "mt_holds m2 [(k, ?d)]" by auto
  have sz: "mt_size m2 > 0" using m2(1) by (auto simp: mt_Delete_def NewMemTable_def split: option.splits)
  have ok: "table_ok [?e]" "table_ok [?d]" using assms(1-3) by (simp_all add: single_table_ok entry_ok_def)
  have "3 * length (enc_entries [?d]) + 13000 < 2 ^ 32" "3 * length (enc_entries [?e]) + 13000 < 2 ^ 32"
    using assms(2,3) by (simp_all add: enc_entry_def enc_string_def)
  with build_table_opens[OF ok(2) _ assms(5), of dir 0] build_table_opens[OF ok(1) _ assms(5), of dir 1] obtain u0 f0 u1 f1 where
    u: "build_table dir 0 interval [?d] = Some (u0, f0)" "OpenSSTable (sst_path dir 0) f0 = Inr u0" "sst_holds u0 f0 [?d]" "ss_path u0 = sst_path dir 0"
    "build_table dir 1 interval [?e] = Some (u1, f1)" "OpenSSTable (sst_path dir 1) f1 = Inr u1" "sst_holds u1 f1 [?e]" "ss_path u1 = sst_path dir 1" by blast
  define s where "s = ?s0\<lparr>ls_immutables := [(0, m1)], ls_memTable := (1, m2), ls_flushChan := [(0, m1)]\<rparr>"
  have run: "lsm_run [LPut k v t1, LSend 0, LDelete k t2] ?s0 = Some s"
    using m1(1,3) m2(1) by (simp add: lsm_Put_def lsm_Delete_def empty_tree_def fresh_mem_def Let_def lsm_send_def s_def)
  have "layers s [(k, ?d)] [[(k, ?e)]] []" using m1(2) m2(2) by (simp add: layers_def s_def mems_hold_def tables_hold_def empty_tree_def)
  from lsm_Get_ok[OF this, of k] have get: "lsm_Get k s = Some (Inr None)" by (simp add: s_def empty_tree_def view_def live_def)
  let ?files = "[(sst_path dir 0, f0), (sst_path dir (Suc 0), f1)]"
  have "\<exists>s2. flush_all [(1, m2), (0, m1)] (s\<lparr>ls_closed := True\<rparr>) = Some s2 \<and> ls_files s2 = ?files"
    using u(1,5) m1(2) m2(2) by (simp add: flushMemTable_def alloc_id_def s_def empty_tree_def flush_finish_build[where I = "[(k, ?d)]" and t = u0 and f = f0]
      flush_finish_build[where I = "[(k, ?e)]" and t = u1 and f = f1])
  then obtain s2 where cl: "close_end ((1, m2), [(0, m1)]) (s\<lparr>ls_closed := True\<rparr>) = Some s2" "ls_files s2 = ?files" using sz by (auto simp: close_end_def)
  obtain n where op: "NewLSMTree dir msize interval random ?files = Inr (?s0\<lparr>ls_files := ?files, ls_sstables := [u1, u0], ls_nextSSTableID := n\<rparr>)" (is "_ = Inr ?s3")
    using load_two_tables[OF u(2) u(6)[unfolded One_nat_def]] by blast
  have "layers ?s3 [] [] [[?e], [?d]]" using u by (simp add: layers_def mems_hold_def tables_hold_def NewMemTable_holds empty_tree_def)
  from lsm_Get_ok[OF this, of k] have "lsm_Get k ?s3 = Some (Inr (Some v))" by (simp add: empty_tree_def view_def live_def)
  moreover have "close_begin s = (Some ((1, m2), [(0, m1)]), s\<lparr>ls_closed := True\<rparr>)" by (simp add: close_begin_def s_def empty_tree_def)
  ultimately show ?thesis using run get cl op by (auto simp: NewLSMTree_empty)
qed
theorem close_revives_deleted_key_witness:
  "\<exists>s0 s c s1 s2 s3. NewLSMTree ''db'' 1 100 (\<lambda>_ _. True) [] = Inr s0 \<and> lsm_run [LPut [7] [1, 2] 10, LSend 0, LDelete [7] 11] s0 = Some s \<and>
    lsm_Get [7] s = Some (Inr None) \<and> close_begin s = (Some c, s1) \<and> close_end c s1 = Some s2 \<and>
    NewLSMTree ''db'' 1 100 (\<lambda>_ _. True) (ls_files s2) = Inr s3 \<and> lsm_Get [7] s3 = Some (Inr (Some [1, 2]))"
  by (rule close_revives_deleted_key) simp_all

theorem out_of_order_flush_is_stale_witness:
  "\<exists>s0 s. NewLSMTree ''db'' 1 100 (\<lambda>_ _. True) [] = Inr s0 \<and>
    lsm_run [LPut [7] [1] 10, LPut [7] [2] 11, LSend 1, LFlushBegin, LFlushEnd, LSend 0, LFlushBegin, LFlushEnd] s0 = Some s \<and>
    lsm_Get [7] s = Some (Inr (Some [1]))"
  by (rule out_of_order_flush_is_stale) simp_all

text \<open>Table files are ordered by name when a directory is opened: the tenth table counts as older than the ninth.\<close>

lemma table_names_not_by_number: "sst_path d 10 < sst_path d 9"
proof -
  have "sst_path d 10 = d @ ''/sstable_10.sst''" "sst_path d 9 = d @ ''/sstable_9.sst''" unfolding sst_path_def by (rule arg_cong[of _ _ "(@) d"], code_simp)+
  moreover have "d @ ''/sstable_10.sst'' < d @ ''/sstable_9.sst''" by (induction d) simp_all
  ultimately show ?thesis by simp
qed

end
