(* ===== verification/Spec2Isabelle.thy ===== *)
theory Spec2Isabelle
  imports Bson Transaction ShardedLru Concurrent Compaction StorageEngine TtlIndex Executor Lsm
begin

text \<open>
  Verification library of LauraDB, a document database written in Go.

  \<^bold>\<open>The program.\<close> A database (\<^verbatim>\<open>src/pkg/database\<close>) keeps collections of documents (\<^verbatim>\<open>pkg/document\<close>) with indexes
  (\<^verbatim>\<open>pkg/index\<close>) and caches (\<^verbatim>\<open>pkg/cache\<close>, \<^verbatim>\<open>pkg/concurrent\<close>). Transactions (\<^verbatim>\<open>pkg/mvcc\<close>) run under snapshot isolation over a
  multi-version store. Pages live in a data file behind a buffer pool and a write-ahead log (\<^verbatim>\<open>pkg/storage\<close>). A
  log-structured merge tree (\<^verbatim>\<open>pkg/lsm\<close>) is a second storage engine.

  \<^bold>\<open>Conventions.\<close> A Go \<^verbatim>\<open>interface{}\<close> is a value of the datatype \<open>gval\<close>, a byte slice a list of 8-bit words, a machine
  integer a word of its width wherever the code can wrap around. An operation is a function from the old state to
  result and new state. Errors are values; a panic or an index out of range is \<open>None\<close> or a constructor named
  after it. The clock, random draws and failures are arguments. A lock section is one step; interleavings are lists
  of steps. Pointer structures live in explicit stores (transactions, B+ tree nodes, skip list nodes, stack nodes).

  \<^bold>\<open>Theories, in the order of the code's layers.\<close>

  \<^item> \<open>Prelude\<close>: bytes and little-endian words, association lists for Go maps, byte order of keys, and the interfaces
    \<open>byte_codec\<close> (a decoder that inverts an encoder whatever follows) and \<open>byte_log\<close> (a file of encoded records).
  \<^item> \<open>Document\<close>, \<open>Bson\<close>: values, ordered documents, object ids (\<^verbatim>\<open>types.go\<close>, \<^verbatim>\<open>document.go\<close>, \<^verbatim>\<open>objectid.go\<close>) and the
    encoder and decoder of \<^verbatim>\<open>bson.go\<close>, with the round trip and the panics of the type assertions.
  \<^item> \<open>VersionStore\<close>, \<open>Transaction\<close>: \<^verbatim>\<open>pkg/mvcc\<close>. The interface \<open>version_store\<close> is interpreted on the model of
    \<^verbatim>\<open>version_store.go\<close>; over every interleaving of clients: first committer wins, snapshot reads, the
    committed state is that of a serial run, and what the garbage collector breaks.
  \<^item> \<open>LruCache\<close>, \<open>ShardedLru\<close>, \<open>Concurrent\<close>: \<^verbatim>\<open>pkg/cache\<close> and \<^verbatim>\<open>pkg/concurrent\<close>. The caches refine a recency list
    (interface \<open>recency_cache\<close>); the lock-free stack is linearizable under every schedule of its atomic steps.
  \<^item> \<open>Wal\<close>, \<open>Page\<close>, \<open>DiskManager\<close>, \<open>SlottedPage\<close>, \<open>Compaction\<close>, \<open>BufferPool\<close>, \<open>StorageEngine\<close>: \<^verbatim>\<open>pkg/storage\<close>, from the byte
    formats up to recovery. The interface \<open>page_store\<close> is what the upper layers need of the disk manager.
  \<^item> \<open>KeyOrder\<close>, \<open>Btree\<close>, \<open>BtreeMap\<close>, \<open>Index\<close>, \<open>TtlIndex\<close>: \<^verbatim>\<open>pkg/index\<close>. The interface \<open>key_order\<close> is a comparison that orders
    a set of keys; under it the pointer-based B+ tree refines a sorted map, and so does the index over it.
  \<^item> \<open>Float64\<close>, \<open>Query\<close>, \<open>Planner\<close>, \<open>Executor\<close>: \<^verbatim>\<open>pkg/query\<close>. \<open>Float64\<close> writes out the IEEE conversions and arithmetic on bit patterns that comparisons and
    costs use. A plan (an index, a range or an intersection of indexes) finds the documents of the full scan when indexes and documents are in
    step; three theorems show where projections and queries answered from an index alone go wrong.
  \<^item> \<open>SkipList\<close>, \<open>MemTable\<close>, \<open>Bloom\<close>, \<open>SSTable\<close>, \<open>Lsm\<close>: \<^verbatim>\<open>pkg/lsm\<close>, from the skip list to the tree with its flush and compaction workers. The
    interfaces are \<open>sorted_table\<close> (interpreted on the skip list) and \<open>sorted_file\<close> (on SSTables). The tree refines a map as long as full memtables
    are flushed in order; two theorems show what happens when they are not.

  \<^bold>\<open>Bounds and fuel.\<close> Recursions along pointers (B+ tree, skip list) take the number of allocated nodes as fuel; the
  theorems show that it suffices, since a pointer chain of a reachable state visits a node at most once. The range
  loop of page compaction is a partial function because it may run forever, and termination is proved
  exactly where it holds. All other functions terminate by structural recursion or a proved measure.

  \<^bold>\<open>Not modelled.\<close> The collection (\<^verbatim>\<open>pkg/database/collection.go\<close>), its document store, catalog and sessions, which join the parts above with update
  operators, text and geo indexes; aggregation, two-phase commit, replication, sharding and change streams, which stand on top of collections and
  exchange messages between processes; the disk form of the B+ tree and memory-mapped files. Code generated by the protocol compiler (\<^verbatim>\<open>pkg/cluster/proto\<close>) and the remote services over it; HTTP
  and websocket handlers, clients, command-line programs and examples, which pass requests on; metrics, audit,
  profiling, regression and chaos tooling, which only observe or measure; encryption and compression, which
  call cryptographic and compression packages; geometry and statistics in floating point.
\<close>

end
